theory Spec2Isabelle
  imports Main
begin

section \<open>Data model of sshp.c\<close>

text \<open>
  Bytes are \<^typ>\<open>char\<close> (8 bits), C strings and byte buffers are \<^typ>\<open>char list\<close>.
  C \<open>int\<close> and \<open>long\<close> values are \<^typ>\<open>int\<close>. An \<open>int\<close> has 32 bits on the platforms
  the program builds on, and a signed sum that leaves its range is undefined in C. The
  only sums of the program that can leave it are the buffer sizes
  \<open>opts.max_line_length + 2\<close> and \<open>opts.max_output_length + 1\<close>, which \<open>fdev_create\<close>
  computes first: there the sum is checked (\<open>int_add\<close>). Once it is in range, every
  other counter stays between \<open>-2\<close> and that size.
\<close>

abbreviation NL :: char where "NL \<equiv> CHR 0x0A"
abbreviation CR :: char where "CR \<equiv> CHR 0x0D"
abbreviation NUL :: char where "NUL \<equiv> CHR 0x00"

datatype ProgMode = MODE_LINE_BY_LINE | MODE_GROUP | MODE_JOIN

datatype PipeType = PIPE_STDOUT | PIPE_STDERR | PIPE_STDIO

text \<open>
  How the process can stop early: \<open>Exit n\<close> is \<open>err(n, ...)\<close> or \<open>errx(n, ...)\<close>,
  \<open>AssertFailed\<close> is a failing \<open>assert\<close>, \<open>MemoryFault\<close> is a load or store outside an
  allocation or through a NULL pointer, \<open>Overflow\<close> is a signed sum outside the range of
  \<open>int\<close>, \<open>NotRegistered\<close> marks an event script that reports a descriptor the watcher
  does not hold (no run of the program does that).
\<close>

datatype error = Exit int | AssertFailed | MemoryFault | Overflow | NotRegistered

definition bindE :: "error + 'a \<Rightarrow> ('a \<Rightarrow> error + 'b) \<Rightarrow> error + 'b" where
  "bindE m k = (case m of Inl e \<Rightarrow> Inl e | Inr x \<Rightarrow> k x)"

definition assert :: "bool \<Rightarrow> error + unit" where
  "assert b = (if b then Inr () else Inl AssertFailed)"

definition INT_MAX :: int where
  "INT_MAX = 2147483647"

definition INT_MIN :: int where
  "INT_MIN = - 2147483648"

text \<open>\<open>a + b\<close> on two \<open>int\<close> values.\<close>

definition int_add :: "int \<Rightarrow> int \<Rightarrow> error + int" where
  "int_add a b = (if INT_MIN \<le> a + b \<and> a + b \<le> INT_MAX then Inr (a + b) else Inl Overflow)"

record ChildProcess =
  pid :: int
  stdout_fd :: int
  stderr_fd :: int
  stdio_fd :: int
  output_buf :: "char list option"
  output_idx :: int
  exit_code :: int
  started_time :: int
  finished_time :: int

record Host =
  name :: string
  cp :: "ChildProcess option"

text \<open>\<open>host\<close> is the position in the roster of the Host that \<open>fdev->host\<close> points to.\<close>

record FdEvent =
  host :: nat
  fd :: int
  buffer :: "char list option"
  offset :: int
  ptype :: PipeType

record opts =
  anonymous :: bool
  debug :: bool
  exit_codes :: bool
  silent :: bool
  trim :: bool
  max_jobs :: int
  max_line_length :: int
  max_output_length :: int
  mode :: ProgMode

record colors =
  red :: string
  green :: string
  magenta :: string
  cyan :: string
  reset :: string

text \<open>
  The process-wide output state: the bytes written to standard output so far, the
  global \<open>newline_printed\<close> and the static \<open>last_host\<close> of \<open>process_data_group\<close>.
\<close>

record Out =
  stdout :: string
  newline_printed :: bool
  last_host :: "nat option"

section \<open>Memory and strings\<close>

text \<open>\<open>fdev->buffer[i] = c\<close>.\<close>

definition poke :: "FdEvent \<Rightarrow> int \<Rightarrow> char \<Rightarrow> error + FdEvent" where
  "poke f i c =
     (case buffer f of
        None \<Rightarrow> Inl MemoryFault
      | Some b \<Rightarrow>
          if 0 \<le> i \<and> i < int (length b) then Inr (f\<lparr>buffer := Some (b[nat i := c])\<rparr>)
          else Inl MemoryFault)"

text \<open>\<open>fdev->buffer[i]\<close> as a value.\<close>

definition peek :: "FdEvent \<Rightarrow> int \<Rightarrow> error + char" where
  "peek f i =
     (case buffer f of
        None \<Rightarrow> Inl MemoryFault
      | Some b \<Rightarrow> if 0 \<le> i \<and> i < int (length b) then Inr (b ! nat i) else Inl MemoryFault)"

text \<open>
  Reading a buffer as a nul-terminated string, as \<open>printf("%s")\<close>, \<open>strcmp\<close> and
  \<open>strlen\<close> do: the bytes before the first nul. Without a nul in the allocation the
  read runs off its end.
\<close>

definition c_str :: "char list \<Rightarrow> error + string" where
  "c_str b = (if NUL \<in> set b then Inr (takeWhile (\<lambda>c. c \<noteq> NUL) b) else Inl MemoryFault)"

definition deref :: "Host list \<Rightarrow> nat \<Rightarrow> error + Host" where
  "deref hs i = (if i < length hs then Inr (hs ! i) else Inl MemoryFault)"

text \<open>
  \<open>safe_malloc\<close>: the block is not initialised; \<open>junk\<close> gives the bytes it happens
  to hold. Allocation failure (\<open>err(3, ...)\<close>) is reported by \<open>ok = False\<close>.
\<close>

definition safe_malloc :: "(nat \<Rightarrow> char) \<Rightarrow> bool \<Rightarrow> int \<Rightarrow> error + char list" where
  "safe_malloc junk ok sz =
     bindE (assert (sz > 0)) (\<lambda>_.
       if ok then Inr (map junk [0..<nat sz]) else Inl (Exit 3))"

definition ends_in_newline :: "string \<Rightarrow> bool" where
  "ends_in_newline s = (if length s = 0 then False else s ! (length s - 1) = NL)"

definition pluralize :: "int \<Rightarrow> string" where
  "pluralize num = (if num = 1 then [] else ''s'')"

text \<open>\<open>lsplit_str\<close> on a string: the string is cut at the first \<open>c\<close>, if there is one.\<close>

definition lsplit_str :: "string \<Rightarrow> char \<Rightarrow> bool \<times> string" where
  "lsplit_str s c = (c \<in> set s, takeWhile (\<lambda>x. x \<noteq> c) s)"

text \<open>\<open>%d\<close> and \<open>%ld\<close>.\<close>

fun show_nat :: "nat \<Rightarrow> string" where
  "show_nat n =
     (if n < 10 then [''0123456789'' ! n]
      else show_nat (n div 10) @ [''0123456789'' ! (n mod 10)])"

declare show_nat.simps [simp del]

definition show_int :: "int \<Rightarrow> string" where
  "show_int i = (if i < 0 then CHR ''-'' # show_nat (nat (- i)) else show_nat (nat i))"

section \<open>Output formatting\<close>

definition fdev_get_color :: "colors \<Rightarrow> FdEvent \<Rightarrow> string" where
  "fdev_get_color col f =
     (case ptype f of
        PIPE_STDOUT \<Rightarrow> green col
      | PIPE_STDERR \<Rightarrow> red col
      | PIPE_STDIO \<Rightarrow> [])"

definition print_host_header :: "colors \<Rightarrow> Host \<Rightarrow> string" where
  "print_host_header col h = ''['' @ cyan col @ name h @ reset col @ '']''"

definition printf :: "string \<Rightarrow> Out \<Rightarrow> Out" where
  "printf s out = out\<lparr>stdout := stdout out @ s\<rparr>"

definition print_line_buffer ::
  "opts \<Rightarrow> colors \<Rightarrow> Host list \<Rightarrow> FdEvent \<Rightarrow> Out \<Rightarrow> error + Out" where
  "print_line_buffer opt col hs f out =
     bindE (deref hs (host f)) (\<lambda>h.
     bindE (case buffer f of None \<Rightarrow> Inl AssertFailed | Some b \<Rightarrow> c_str b) (\<lambda>line.
       Inr (printf
              ((if \<not> anonymous opt then print_host_header col h @ '' '' else [])
               @ fdev_get_color col f @ line @ reset col) out)))"

subsection \<open>Line-by-line mode\<close>

text \<open>The body of the loop of \<open>process_data_line_by_line\<close>, for the byte \<open>c\<close>.\<close>

definition line_by_line_step ::
  "opts \<Rightarrow> colors \<Rightarrow> Host list \<Rightarrow> FdEvent \<times> Out \<Rightarrow> char \<Rightarrow> error + FdEvent \<times> Out" where
  "line_by_line_step opt col hs fo c =
     (case fo of (f, out) \<Rightarrow>
      bindE
        (if offset f < max_line_length opt then
           bindE (poke f (offset f) c) (\<lambda>f'. Inr (f'\<lparr>offset := offset f + 1\<rparr>))
         else if offset f = max_line_length opt then
           bindE (poke f (offset f) NL) (\<lambda>f'. Inr (f'\<lparr>offset := offset f + 1\<rparr>))
         else Inr f)
        (\<lambda>f1.
           if c = NL then
             bindE (assert (offset f1 > 0)) (\<lambda>_.
             bindE (assert (offset f1 < max_line_length opt + 2)) (\<lambda>_.
             bindE (poke f1 (offset f1) NUL) (\<lambda>f2.
             bindE (print_line_buffer opt col hs f2 out) (\<lambda>out'.
               Inr (f2\<lparr>offset := 0\<rparr>, out')))))
           else Inr (f1, out)))"

fun line_by_line_loop ::
  "opts \<Rightarrow> colors \<Rightarrow> Host list \<Rightarrow> FdEvent \<times> Out \<Rightarrow> char list \<Rightarrow> error + FdEvent \<times> Out" where
  "line_by_line_loop opt col hs fo [] = Inr fo"
| "line_by_line_loop opt col hs fo (c # cs) =
     bindE (line_by_line_step opt col hs fo c) (\<lambda>fo'. line_by_line_loop opt col hs fo' cs)"

definition process_data_line_by_line ::
  "opts \<Rightarrow> colors \<Rightarrow> Host list \<Rightarrow> FdEvent \<times> Out \<Rightarrow> char list \<Rightarrow> error + FdEvent \<times> Out" where
  "process_data_line_by_line opt col hs fo buf =
     bindE (assert (length buf > 0)) (\<lambda>_. line_by_line_loop opt col hs fo buf)"

subsection \<open>Group mode\<close>

text \<open>
  \<open>write(STDOUT_FILENO, buf, bytes)\<close> is taken to write all of \<open>buf\<close>; standard output
  is flushed before it, so the bytes reach the stream in program order.
\<close>

definition process_data_group ::
  "opts \<Rightarrow> colors \<Rightarrow> Host list \<Rightarrow> FdEvent \<times> Out \<Rightarrow> char list \<Rightarrow> error + FdEvent \<times> Out" where
  "process_data_group opt col hs fo buf =
     (case fo of (f, out) \<Rightarrow>
      bindE (assert (length buf > 0)) (\<lambda>_.
      bindE (deref hs (host f)) (\<lambda>h.
        let out1 =
              (if last_host out \<noteq> Some (host f) then
                 let o1 = (if \<not> newline_printed out then printf [NL] out else out)
                 in (if \<not> anonymous opt then printf (print_host_header col h @ [NL]) o1
                     else o1)
               else out);
            out2 = printf (fdev_get_color col f @ buf @ reset col) out1
        in Inr (f, out2\<lparr>newline_printed := (buf ! (length buf - 1) = NL),
                        last_host := Some (host f)\<rparr>))))"

subsection \<open>Join mode\<close>

fun process_data_join_loop :: "opts \<Rightarrow> FdEvent \<Rightarrow> char list \<Rightarrow> error + FdEvent" where
  "process_data_join_loop opt f [] = Inr f"
| "process_data_join_loop opt f (c # cs) =
     (if offset f < max_output_length opt then
        bindE (poke f (offset f) c) (\<lambda>f'.
          process_data_join_loop opt (f'\<lparr>offset := offset f + 1\<rparr>) cs)
      else if offset f = max_line_length opt then
        bindE (poke f (offset f) NUL) (\<lambda>f'.
          process_data_join_loop opt (f'\<lparr>offset := offset f + 1\<rparr>) cs)
      else Inr f)"

definition process_data_join ::
  "opts \<Rightarrow> colors \<Rightarrow> Host list \<Rightarrow> FdEvent \<times> Out \<Rightarrow> char list \<Rightarrow> error + FdEvent \<times> Out" where
  "process_data_join opt col hs fo buf =
     (case fo of (f, out) \<Rightarrow>
      bindE (assert (length buf > 0)) (\<lambda>_.
      bindE (process_data_join_loop opt f buf) (\<lambda>f'. Inr (f', out))))"

section \<open>The stream reader\<close>

text \<open>
  What the process shares with its environment: the roster \<open>hosts\<close>, the interest
  list of the epoll instance (descriptor and the \<open>FdEvent\<close> its \<open>data.ptr\<close> points to),
  the output state, the number of clock readings taken, the roster positions
  \<open>waitpid\<close> was called for, in order, and the number of calls of \<open>epoll_wait\<close> made.
\<close>

record World =
  hosts :: "Host list"
  watcher :: "(int \<times> FdEvent) list"
  outs :: Out
  ticks :: nat
  waited :: "nat list"
  polls :: nat

text \<open>
  What the environment decides: the contents of fresh allocations and whether \<open>malloc\<close>
  succeeds, the \<open>k\<close>-th reading of the monotonic clock in milliseconds and whether
  \<open>clock_gettime\<close> succeeds then, for the host at each roster position the read ends of
  its pipes, the result of \<open>fork\<close>, the exit status of its child and whether \<open>waitpid\<close>
  on it succeeds, and whether the \<open>k\<close>-th call of \<open>epoll_wait\<close> succeeds.
\<close>

record Env =
  junk :: "nat \<Rightarrow> char"
  malloc_ok :: bool
  clock :: "nat \<Rightarrow> int"
  clock_ok :: "nat \<Rightarrow> bool"
  pipe_fd :: "nat \<Rightarrow> PipeType \<Rightarrow> int"
  fork_pid :: "nat \<Rightarrow> int"
  exit_status :: "nat \<Rightarrow> int"
  waitpid_ok :: "nat \<Rightarrow> bool"
  epoll_wait_ok :: "nat \<Rightarrow> bool"

text \<open>
  One \<open>read(2)\<close> on a pipe: \<open>Data buf\<close> returns \<open>length buf\<close> bytes (\<open>Data []\<close> is
  end of file), \<open>ReadFail\<close> is an error other than \<open>EWOULDBLOCK\<close>. The results of the
  successive reads of one call of \<open>read_active_fd\<close> form a list; after its last
  element the next read would block.
\<close>

datatype read_result = Data "char list" | ReadFail

definition get_fd :: "PipeType \<Rightarrow> ChildProcess \<Rightarrow> int" where
  "get_fd t c =
     (case t of PIPE_STDOUT \<Rightarrow> stdout_fd c | PIPE_STDERR \<Rightarrow> stderr_fd c
      | PIPE_STDIO \<Rightarrow> stdio_fd c)"

definition set_fd :: "PipeType \<Rightarrow> int \<Rightarrow> ChildProcess \<Rightarrow> ChildProcess" where
  "set_fd t v c =
     (case t of PIPE_STDOUT \<Rightarrow> c\<lparr>stdout_fd := v\<rparr> | PIPE_STDERR \<Rightarrow> c\<lparr>stderr_fd := v\<rparr>
      | PIPE_STDIO \<Rightarrow> c\<lparr>stdio_fd := v\<rparr>)"

definition child_process_stdio_done :: "ChildProcess \<Rightarrow> bool" where
  "child_process_stdio_done c =
     ((stdout_fd c = -2 \<and> stderr_fd c = -2) \<or> stdio_fd c = -2)"

definition host_cp :: "Host list \<Rightarrow> nat \<Rightarrow> error + ChildProcess" where
  "host_cp hs i =
     bindE (deref hs i) (\<lambda>h. case cp h of None \<Rightarrow> Inl MemoryFault | Some c \<Rightarrow> Inr c)"

text \<open>
  The \<open>switch (opts.mode)\<close> that \<open>read_active_fd\<close> runs at end of file, on the
  \<open>FdEvent\<close>, the child record of its host and the output state.
\<close>

definition read_eof_mode ::
  "opts \<Rightarrow> colors \<Rightarrow> Host list \<Rightarrow> FdEvent \<times> ChildProcess \<times> Out \<Rightarrow>
   error + FdEvent \<times> ChildProcess \<times> Out" where
  "read_eof_mode opt col hs fco =
     (case fco of (f, c, out) \<Rightarrow>
      (case mode opt of
         MODE_LINE_BY_LINE \<Rightarrow>
           if offset f = 0 then Inr (f, c, out)
           else
             bindE (peek f (offset f - 1)) (\<lambda>l.
             bindE (if l \<noteq> NL then
                      bindE (poke f (offset f) NL) (\<lambda>f'. Inr (f'\<lparr>offset := offset f + 1\<rparr>))
                    else Inr f) (\<lambda>f1.
             bindE (assert (offset f1 < max_line_length opt + 2)) (\<lambda>_.
             bindE (poke f1 (offset f1) NUL) (\<lambda>f2.
             bindE (print_line_buffer opt col hs f2 out) (\<lambda>out'.
               Inr (f2\<lparr>offset := 0\<rparr>, c, out'))))))
       | MODE_GROUP \<Rightarrow> Inr (f, c, out)
       | MODE_JOIN \<Rightarrow>
           bindE (if offset f \<le> max_output_length opt then
                    bindE (poke f (offset f) NUL) (\<lambda>f'. Inr (f'\<lparr>offset := offset f + 1\<rparr>))
                  else Inr f) (\<lambda>f1.
             Inr (f1\<lparr>buffer := None\<rparr>, c\<lparr>output_buf := buffer f1\<rparr>, out))))"

text \<open>
  The \<open>bytes == 0\<close> branch: the descriptor leaves the interest list, is closed and
  marked \<open>-2\<close> on the child record, then the mode's finalisation runs.
\<close>

definition read_eof :: "opts \<Rightarrow> colors \<Rightarrow> FdEvent \<Rightarrow> World \<Rightarrow> error + FdEvent \<times> World" where
  "read_eof opt col f w =
     bindE (deref (hosts w) (host f)) (\<lambda>h.
     bindE (host_cp (hosts w) (host f)) (\<lambda>c.
       let wt = filter (\<lambda>e. fst e \<noteq> get_fd (ptype f) c) (watcher w);
           c1 = set_fd (ptype f) (-2) c;
           hs1 = (hosts w)[host f := h\<lparr>cp := Some c1\<rparr>]
       in bindE (read_eof_mode opt col hs1 (f, c1, outs w)) (\<lambda>(f', c', out').
            Inr (f', w\<lparr>hosts := (hosts w)[host f := h\<lparr>cp := Some c'\<rparr>],
                       watcher := wt, outs := out'\<rparr>))))"

text \<open>The \<open>switch (opts.mode)\<close> that hands a chunk of \<open>bytes > 0\<close> bytes to its formatter.\<close>

definition handle_bytes ::
  "opts \<Rightarrow> colors \<Rightarrow> Host list \<Rightarrow> FdEvent \<times> Out \<Rightarrow> char list \<Rightarrow> error + FdEvent \<times> Out" where
  "handle_bytes opt col hs fo buf =
     (case mode opt of
        MODE_JOIN \<Rightarrow>
          bindE (assert (buffer (fst fo) \<noteq> None)) (\<lambda>_. process_data_join opt col hs fo buf)
      | MODE_LINE_BY_LINE \<Rightarrow>
          bindE (assert (buffer (fst fo) \<noteq> None)) (\<lambda>_.
            process_data_line_by_line opt col hs fo buf)
      | MODE_GROUP \<Rightarrow> process_data_group opt col hs fo buf)"

fun read_loop ::
  "opts \<Rightarrow> colors \<Rightarrow> FdEvent \<Rightarrow> World \<Rightarrow> read_result list \<Rightarrow> error + bool \<times> FdEvent \<times> World" where
  "read_loop opt col f w [] = Inr (False, f, w)"
| "read_loop opt col f w (ReadFail # rs) = Inl (Exit 3)"
| "read_loop opt col f w (Data buf # rs) =
     (if length buf = 0 then
        bindE (read_eof opt col f w) (\<lambda>(f', w'). Inr (True, f', w'))
      else if silent opt then read_loop opt col f w rs
      else
        bindE (handle_bytes opt col (hosts w) (f, outs w) buf) (\<lambda>(f', out').
          read_loop opt col f' (w\<lparr>outs := out'\<rparr>) rs))"

definition read_active_fd ::
  "opts \<Rightarrow> colors \<Rightarrow> FdEvent \<Rightarrow> World \<Rightarrow> read_result list \<Rightarrow> error + bool \<times> FdEvent \<times> World" where
  "read_active_fd opt col f w rs =
     bindE (host_cp (hosts w) (host f)) (\<lambda>_. read_loop opt col f w rs)"

text \<open>
  The calls of \<open>read_active_fd\<close> on one stream context, as \<open>main_loop\<close> makes them each
  time \<open>epoll_wait\<close> reports its descriptor: each element of the list holds the results
  of the reads of one call. A call that does not reach end of file returns because the
  next read would block, and the context is kept for the next call; the call that
  reaches end of file is the last one.
\<close>

fun read_calls ::
  "opts \<Rightarrow> colors \<Rightarrow> FdEvent \<Rightarrow> World \<Rightarrow> read_result list list \<Rightarrow>
   error + bool \<times> FdEvent \<times> World" where
  "read_calls opt col f w [] = Inr (False, f, w)"
| "read_calls opt col f w (rs # calls) =
     bindE (read_active_fd opt col f w rs) (\<lambda>(fd_closed, f', w').
       if fd_closed then Inr (True, f', w') else read_calls opt col f' w' calls)"

text \<open>\<open>sizeof (FdEvent)\<close> and \<open>sizeof (ChildProcess)\<close> with 64-bit pointers.\<close>

definition sizeof_FdEvent :: int where
  "sizeof_FdEvent = 32"

definition sizeof_ChildProcess :: int where
  "sizeof_ChildProcess = 48"

text \<open>
  \<open>fdev_create\<close>, for the host at roster position \<open>i\<close>: the two assertions, the
  allocation of the record, the allocation of the buffer of the mode, whose size is an
  \<open>int\<close> sum, then the descriptor.
\<close>

definition fdev_create :: "opts \<Rightarrow> Env \<Rightarrow> Host list \<Rightarrow> nat \<Rightarrow> PipeType \<Rightarrow> error + FdEvent" where
  "fdev_create opt env hs i t =
     bindE (deref hs i) (\<lambda>h.
     bindE (assert (cp h \<noteq> None)) (\<lambda>_.
     bindE (safe_malloc (junk env) (malloc_ok env) sizeof_FdEvent) (\<lambda>_.
     bindE (case mode opt of
              MODE_LINE_BY_LINE \<Rightarrow>
                bindE (int_add (max_line_length opt) 2) (\<lambda>sz.
                bindE (safe_malloc (junk env) (malloc_ok env) sz) (\<lambda>b. Inr (Some b)))
            | MODE_JOIN \<Rightarrow>
                bindE (int_add (max_output_length opt) 1) (\<lambda>sz.
                bindE (safe_malloc (junk env) (malloc_ok env) sz) (\<lambda>b. Inr (Some b)))
            | MODE_GROUP \<Rightarrow> Inr None) (\<lambda>b.
     bindE (host_cp hs i) (\<lambda>c.
     bindE (assert (get_fd t c \<ge> 0)) (\<lambda>_.
       Inr \<lparr>host = i, fd = get_fd t c, buffer = b, offset = 0, ptype = t\<rparr>))))))"

section \<open>Command line and roster\<close>

definition MAX_ARGS :: int where
  "MAX_ARGS = 256"

text \<open>
  \<open>HOST_NAME_MAX\<close> comes from \<open>limits.h\<close>; the program needs \<open>sys/epoll.h\<close>, so it
  is built on Linux, where the value is 64.
\<close>

definition HOST_NAME_MAX :: nat where
  "HOST_NAME_MAX = 64"

text \<open>
  \<open>push_arguments\<close>: \<open>base\<close> is \<open>base_ssh_command\<close> up to its first NULL, the static
  \<open>idx\<close> is its length, \<open>args\<close> are the variadic arguments before the closing NULL.
\<close>

fun push_arguments_loop :: "string list \<Rightarrow> string list \<Rightarrow> error + string list" where
  "push_arguments_loop base [] = Inr base"
| "push_arguments_loop base (s # ss) =
     (if int (length base) \<ge> MAX_ARGS - 2 then Inl (Exit 2)
      else push_arguments_loop (base @ [s]) ss)"

definition push_arguments :: "string list \<Rightarrow> string list \<Rightarrow> error + string list" where
  "push_arguments base args =
     bindE (assert (args \<noteq> [])) (\<lambda>_. push_arguments_loop base args)"

text \<open>
  \<open>build_ssh_command\<close>: \<open>command\<close> is an array of \<open>size\<close> pointers, NULL being
  \<open>None\<close>; the three argument lists are walked in order.
\<close>

fun build_ssh_command_loop ::
  "string option list \<Rightarrow> int \<Rightarrow> int \<Rightarrow> string list \<Rightarrow> error + string option list \<times> int" where
  "build_ssh_command_loop command idx sz [] = Inr (command, idx)"
| "build_ssh_command_loop command idx sz (arg # rest) =
     (if 0 \<le> idx \<and> idx < int (length command) then
        (if idx + 1 \<ge> sz then Inl (Exit 2)
         else build_ssh_command_loop (command[nat idx := Some arg]) (idx + 1) sz rest)
      else Inl MemoryFault)"

definition build_ssh_command ::
  "string list \<Rightarrow> string list \<Rightarrow> Host \<Rightarrow> string option list \<Rightarrow> int \<Rightarrow>
   error + string option list" where
  "build_ssh_command base remote h command sz =
     bindE (assert (sz > 0)) (\<lambda>_.
     bindE (build_ssh_command_loop command 0 sz (base @ [name h] @ remote)) (\<lambda>(command', idx).
     bindE (assert (idx < sz)) (\<lambda>_.
     bindE (assert (command' ! nat (sz - 1) = None)) (\<lambda>_. Inr command'))))"

text \<open>
  The sanity checks of \<open>parse_arguments\<close> on the option values that \<open>getopt_long\<close>
  left, and the mode they select. \<open>jn\<close> and \<open>gr\<close> are \<open>opts.join\<close> and \<open>opts.group\<close>.
\<close>

definition parse_arguments_checks :: "opts \<Rightarrow> bool \<Rightarrow> bool \<Rightarrow> error + opts" where
  "parse_arguments_checks opt jn gr =
     (if max_jobs opt < 1 then Inl (Exit 2)
      else if jn \<and> gr then Inl (Exit 2)
      else if jn \<and> silent opt then Inl (Exit 2)
      else if jn \<and> anonymous opt then Inl (Exit 2)
      else if max_line_length opt \<le> 0 then Inl (Exit 2)
      else if max_output_length opt \<le> 0 then Inl (Exit 2)
      else Inr (if jn then opt\<lparr>mode := MODE_JOIN\<rparr>
                else if gr then opt\<lparr>mode := MODE_GROUP\<rparr> else opt))"

text \<open>
  The successive results of \<open>fgets(hostname, k + 1, f)\<close> on a file holding \<open>inp\<close>: each
  takes bytes up to and including a newline, at most \<open>k\<close> of them; \<open>cur\<close> is what the
  current call has taken so far.
\<close>

fun fgets_all :: "nat \<Rightarrow> char list \<Rightarrow> char list \<Rightarrow> char list list" where
  "fgets_all k cur [] = (if cur = [] then [] else [cur])"
| "fgets_all k cur (c # cs) =
     (if c = NL \<or> Suc (length cur) \<ge> k then (cur @ [c]) # fgets_all k [] cs
      else fgets_all k (cur @ [c]) cs)"

definition host_create :: "string \<Rightarrow> Host" where
  "host_create nm = \<lparr>name = nm, cp = None\<rparr>"

text \<open>
  The two allocations of \<open>host_create\<close>, the record and the copy of the name that
  \<open>strdup\<close> makes; \<open>sizeof (Host)\<close> with 64-bit pointers.
\<close>

definition sizeof_Host :: int where
  "sizeof_Host = 24"

definition host_alloc :: "(nat \<Rightarrow> char) \<Rightarrow> bool \<Rightarrow> string \<Rightarrow> error + Host" where
  "host_alloc jk ok nm =
     bindE (safe_malloc jk ok sizeof_Host) (\<lambda>_.
       if ok then Inr (host_create nm) else Inl (Exit 3))"

text \<open>
  The loop of \<open>parse_hosts\<close> over the lines \<open>fgets\<close> returns. The buffer holds the line
  and a closing nul, and is read as a string, so a nul inside the line ends it. \<open>jk\<close>
  and \<open>ok\<close> are the contents of fresh allocations and whether \<open>malloc\<close> succeeds.
\<close>

fun parse_hosts_loop ::
  "(nat \<Rightarrow> char) \<Rightarrow> bool \<Rightarrow> char list list \<Rightarrow> Host list \<Rightarrow> error + Host list" where
  "parse_hosts_loop jk ok [] hs = Inr hs"
| "parse_hosts_loop jk ok (line # rest) hs =
     (let hostname = takeWhile (\<lambda>c. c \<noteq> NUL) line;
          prefix = (if hostname = [] then NUL else hd hostname)
      in if prefix = CHR ''#'' \<or> prefix = CHR '' '' \<or> prefix = NL \<or> prefix = NUL
         then parse_hosts_loop jk ok rest hs
         else (case lsplit_str hostname NL of
                 (False, _) \<Rightarrow> Inl (Exit 2)
               | (True, nm) \<Rightarrow>
                   bindE (host_alloc jk ok nm) (\<lambda>h. parse_hosts_loop jk ok rest (hs @ [h]))))"

text \<open>
  \<open>parse_hosts\<close> on a file from which \<open>inp\<close> can be read; \<open>ferr\<close> tells whether \<open>fgets\<close>
  then returns NULL because of a read error (\<open>ferror\<close>) and not at the end of the file.
\<close>

definition parse_hosts ::
  "(nat \<Rightarrow> char) \<Rightarrow> bool \<Rightarrow> bool \<Rightarrow> char list \<Rightarrow> error + Host list" where
  "parse_hosts jk ok ferr inp =
     bindE (parse_hosts_loop jk ok (fgets_all (HOST_NAME_MAX - 1) [] inp) []) (\<lambda>hs.
       if ferr then Inl (Exit 2) else Inr hs)"

section \<open>Children\<close>

record Config =
  opts_of :: opts
  colors_of :: colors
  env_of :: Env
  base_ssh_command :: "string list"
  remote_command :: "string list"
  stdout_isatty :: bool

definition child_process_create :: ChildProcess where
  "child_process_create =
     \<lparr>pid = -1, stdout_fd = -1, stderr_fd = -1, stdio_fd = -1, output_buf = None,
      output_idx = -1, exit_code = -1, started_time = -1, finished_time = -1\<rparr>"

text \<open>\<open>monotonic_time_ms\<close>, for the \<open>k\<close>-th reading of the clock.\<close>

definition monotonic_time_ms :: "Env \<Rightarrow> nat \<Rightarrow> error + int" where
  "monotonic_time_ms env k = (if clock_ok env k then Inr (clock env k) else Inl (Exit 3))"

text \<open>
  \<open>make_pipe\<close> for the pipe of type \<open>t\<close> of the host at roster position \<open>i\<close>:
  \<open>pipe_fd env i t\<close> is the read end that \<open>pipe\<close> returns, negative when \<open>pipe\<close> or one
  of the \<open>fcntl\<close> calls fails.
\<close>

definition make_pipe :: "Env \<Rightarrow> nat \<Rightarrow> PipeType \<Rightarrow> error + int" where
  "make_pipe env i t = (if pipe_fd env i t < 0 then Inl (Exit 3) else Inr (pipe_fd env i t))"

text \<open>
  \<open>spawn_child_process\<close> for the host at roster position \<open>i\<close>, seen from the parent:
  the argument vector is built and checked, the pipes are made, \<open>fork_pid env i\<close> is
  the result of \<open>fork\<close>, then the child record is allocated and filled. What the child
  executes is outside the model.
\<close>

definition spawn_child_process :: "Config \<Rightarrow> nat \<Rightarrow> World \<Rightarrow> error + World" where
  "spawn_child_process cfg i w =
     bindE (deref (hosts w) i) (\<lambda>h.
     bindE (assert (cp h = None)) (\<lambda>_.
     bindE (build_ssh_command (base_ssh_command cfg) (remote_command cfg) h
              (replicate (nat MAX_ARGS) None) MAX_ARGS) (\<lambda>_.
     bindE (case mode (opts_of cfg) of
              MODE_JOIN \<Rightarrow>
                bindE (make_pipe (env_of cfg) i PIPE_STDIO) (\<lambda>io.
                  Inr (child_process_create\<lparr>stdio_fd := io\<rparr>))
            | _ \<Rightarrow>
                bindE (make_pipe (env_of cfg) i PIPE_STDOUT) (\<lambda>out.
                bindE (make_pipe (env_of cfg) i PIPE_STDERR) (\<lambda>err.
                  Inr (child_process_create\<lparr>stdout_fd := out, stderr_fd := err\<rparr>)))) (\<lambda>c.
     bindE (if fork_pid (env_of cfg) i = -1 then Inl (Exit 3) else Inr ()) (\<lambda>_.
     bindE (safe_malloc (junk (env_of cfg)) (malloc_ok (env_of cfg)) sizeof_ChildProcess) (\<lambda>_.
     bindE (monotonic_time_ms (env_of cfg) (ticks w)) (\<lambda>t.
       Inr (w\<lparr>hosts := (hosts w)[i := h\<lparr>cp := Some
                       (c\<lparr>pid := fork_pid (env_of cfg) i, started_time := t\<rparr>)\<rparr>],
              ticks := Suc (ticks w)\<rparr>))))))))"

text \<open>
  \<open>register_child_process_fd\<close>: \<open>epoll_ctl(EPOLL_CTL_ADD)\<close> fails on a descriptor that
  is already in the interest list.
\<close>

definition register_child_process_fd ::
  "Config \<Rightarrow> nat \<Rightarrow> PipeType \<Rightarrow> World \<Rightarrow> error + World" where
  "register_child_process_fd cfg i t w =
     bindE (fdev_create (opts_of cfg) (env_of cfg) (hosts w) i t) (\<lambda>f.
       if fd f \<in> fst ` set (watcher w) then Inl (Exit 3)
       else Inr (w\<lparr>watcher := watcher w @ [(fd f, f)]\<rparr>))"

definition register_child_process_fds :: "Config \<Rightarrow> nat \<Rightarrow> World \<Rightarrow> error + World" where
  "register_child_process_fds cfg i w =
     (case mode (opts_of cfg) of
        MODE_JOIN \<Rightarrow> register_child_process_fd cfg i PIPE_STDIO w
      | _ \<Rightarrow>
          bindE (register_child_process_fd cfg i PIPE_STDOUT w) (\<lambda>w'.
            register_child_process_fd cfg i PIPE_STDERR w'))"

text \<open>\<open>wait_for_child\<close>; a call of \<open>waitpid\<close> that succeeds is recorded in \<open>waited\<close>.\<close>

definition wait_for_child :: "Config \<Rightarrow> nat \<Rightarrow> World \<Rightarrow> error + World" where
  "wait_for_child cfg i w =
     bindE (deref (hosts w) i) (\<lambda>h.
     bindE (host_cp (hosts w) i) (\<lambda>c.
     bindE (if waitpid_ok (env_of cfg) i then Inr () else Inl (Exit 3)) (\<lambda>_.
     bindE (monotonic_time_ms (env_of cfg) (ticks w)) (\<lambda>t.
       let c' = c\<lparr>exit_code := exit_status (env_of cfg) i, pid := -2,
                  finished_time := t\<rparr>;
           w1 = w\<lparr>hosts := (hosts w)[i := h\<lparr>cp := Some c'\<rparr>], ticks := Suc (ticks w),
                  waited := waited w @ [i]\<rparr>;
           col = colors_of cfg
       in if exit_codes (opts_of cfg) \<or> debug (opts_of cfg) then
            let delta = finished_time c' - started_time c';
                code_color = (if exit_code c' = 0 then green col else red col);
                o1 = (if \<not> newline_printed (outs w1)
                      then (printf [NL] (outs w1))\<lparr>newline_printed := True\<rparr>
                      else outs w1)
            in Inr (w1\<lparr>outs := printf
                      (''['' @ cyan col @ name h @ reset col @ ''] exited: ''
                       @ code_color @ show_int (exit_code c') @ reset col
                       @ '' ('' @ magenta col @ show_int delta @ reset col @ '' ms)'' @ [NL])
                      o1\<rparr>)
          else Inr w1))))"

definition PROG_NAME :: string where
  "PROG_NAME = ''sshp''"

definition print_progress_line :: "colors \<Rightarrow> int \<Rightarrow> int \<Rightarrow> Out \<Rightarrow> Out" where
  "print_progress_line col dn num_hosts ou =
     printf (''['' @ cyan col @ PROG_NAME @ reset col @ ''] finished ''
             @ magenta col @ show_int dn @ reset col @ ''/''
             @ magenta col @ show_int num_hosts @ reset col @ [CR]) ou"

section \<open>The main loop\<close>

text \<open>The local variables of \<open>main_loop\<close>, with the process state.\<close>

record Loop =
  world :: World
  cur_host :: nat
  outstanding :: int
  done_count :: int

text \<open>
  One pass of the admission loop \<open>while (cur_host != NULL && outstanding < opts.max_jobs)\<close>;
  \<open>cur_host\<close> is a roster position, NULL being the length of the roster.
\<close>

definition admit_host :: "Config \<Rightarrow> Loop \<Rightarrow> error + Loop" where
  "admit_host cfg s =
     bindE (spawn_child_process cfg (cur_host s) (world s)) (\<lambda>w1.
     bindE (deref (hosts w1) (cur_host s)) (\<lambda>h.
       let w2 = (if trim (opts_of cfg)
                 then w1\<lparr>hosts := (hosts w1)[cur_host s :=
                              h\<lparr>name := snd (lsplit_str (name h) (CHR ''.''))\<rparr>]\<rparr>
                 else w1)
       in bindE (register_child_process_fds cfg (cur_host s) w2) (\<lambda>w3.
            Inr (s\<lparr>world := w3, outstanding := outstanding s + 1,
                   cur_host := Suc (cur_host s)\<rparr>))))"

text \<open>
  The admission loop. It returns the state it ends in and the states after each
  admission, in order. \<open>k\<close> is the number of roster entries not yet visited.
\<close>

fun admit :: "Config \<Rightarrow> nat \<Rightarrow> Loop \<Rightarrow> error + Loop \<times> Loop list" where
  "admit cfg 0 s = Inr (s, [])"
| "admit cfg (Suc k) s =
     (if cur_host s < length (hosts (world s)) \<and> outstanding s < max_jobs (opts_of cfg) then
        bindE (admit_host cfg s) (\<lambda>s1.
        bindE (admit cfg k s1) (\<lambda>(s2, tr). Inr (s2, s1 # tr)))
      else Inr (s, []))"

text \<open>
  One event of \<open>epoll_wait\<close>: the ready descriptor and what the reads on it return.
  The body of the \<open>for\<close> loop over the events, for one event.
\<close>

type_synonym event = "int \<times> read_result list"

definition handle_event :: "Config \<Rightarrow> int \<Rightarrow> Loop \<Rightarrow> event \<Rightarrow> error + Loop" where
  "handle_event cfg num_hosts s ev =
     (case map_of (watcher (world s)) (fst ev) of
        None \<Rightarrow> Inl NotRegistered
      | Some fdev \<Rightarrow>
          bindE (read_active_fd (opts_of cfg) (colors_of cfg) fdev (world s) (snd ev))
            (\<lambda>(fd_closed, fdev', w1).
               if fd_closed then
                 bindE (host_cp (hosts w1) (host fdev)) (\<lambda>c.
                   if child_process_stdio_done c then
                     bindE (wait_for_child cfg (host fdev) w1) (\<lambda>w2.
                       let dn = done_count s + 1;
                           w3 = (if mode (opts_of cfg) = MODE_JOIN then
                                   let o1 = print_progress_line (colors_of cfg) dn num_hosts
                                              (outs w2)
                                   in w2\<lparr>outs := (if dn = num_hosts then printf [NL] o1
                                                  else o1)\<rparr>
                                 else w2)
                       in Inr (s\<lparr>world := w3, outstanding := outstanding s - 1,
                                 done_count := dn\<rparr>))
                   else Inr (s\<lparr>world := w1\<rparr>))
               else
                 Inr (s\<lparr>world := w1\<lparr>watcher :=
                        map (\<lambda>e. if fst e = fst ev then (fst e, fdev') else e)
                          (watcher w1)\<rparr>\<rparr>)))"

fun handle_events :: "Config \<Rightarrow> int \<Rightarrow> Loop \<Rightarrow> event list \<Rightarrow> error + Loop \<times> Loop list" where
  "handle_events cfg num_hosts s [] = Inr (s, [])"
| "handle_events cfg num_hosts s (ev # evs) =
     bindE (handle_event cfg num_hosts s ev) (\<lambda>s1.
     bindE (handle_events cfg num_hosts s1 evs) (\<lambda>(s2, tr). Inr (s2, s1 # tr)))"

text \<open>
  The \<open>while (cur_host != NULL || outstanding > 0)\<close> loop. Each element of the script
  is what one \<open>epoll_wait\<close> returns when it succeeds. The result tells whether the loop
  was left (\<open>True\<close>) or is blocked in \<open>epoll_wait\<close> at the end of the script, the state
  reached, and the states after every admission and every event, in order.
\<close>

definition epoll_wait :: "Config \<Rightarrow> Loop \<Rightarrow> error + Loop" where
  "epoll_wait cfg s =
     (if epoll_wait_ok (env_of cfg) (polls (world s))
      then Inr (s\<lparr>world := (world s)\<lparr>polls := Suc (polls (world s))\<rparr>\<rparr>)
      else Inl (Exit 3))"

fun main_loop_while ::
  "Config \<Rightarrow> int \<Rightarrow> Loop \<Rightarrow> event list list \<Rightarrow> error + bool \<times> Loop \<times> Loop list" where
  "main_loop_while cfg num_hosts s script =
     (if cur_host s < length (hosts (world s)) \<or> outstanding s > 0 then
        bindE (assert (outstanding s \<le> max_jobs (opts_of cfg))) (\<lambda>_.
        bindE (admit cfg (length (hosts (world s)) - cur_host s) s) (\<lambda>(s1, tr1).
          case script of
            [] \<Rightarrow> Inr (False, s1, tr1)
          | events # rest \<Rightarrow>
              bindE (epoll_wait cfg s1) (\<lambda>s1'.
              bindE (handle_events cfg num_hosts s1' events) (\<lambda>(s2, tr2).
              bindE (main_loop_while cfg num_hosts s2 rest) (\<lambda>(fin, s3, tr3).
                Inr (fin, s3, tr1 @ tr2 @ tr3))))))
      else Inr (True, s, []))"

definition main_loop ::
  "Config \<Rightarrow> int \<Rightarrow> World \<Rightarrow> event list list \<Rightarrow> error + bool \<times> Loop \<times> Loop list" where
  "main_loop cfg num_hosts w script =
     (let w0 = (if mode (opts_of cfg) = MODE_JOIN \<and> stdout_isatty cfg
                then w\<lparr>outs := print_progress_line (colors_of cfg) 0 num_hosts (outs w)\<rparr>
                else w);
          s0 = \<lparr>world = w0, cur_host = 0, outstanding = 0, done_count = 0\<rparr>
      in bindE (main_loop_while cfg num_hosts s0 script) (\<lambda>(fin, s, tr).
           Inr (fin, s, s0 # tr)))"

text \<open>The state of the process when \<open>main\<close> calls \<open>main_loop\<close> on the roster \<open>hs\<close>.\<close>

definition initial_world :: "Host list \<Rightarrow> World" where
  "initial_world hs =
     \<lparr>hosts = hs, watcher = [],
      outs = \<lparr>stdout = [], newline_printed = True, last_host = None\<rparr>,
      ticks = 1, waited = [], polls = 0\<rparr>"

section \<open>The join aggregator\<close>

text \<open>
  \<open>strcmp\<close> on two buffers: both are read as nul-terminated strings and compared
  byte by byte as unsigned values.
\<close>

fun strcmp_str :: "string \<Rightarrow> string \<Rightarrow> int" where
  "strcmp_str [] [] = 0"
| "strcmp_str [] (b # bs) = -1"
| "strcmp_str (a # as) [] = 1"
| "strcmp_str (a # as) (b # bs) =
     (if a = b then strcmp_str as bs
      else if (of_char a :: nat) < of_char b then -1 else 1)"

definition strcmp :: "char list option \<Rightarrow> char list option \<Rightarrow> error + int" where
  "strcmp x y =
     (case (x, y) of
        (Some a, Some b) \<Rightarrow>
          bindE (c_str a) (\<lambda>s1. bindE (c_str b) (\<lambda>s2. Inr (strcmp_str s1 s2)))
      | _ \<Rightarrow> Inl MemoryFault)"

definition set_output_idx :: "Host list \<Rightarrow> nat \<Rightarrow> int \<Rightarrow> Host list" where
  "set_output_idx hs i idx =
     hs[i := (hs ! i)\<lparr>cp := map_option (\<lambda>c. c\<lparr>output_idx := idx\<rparr>) (cp (hs ! i))\<rparr>]"

text \<open>
  The inner loop over \<open>h2\<close>, for \<open>h1\<close> at roster position \<open>i\<close>; \<open>js\<close> are the positions
  from \<open>h1->next\<close> to the end of the roster.
\<close>

fun join_inner ::
  "Host list \<Rightarrow> nat \<Rightarrow> int \<Rightarrow> int \<Rightarrow> nat list \<Rightarrow> error + Host list \<times> int" where
  "join_inner hs i idx num_same [] = Inr (hs, num_same)"
| "join_inner hs i idx num_same (j # js) =
     bindE (host_cp hs j) (\<lambda>c2.
       if output_idx c2 \<ge> 0 then join_inner hs i idx num_same js
       else
         bindE (host_cp hs i) (\<lambda>c1.
         bindE (strcmp (output_buf c1) (output_buf c2)) (\<lambda>r.
           if r = 0 then join_inner (set_output_idx hs j idx) i idx (num_same + 1) js
           else join_inner hs i idx num_same js)))"

text \<open>
  The outer loop over \<open>h1\<close>; \<open>count\<close> is the array of \<open>num_hosts\<close> ints, an entry being
  \<open>None\<close> until it is written.
\<close>

fun join_outer ::
  "Host list \<Rightarrow> int \<Rightarrow> int option list \<Rightarrow> nat list \<Rightarrow>
   error + Host list \<times> int \<times> int option list" where
  "join_outer hs idx count [] = Inr (hs, idx, count)"
| "join_outer hs idx count (i # is) =
     bindE (host_cp hs i) (\<lambda>c1.
       if output_idx c1 \<ge> 0 then join_outer hs idx count is
       else
         bindE (join_inner (set_output_idx hs i idx) i idx 1 is) (\<lambda>(hs', num_same).
           if 0 \<le> idx \<and> idx < int (length count)
           then join_outer hs' (idx + 1) (count[nat idx := Some num_same]) is
           else Inl MemoryFault))"

text \<open>The loop over the roster that prints the members of class \<open>i\<close>.\<close>

fun join_print_members ::
  "Host list \<Rightarrow> int \<Rightarrow> char list option \<times> Out \<Rightarrow> error + char list option \<times> Out" where
  "join_print_members [] i oo = Inr oo"
| "join_print_members (h # hs) i oo =
     (case cp h of
        None \<Rightarrow> Inl MemoryFault
      | Some c \<Rightarrow>
          if output_idx c \<noteq> i then join_print_members hs i oo
          else join_print_members hs i (output_buf c, printf ('' '' @ name h) (snd oo)))"

fun join_print_loop ::
  "colors \<Rightarrow> Host list \<Rightarrow> int \<Rightarrow> int option list \<Rightarrow> Out \<Rightarrow> int list \<Rightarrow> error + Out" where
  "join_print_loop col hs num_hosts count ou [] = Inr ou"
| "join_print_loop col hs num_hosts count ou (i # is) =
     (if 0 \<le> i \<and> i < int (length count) then
        (case count ! nat i of
           None \<Rightarrow> Inl MemoryFault
         | Some n \<Rightarrow>
             bindE (join_print_members hs i
                      (None, printf (''hosts ('' @ magenta col @ show_int n @ reset col @ ''/''
                                     @ magenta col @ show_int num_hosts @ reset col @ ''):''
                                     @ cyan col) ou)) (\<lambda>(output, o1).
             bindE (assert (output \<noteq> None)) (\<lambda>_.
             bindE (c_str (the output)) (\<lambda>str.
               join_print_loop col hs num_hosts count
                 (printf [NL]
                    (if \<not> ends_in_newline str
                     then printf [NL] (printf (reset col @ [NL] @ str) o1)
                     else printf (reset col @ [NL] @ str) o1)) is))))
      else Inl MemoryFault)"

definition join_mode_finish :: "Config \<Rightarrow> int \<Rightarrow> World \<Rightarrow> error + World" where
  "join_mode_finish cfg num_hosts w =
     bindE (safe_malloc (\<lambda>_. NUL) (malloc_ok (env_of cfg)) (4 * num_hosts)) (\<lambda>_.
     bindE (join_outer (hosts w) 0 (replicate (nat num_hosts) None) [0..<length (hosts w)])
       (\<lambda>(hs, idx, count).
          let col = colors_of cfg;
              o1 = printf (''finished with '' @ magenta col @ show_int idx @ reset col
                           @ '' unique result'' @ pluralize idx @ [NL, NL])
                     (printf [NL] (outs w))
          in bindE (join_print_loop col hs num_hosts count o1 (map int [0..<nat idx])) (\<lambda>o2.
               Inr (w\<lparr>hosts := hs, outs := o2\<rparr>))))"

section \<open>Specification of line-by-line mode\<close>

text \<open>
  The lines of a stream: \<open>scan_lines p s\<close> reads \<open>s\<close> with \<open>p\<close> the bytes of the
  line under way, and returns the lines ended by a newline (without it) and the bytes
  after the last newline. \<open>stream_lines\<close> adds that rest, when it is not empty, as the
  last line of a stream that has ended.
\<close>

fun scan_lines :: "char list \<Rightarrow> char list \<Rightarrow> char list list \<times> char list" where
  "scan_lines p [] = ([], p)"
| "scan_lines p (c # cs) =
     (if c = NL then (case scan_lines [] cs of (ls, q) \<Rightarrow> (p # ls, q))
      else scan_lines (p @ [c]) cs)"

definition stream_lines :: "char list \<Rightarrow> char list list" where
  "stream_lines s = (case scan_lines [] s of (ls, q) \<Rightarrow> ls @ (if q = [] then [] else [q]))"

text \<open>The same for a stream that goes on after the bytes \<open>p\<close> of a line under way.\<close>

definition lines_from :: "char list \<Rightarrow> char list \<Rightarrow> char list list" where
  "lines_from p s = (case scan_lines p s of (ls, q) \<Rightarrow> ls @ (if q = [] then [] else [q]))"

text \<open>
  What one call of \<open>print_line_buffer\<close> writes for the line \<open>l\<close> of a stream of type
  \<open>t\<close> of host \<open>h\<close>: the line is cut to \<open>max_line_length\<close> bytes, a newline follows,
  and \<open>printf\<close> stops at the first nul.
\<close>

definition printed_line :: "opts \<Rightarrow> colors \<Rightarrow> Host \<Rightarrow> PipeType \<Rightarrow> char list \<Rightarrow> string" where
  "printed_line opt col h t l =
     (if \<not> anonymous opt then print_host_header col h @ '' '' else [])
     @ (case t of PIPE_STDOUT \<Rightarrow> green col | PIPE_STDERR \<Rightarrow> red col | PIPE_STDIO \<Rightarrow> [])
     @ takeWhile (\<lambda>c. c \<noteq> NUL) (take (nat (max_line_length opt)) l @ [NL]) @ reset col"

text \<open>
  The line buffer of \<open>f\<close> holds the bytes \<open>p\<close> of a line under way: all of them while
  they fit, else the first \<open>max_line_length\<close> of them and the newline put after them.
\<close>

definition pending :: "opts \<Rightarrow> char list \<Rightarrow> FdEvent \<Rightarrow> bool" where
  "pending opt p f \<longleftrightarrow>
     NL \<notin> set p \<and>
     (\<exists>b. buffer f = Some b \<and> int (length b) = max_line_length opt + 2 \<and>
        (if int (length p) \<le> max_line_length opt
         then offset f = int (length p) \<and> take (length p) b = p
         else offset f = max_line_length opt + 1 \<and>
              take (nat (max_line_length opt) + 1) b = take (nat (max_line_length opt)) p @ [NL]))"

definition same_stream :: "FdEvent \<Rightarrow> FdEvent \<Rightarrow> bool" where
  "same_stream f f' \<longleftrightarrow> host f' = host f \<and> fd f' = fd f \<and> ptype f' = ptype f"

text \<open>
  The state of a line buffer between two bytes: capacity \<open>max_line_length + 2\<close>, fill
  offset at most \<open>max_line_length + 1\<close>, a newline in the last data slot when the
  offset is past it, and no newline among the bytes of the line under way.
\<close>

definition line_buffer_ok :: "opts \<Rightarrow> FdEvent \<Rightarrow> bool" where
  "line_buffer_ok opt f =
     (case buffer f of
        None \<Rightarrow> False
      | Some b \<Rightarrow>
          int (length b) = max_line_length opt + 2 \<and>
          0 \<le> offset f \<and> offset f \<le> max_line_length opt + 1 \<and>
          (offset f = max_line_length opt + 1 \<longrightarrow> b ! nat (max_line_length opt) = NL) \<and>
          NL \<notin> set (take (min (nat (offset f)) (nat (max_line_length opt))) b))"

text \<open>The bytes on standard output after a call of \<open>read_active_fd\<close>.\<close>

definition printed :: "error + bool \<times> FdEvent \<times> World \<Rightarrow> error + string" where
  "printed r = map_sum id (stdout \<circ> outs \<circ> snd \<circ> snd) r"

section \<open>Specification of join mode\<close>

text \<open>
  The capture buffer of \<open>f\<close> holds the bytes \<open>x\<close>: they fill its start, and the
  offset is their number, or one more once a nul was put after \<open>max_output_length\<close>
  of them.
\<close>

definition captured :: "opts \<Rightarrow> char list \<Rightarrow> FdEvent \<Rightarrow> bool" where
  "captured opt x f \<longleftrightarrow>
     int (length x) \<le> max_output_length opt \<and>
     (\<exists>b. buffer f = Some b \<and> int (length b) = max_output_length opt + 1 \<and>
        take (length x) b = x \<and>
        (offset f = int (length x) \<or>
         (offset f = max_output_length opt + 1 \<and> int (length x) = max_output_length opt \<and>
          b ! length x = NUL \<and> max_line_length opt = max_output_length opt)))"

section \<open>Example inputs\<close>

definition no_colors :: colors where
  "no_colors = \<lparr>red = [], green = [], magenta = [], cyan = [], reset = []\<rparr>"

definition demo_env :: Env where
  "demo_env =
     \<lparr>junk = (\<lambda>_. CHR ''?''), malloc_ok = True, clock = int, clock_ok = (\<lambda>_. True),
      pipe_fd = (\<lambda>i t. 3 + 2 * int i + (if t = PIPE_STDERR then 1 else 0)),
      fork_pid = (\<lambda>i. 100 + int i), exit_status = (\<lambda>_. 0), waitpid_ok = (\<lambda>_. True),
      epoll_wait_ok = (\<lambda>_. True)\<rparr>"

definition line_opts :: opts where
  "line_opts =
     \<lparr>anonymous = False, debug = False, exit_codes = False, silent = False, trim = False,
      max_jobs = 2, max_line_length = 4, max_output_length = 8,
      mode = MODE_LINE_BY_LINE\<rparr>"

text \<open>One host \<open>h\<close> whose child runs with the pipes 3 and 4.\<close>

definition demo_world :: World where
  "demo_world =
     (initial_world [host_create ''h''])
       \<lparr>hosts := [\<lparr>name = ''h'',
                  cp = Some (child_process_create
                               \<lparr>pid := 100, stdout_fd := 3, stderr_fd := 4\<rparr>)\<rparr>]\<rparr>"

definition line_fdev :: FdEvent where
  "line_fdev =
     \<lparr>host = 0, fd = 3, buffer = Some ''??????'', offset = 0, ptype = PIPE_STDOUT\<rparr>"

definition join_opts :: opts where
  "join_opts =
     \<lparr>anonymous = False, debug = False, exit_codes = False, silent = False, trim = False,
      max_jobs = 2, max_line_length = 4, max_output_length = 4, mode = MODE_JOIN\<rparr>"

definition join_world :: World where
  "join_world =
     (initial_world [host_create ''h''])
       \<lparr>hosts := [\<lparr>name = ''h'',
                  cp = Some (child_process_create\<lparr>pid := 100, stdio_fd := 3\<rparr>)\<rparr>]\<rparr>"

definition join_fdev :: FdEvent where
  "join_fdev =
     \<lparr>host = 0, fd = 3, buffer = Some ''?????'', offset = 0, ptype = PIPE_STDIO\<rparr>"

definition join_cfg :: Config where
  "join_cfg =
     \<lparr>opts_of = join_opts, colors_of = no_colors, env_of = demo_env,
      base_ssh_command = [''echo'', ''ssh''], remote_command = [''uname''],
      stdout_isatty = False\<rparr>"

text \<open>The bytes on standard output after a call of \<open>main_loop\<close>.\<close>

definition loop_printed :: "error + bool \<times> Loop \<times> Loop list \<Rightarrow> error + string" where
  "loop_printed r = map_sum id (stdout \<circ> outs \<circ> world \<circ> fst \<circ> snd) r"

section \<open>Specification of group mode\<close>

text \<open>
  A sequence of chunks handed to \<open>process_data_group\<close>, each with the stream context
  it was read on.
\<close>

fun group_dispatch ::
  "opts \<Rightarrow> colors \<Rightarrow> Host list \<Rightarrow> Out \<Rightarrow> (FdEvent \<times> char list) list \<Rightarrow> error + Out" where
  "group_dispatch opt col hs ou [] = Inr ou"
| "group_dispatch opt col hs ou (c # cs) =
     bindE (process_data_group opt col hs (fst c, ou) (snd c)) (\<lambda>(f', ou').
       group_dispatch opt col hs ou' cs)"

text \<open>
  The contiguous runs of a sequence of chunks: maximal blocks of consecutive chunks of
  the same host, each with the roster position of its host.
\<close>

fun runs :: "(FdEvent \<times> char list) list \<Rightarrow> (nat \<times> (FdEvent \<times> char list) list) list" where
  "runs [] = []"
| "runs (c # cs) =
     (case runs cs of
        [] \<Rightarrow> [(host (fst c), [c])]
      | (h, run) # rs \<Rightarrow>
          if h = host (fst c) then (h, c # run) # rs
          else (host (fst c), [c]) # (h, run) # rs)"

definition render_chunk :: "colors \<Rightarrow> FdEvent \<times> char list \<Rightarrow> string" where
  "render_chunk col c = fdev_get_color col (fst c) @ snd c @ reset col"

text \<open>
  What the specification asks for a sequence of runs, \<open>np\<close> telling whether the last
  byte emitted before was a newline: per run, a newline if that byte was none, the
  host header on its own line unless anonymous, then the chunks of the run.
\<close>

fun render_runs ::
  "opts \<Rightarrow> colors \<Rightarrow> Host list \<Rightarrow> bool \<Rightarrow> (nat \<times> (FdEvent \<times> char list) list) list \<Rightarrow> string" where
  "render_runs opt col hs np [] = []"
| "render_runs opt col hs np ((h, run) # rs) =
     (if \<not> np then [NL] else [])
     @ (if \<not> anonymous opt then print_host_header col (hs ! h) @ [NL] else [])
     @ concat (map (render_chunk col) run)
     @ render_runs opt col hs (last (snd (last run)) = NL) rs"

text \<open>The same when the host \<open>lh\<close> of the first run may be the one that emitted last.\<close>

fun render_cont ::
  "opts \<Rightarrow> colors \<Rightarrow> Host list \<Rightarrow> nat option \<Rightarrow> bool \<Rightarrow>
   (nat \<times> (FdEvent \<times> char list) list) list \<Rightarrow> string" where
  "render_cont opt col hs lh np [] = []"
| "render_cont opt col hs lh np ((h, run) # rs) =
     (if lh = Some h then []
      else (if \<not> np then [NL] else [])
           @ (if \<not> anonymous opt then print_host_header col (hs ! h) @ [NL] else []))
     @ concat (map (render_chunk col) run)
     @ render_runs opt col hs (last (snd (last run)) = NL) rs"

definition group_opts :: opts where
  "group_opts = line_opts\<lparr>mode := MODE_GROUP\<rparr>"

definition two_hosts :: "Host list" where
  "two_hosts = [host_create ''a'', host_create ''b'']"

definition group_fdev :: "nat \<Rightarrow> PipeType \<Rightarrow> FdEvent" where
  "group_fdev i t = \<lparr>host = i, fd = 3 + int i, buffer = None, offset = 0, ptype = t\<rparr>"

section \<open>Specification of the join aggregator\<close>

text \<open>
  The class of the \<open>j\<close>-th element of a list of outputs, in first-seen order: the
  number of distinct outputs before the first element equal to it.
\<close>

definition first_occ :: "'a list \<Rightarrow> 'a \<Rightarrow> nat" where
  "first_occ os x = length (takeWhile (\<lambda>y. y \<noteq> x) os)"

definition class_of :: "'a list \<Rightarrow> nat \<Rightarrow> nat" where
  "class_of os j = length (remdups (take (first_occ os (os ! j)) os))"

text \<open>
  The captured output of a host as the aggregator reads it (the bytes of the buffer
  before its first nul), its class index, whether its buffer is there and holds a
  nul, and the host with its class index reset.
\<close>

definition host_output :: "Host \<Rightarrow> string" where
  "host_output h =
     (case cp h of
        None \<Rightarrow> []
      | Some c \<Rightarrow> (case output_buf c of None \<Rightarrow> [] | Some b \<Rightarrow> takeWhile (\<lambda>x. x \<noteq> NUL) b))"

definition host_idx :: "Host \<Rightarrow> int" where
  "host_idx h = (case cp h of None \<Rightarrow> -1 | Some c \<Rightarrow> output_idx c)"

definition join_ready :: "Host \<Rightarrow> bool" where
  "join_ready h =
     (case cp h of
        None \<Rightarrow> False
      | Some c \<Rightarrow> (case output_buf c of None \<Rightarrow> False | Some b \<Rightarrow> NUL \<in> set b))"

definition forget_idx :: "Host \<Rightarrow> Host" where
  "forget_idx h = h\<lparr>cp := map_option (\<lambda>c. c\<lparr>output_idx := -1\<rparr>) (cp h)\<rparr>"

text \<open>The members of class \<open>k\<close>, in roster order, and the block printed for the class.\<close>

definition class_members :: "Host list \<Rightarrow> int \<Rightarrow> Host list" where
  "class_members hs k = filter (\<lambda>h. host_idx h = k) hs"

definition class_block :: "colors \<Rightarrow> Host list \<Rightarrow> int \<Rightarrow> int \<Rightarrow> string" where
  "class_block col hs num_hosts k =
     ''hosts ('' @ magenta col @ show_int (int (length (class_members hs k))) @ reset col
     @ ''/'' @ magenta col @ show_int num_hosts @ reset col @ ''):'' @ cyan col
     @ concat (map (\<lambda>h. '' '' @ name h) (class_members hs k))
     @ reset col @ [NL] @ host_output (last (class_members hs k))
     @ (if ends_in_newline (host_output (last (class_members hs k))) then [] else [NL])
     @ [NL]"

text \<open>
  What \<open>main\<close> does once the options are parsed and the roster \<open>hs\<close> is read: the
  main loop, then the aggregator in join mode.
\<close>

definition main_run :: "Config \<Rightarrow> Host list \<Rightarrow> event list list \<Rightarrow> error + World" where
  "main_run cfg hs script =
     (if int (length hs) < 1 then Inl (Exit 2)
      else bindE (main_loop cfg (int (length hs)) (initial_world hs) script) (\<lambda>(fin, s, tr).
             if fin \<and> mode (opts_of cfg) = MODE_JOIN
             then join_mode_finish cfg (int (length hs)) (world s)
             else Inr (world s)))"

text \<open>Three hosts after a join-mode run: \<open>a\<close> and \<open>c\<close> wrote the same bytes.\<close>

definition captured_host :: "string \<Rightarrow> char list \<Rightarrow> Host" where
  "captured_host nm b =
     \<lparr>name = nm,
      cp = Some (child_process_create\<lparr>pid := -2, stdio_fd := -2, output_buf := Some b\<rparr>)\<rparr>"

definition captured_world :: World where
  "captured_world =
     (initial_world [])
       \<lparr>hosts := [captured_host ''a'' (''hi'' @ [NL, NUL, CHR ''?'']),
                  captured_host ''b'' (''bye'' @ [NUL, CHR ''?'']),
                  captured_host ''c'' (''hi'' @ [NL, NUL, CHR ''?''])]\<rparr>"

section \<open>Specification of the scheduler\<close>

text \<open>
  A host whose child was admitted and not yet reaped, the number of such hosts, and a
  host whose child was reaped (\<open>wait_for_child\<close> sets \<open>pid\<close> to \<open>-2\<close>).
\<close>

definition alive :: "Host \<Rightarrow> bool" where
  "alive h = (case cp h of None \<Rightarrow> False | Some c \<Rightarrow> pid c \<noteq> -2)"

definition running :: "Host list \<Rightarrow> nat" where
  "running hs = length (filter alive hs)"

definition reaped :: "Host \<Rightarrow> bool" where
  "reaped h = (case cp h of None \<Rightarrow> False | Some c \<Rightarrow> pid c = -2)"

text \<open>
  The pipes a child has in mode \<open>m\<close> (one merged pipe in join mode, else one for
  each of standard output and standard error), each open or marked closed, the other
  descriptors never started; and all of its pipes marked closed.
\<close>

definition pipe_of_mode :: "ProgMode \<Rightarrow> PipeType \<Rightarrow> bool" where
  "pipe_of_mode m t = (if m = MODE_JOIN then t = PIPE_STDIO else t \<noteq> PIPE_STDIO)"

definition pipes_ok :: "ProgMode \<Rightarrow> ChildProcess \<Rightarrow> bool" where
  "pipes_ok m c =
     (if m = MODE_JOIN
      then stdout_fd c = -1 \<and> stderr_fd c = -1 \<and> (0 \<le> stdio_fd c \<or> stdio_fd c = -2)
      else stdio_fd c = -1 \<and> (0 \<le> stdout_fd c \<or> stdout_fd c = -2)
           \<and> (0 \<le> stderr_fd c \<or> stderr_fd c = -2))"

definition all_pipes_closed :: "ProgMode \<Rightarrow> ChildProcess \<Rightarrow> bool" where
  "all_pipes_closed m c =
     (if m = MODE_JOIN then stdio_fd c = -2 else stdout_fd c = -2 \<and> stderr_fd c = -2)"

text \<open>
  What holds of a host at a roster position before the cursor (\<open>adm\<close>) or from the
  cursor on, and of an entry of the watcher.
\<close>

definition host_ok :: "ProgMode \<Rightarrow> bool \<Rightarrow> Host \<Rightarrow> bool" where
  "host_ok m adm h =
     (if adm then
        (case cp h of
           None \<Rightarrow> False
         | Some c \<Rightarrow> pipes_ok m c \<and> ((pid c = -2) = all_pipes_closed m c))
      else cp h = None)"

definition entry_ok :: "ProgMode \<Rightarrow> nat \<Rightarrow> Host list \<Rightarrow> int \<times> FdEvent \<Rightarrow> bool" where
  "entry_ok m cur hs e =
     (0 \<le> fst e \<and> fd (snd e) = fst e \<and> host (snd e) < cur \<and> pipe_of_mode m (ptype (snd e)) \<and>
      (case cp (hs ! host (snd e)) of
         None \<Rightarrow> False
       | Some c \<Rightarrow> get_fd (ptype (snd e)) c = fst e))"

text \<open>The invariant of the main loop.\<close>

definition loop_inv :: "Config \<Rightarrow> Loop \<Rightarrow> bool" where
  "loop_inv cfg s =
     (cur_host s \<le> length (hosts (world s)) \<and>
      (\<forall>i<length (hosts (world s)).
         host_ok (mode (opts_of cfg)) (i < cur_host s) (hosts (world s) ! i)) \<and>
      (\<forall>e\<in>set (watcher (world s)).
         entry_ok (mode (opts_of cfg)) (cur_host s) (hosts (world s)) e) \<and>
      distinct (map fst (watcher (world s))) \<and>
      distinct (waited (world s)) \<and>
      set (waited (world s)) = {i. i < length (hosts (world s)) \<and> reaped (hosts (world s) ! i)} \<and>
      outstanding s = int (running (hosts (world s))) \<and>
      outstanding s \<le> max_jobs (opts_of cfg))"

text \<open>
  Two runs: three hosts in join mode under a cap of two, and two hosts in line-by-line
  mode whose streams end in different orders (the first host's standard error before
  its standard output, the second host's the other way round).
\<close>

definition three_hosts :: "Host list" where
  "three_hosts = [host_create ''a'', host_create ''b'', host_create ''c'']"

definition three_script :: "event list list" where
  "three_script =
     [[(3, [Data ''hello'', Data []])],
      [(5, [Data ''hello'']), (7, [Data ''xx'', Data ''hello1234567'', Data []])],
      [(5, [Data []])]]"



section \<open>Specification of the exit codes\<close>

text \<open>A result that, when it is an exit, has one of the exit codes \<open>C\<close>.\<close>

definition exits_with :: "int set \<Rightarrow> error + 'a \<Rightarrow> bool" where
  "exits_with C r = (\<forall>k. r = Inl (Exit k) \<longrightarrow> k \<in> C)"

section \<open>Properties\<close>

subsection \<open>Basic facts\<close>

lemma bindE_simps [simp]:
  "bindE (Inl e) k = Inl e"
  "bindE (Inr x) k = k x"
  by (simp_all add: bindE_def)

lemma assert_simps [simp]:
  "assert True = Inr ()"
  "assert False = Inl AssertFailed"
  by (simp_all add: assert_def)

lemma same_stream_refl [simp]: "same_stream f f"
  by (simp add: same_stream_def)

lemma same_stream_trans: "same_stream f g \<Longrightarrow> same_stream g h \<Longrightarrow> same_stream f h"
  by (simp add: same_stream_def)

lemma takeWhile_stop: "\<not> P y \<Longrightarrow> takeWhile P (xs @ y # ys) = takeWhile P xs"
  by (induction xs) auto

lemma c_str_prefix:
  assumes "n < length b" "b ! n = NUL"
  shows "c_str b = Inr (takeWhile (\<lambda>c. c \<noteq> NUL) (take n b))"
proof -
  have b: "b = take n b @ NUL # drop (Suc n) b"
    using assms by (metis id_take_nth_drop)
  have "NUL \<in> set b" using assms by (metis nth_mem)
  moreover have "takeWhile (\<lambda>c. c \<noteq> NUL) (take n b @ NUL # drop (Suc n) b)
                 = takeWhile (\<lambda>c. c \<noteq> NUL) (take n b)"
    by (rule takeWhile_stop) simp
  ultimately show ?thesis using b by (simp add: c_str_def)
qed

lemma nat_int_Suc [simp]: "nat (int k + 1) = Suc k"
  by simp

lemma poke_Some:
  "buffer f = Some b \<Longrightarrow> n < length b \<Longrightarrow>
   poke f (int n) c = Inr (f\<lparr>buffer := Some (b[n := c])\<rparr>)"
  by (simp add: poke_def)

lemma print_line_buffer_at:
  assumes "buffer f = Some b" "n < length b" "b ! n = NUL" "host f < length hs"
    "take n b = take (nat (max_line_length opt)) p @ [NL]"
  shows "print_line_buffer opt col hs f out =
           Inr (printf (printed_line opt col (hs ! host f) (ptype f) p) out)"
  using assms c_str_prefix [OF assms(2,3)]
  by (simp add: print_line_buffer_def deref_def printed_line_def fdev_get_color_def)

lemma line_by_line_step_pending:
  assumes pe: "pending opt p f" and L: "max_line_length opt = int n" "0 < n"
    and h: "host f < length hs"
  shows "\<exists>f'. same_stream f f' \<and>
           (if c = NL then
              line_by_line_step opt col hs (f, out) c =
                Inr (f', printf (printed_line opt col (hs ! host f) (ptype f) p) out) \<and>
              pending opt [] f'
            else
              line_by_line_step opt col hs (f, out) c = Inr (f', out) \<and>
              pending opt (p @ [c]) f')"
proof -
  from pe obtain b where b0: "buffer f = Some b" "int (length b) = max_line_length opt + 2"
    and sh0: "if int (length p) \<le> max_line_length opt
         then offset f = int (length p) \<and> take (length p) b = p
         else offset f = max_line_length opt + 1 \<and>
              take (nat (max_line_length opt) + 1) b = take (nat (max_line_length opt)) p @ [NL]"
    and nl: "NL \<notin> set p"
    unfolding pending_def by blast
  have b: "buffer f = Some b" "length b = n + 2" using b0 L by simp_all
  have sh: "if length p \<le> n then offset f = int (length p) \<and> take (length p) b = p
             else offset f = int n + 1 \<and> take (Suc n) b = take n p @ [NL]"
    using sh0 L by (simp split: if_splits)
  consider (lt) "length p < n" | (eq) "length p = n" | (gt) "n < length p" by linarith
  then show ?thesis
  proof cases
    case lt
    then have off: "offset f = int (length p)" and tk: "take (length p) b = p"
      using sh by auto
    let ?b1 = "b[length p := c]"
    let ?f1 = "f\<lparr>buffer := Some ?b1, offset := int (length p) + 1\<rparr>"
    have tk1: "take (Suc (length p)) ?b1 = p @ [c]"
      using lt b tk by (simp add: take_Suc_conv_app_nth)
    show ?thesis
    proof (cases "c = NL")
      case False
      have "line_by_line_step opt col hs (f, out) c = Inr (?f1, out)"
        using False lt off L b by (simp add: line_by_line_step_def poke_Some)
      moreover have "pending opt (p @ [c]) ?f1"
        using False nl lt L b tk1 by (simp add: pending_def)
      moreover have "same_stream f ?f1" by (simp add: same_stream_def)
      ultimately show ?thesis using False by auto
    next
      case True
      let ?b2 = "?b1[Suc (length p) := NUL]"
      let ?f2 = "f\<lparr>buffer := Some ?b2, offset := int (length p) + 1\<rparr>"
      have "line_by_line_step opt col hs (f, out) c =
              Inr (?f2\<lparr>offset := 0\<rparr>, printf (printed_line opt col (hs ! host f) (ptype f) p) out)"
        using True lt off L b h tk1
        by (simp add: line_by_line_step_def poke_Some poke_def
            print_line_buffer_at [where b = "?b2" and n = "Suc (length p)" and p = p])
      moreover have "pending opt [] (?f2\<lparr>offset := 0\<rparr>)"
        using L b by (simp add: pending_def)
      moreover have "same_stream f (?f2\<lparr>offset := 0\<rparr>)" by (simp add: same_stream_def)
      ultimately show ?thesis using True by auto
    qed
  next
    case eq
    then have off: "offset f = int n" and tk: "take n b = p"
      using sh by auto
    let ?b1 = "b[n := NL]"
    let ?f1 = "f\<lparr>buffer := Some ?b1, offset := int n + 1\<rparr>"
    have tk1: "take (Suc n) ?b1 = p @ [NL]"
      using eq b tk by (simp add: take_Suc_conv_app_nth)
    show ?thesis
    proof (cases "c = NL")
      case False
      have "line_by_line_step opt col hs (f, out) c = Inr (?f1, out)"
        using False eq off L b by (simp add: line_by_line_step_def poke_Some)
      moreover have "pending opt (p @ [c]) ?f1"
        using False nl eq L b tk1 by (simp add: pending_def)
      moreover have "same_stream f ?f1" by (simp add: same_stream_def)
      ultimately show ?thesis using False by auto
    next
      case True
      let ?b2 = "?b1[Suc n := NUL]"
      let ?f2 = "f\<lparr>buffer := Some ?b2, offset := int n + 1\<rparr>"
      have "line_by_line_step opt col hs (f, out) c =
              Inr (?f2\<lparr>offset := 0\<rparr>, printf (printed_line opt col (hs ! host f) (ptype f) p) out)"
        using True eq off L b h tk1
        by (simp add: line_by_line_step_def poke_Some poke_def
            print_line_buffer_at [where b = "?b2" and n = "Suc n" and p = p])
      moreover have "pending opt [] (?f2\<lparr>offset := 0\<rparr>)"
        using L b by (simp add: pending_def)
      moreover have "same_stream f (?f2\<lparr>offset := 0\<rparr>)" by (simp add: same_stream_def)
      ultimately show ?thesis using True by auto
    qed
  next
    case gt
    then have off: "offset f = int n + 1" and tk: "take (Suc n) b = take n p @ [NL]"
      using sh by auto
    show ?thesis
    proof (cases "c = NL")
      case False
      have "line_by_line_step opt col hs (f, out) c = Inr (f, out)"
        using False off L by (simp add: line_by_line_step_def)
      moreover have "pending opt (p @ [c]) f"
        using False nl gt L b tk off by (simp add: pending_def)
      ultimately show ?thesis using False by auto
    next
      case True
      let ?b2 = "b[Suc n := NUL]"
      let ?f2 = "f\<lparr>buffer := Some ?b2\<rparr>"
      have "line_by_line_step opt col hs (f, out) c =
              Inr (?f2\<lparr>offset := 0\<rparr>, printf (printed_line opt col (hs ! host f) (ptype f) p) out)"
        using True gt off L b h tk
        by (simp add: line_by_line_step_def poke_def
            print_line_buffer_at [where b = "?b2" and n = "Suc n" and p = p])
      moreover have "pending opt [] (?f2\<lparr>offset := 0\<rparr>)"
        using L b by (simp add: pending_def)
      moreover have "same_stream f (?f2\<lparr>offset := 0\<rparr>)" by (simp add: same_stream_def)
      ultimately show ?thesis using True by auto
    qed
  qed
qed


lemma printf_printf [simp]: "printf a (printf b out) = printf (b @ a) out"
  by (simp add: printf_def)

lemma printf_Nil [simp]: "printf [] out = out"
  by (simp add: printf_def)

lemma pending_offset:
  "pending opt p f \<Longrightarrow> 0 \<le> max_line_length opt \<Longrightarrow>
   0 \<le> offset f \<and> offset f \<le> max_line_length opt + 1 \<and>
   (\<exists>b. buffer f = Some b \<and> int (length b) = max_line_length opt + 2)"
  by (auto simp: pending_def split: if_splits)

lemma line_by_line_loop_pending:
  assumes "pending opt p f" "max_line_length opt = int n" "0 < n" "host f < length hs"
  shows "\<exists>f'. same_stream f f' \<and> pending opt (snd (scan_lines p cs)) f' \<and>
           line_by_line_loop opt col hs (f, out) cs =
             Inr (f', printf (concat (map (printed_line opt col (hs ! host f) (ptype f))
                                        (fst (scan_lines p cs)))) out)"
  using assms
proof (induction cs arbitrary: p f out)
  case Nil
  then show ?case by auto
next
  case (Cons c cs)
  from line_by_line_step_pending [OF Cons.prems, of c col out]
  obtain f1 where s1: "same_stream f f1"
    and st: "if c = NL then
              line_by_line_step opt col hs (f, out) c =
                Inr (f1, printf (printed_line opt col (hs ! host f) (ptype f) p) out) \<and>
              pending opt [] f1
            else
              line_by_line_step opt col hs (f, out) c = Inr (f1, out) \<and>
              pending opt (p @ [c]) f1"
    by blast
  have h1: "host f1 < length hs" "host f1 = host f" "ptype f1 = ptype f"
    using s1 Cons.prems by (simp_all add: same_stream_def)
  show ?case
  proof (cases "c = NL")
    case True
    with st have pe: "pending opt [] f1" by simp
    from Cons.IH [OF pe Cons.prems(2,3) h1(1),
        of "printf (printed_line opt col (hs ! host f) (ptype f) p) out"]
    obtain f' where "same_stream f1 f'" "pending opt (snd (scan_lines [] cs)) f'"
      "line_by_line_loop opt col hs
         (f1, printf (printed_line opt col (hs ! host f) (ptype f) p) out) cs =
       Inr (f', printf (concat (map (printed_line opt col (hs ! host f1) (ptype f1))
                                  (fst (scan_lines [] cs))))
                  (printf (printed_line opt col (hs ! host f) (ptype f) p) out))"
      by blast
    then show ?thesis using True st s1 h1
      by (auto simp: split_beta intro: same_stream_trans)
  next
    case False
    with st have pe: "pending opt (p @ [c]) f1" by simp
    from Cons.IH [OF pe Cons.prems(2,3) h1(1), of out]
    obtain f' where "same_stream f1 f'" "pending opt (snd (scan_lines (p @ [c]) cs)) f'"
      "line_by_line_loop opt col hs (f1, out) cs =
       Inr (f', printf (concat (map (printed_line opt col (hs ! host f1) (ptype f1))
                                  (fst (scan_lines (p @ [c]) cs)))) out)"
      by blast
    then show ?thesis using False st s1 h1
      by (auto intro: same_stream_trans)
  qed
qed

lemma read_eof_mode_pending:
  assumes pe: "pending opt p f" and L: "max_line_length opt = int n" "0 < n"
    and h: "host f < length hs" and m: "mode opt = MODE_LINE_BY_LINE"
  shows "\<exists>f'. same_stream f f' \<and> pending opt [] f' \<and>
           read_eof_mode opt col hs (f, c, out) =
             Inr (f', c, if p = [] then out
                         else printf (printed_line opt col (hs ! host f) (ptype f) p) out)"
proof -
  from pe obtain b where b0: "buffer f = Some b" "int (length b) = max_line_length opt + 2"
    and sh0: "if int (length p) \<le> max_line_length opt
         then offset f = int (length p) \<and> take (length p) b = p
         else offset f = max_line_length opt + 1 \<and>
              take (nat (max_line_length opt) + 1) b = take (nat (max_line_length opt)) p @ [NL]"
    and nl: "NL \<notin> set p"
    unfolding pending_def by blast
  have b: "buffer f = Some b" "length b = n + 2" using b0 L by simp_all
  have sh: "if length p \<le> n then offset f = int (length p) \<and> take (length p) b = p
             else offset f = int n + 1 \<and> take (Suc n) b = take n p @ [NL]"
    using sh0 L by (simp split: if_splits)
  consider (empty) "p = []" | (le) "p \<noteq> []" "length p \<le> n" | (gt) "n < length p" by fastforce
  then show ?thesis
  proof cases
    case empty
    then have "offset f = 0" using sh by simp
    then show ?thesis using empty pe m by (auto simp: read_eof_mode_def)
  next
    case le
    then have off: "offset f = int (length p)" and tk: "take (length p) b = p"
      using sh by auto
    have lp: "0 < length p" using le by simp
    have "b ! (length p - 1) = take (length p) b ! (length p - 1)" using lp by simp
    also have "\<dots> = last p" using tk lp by (simp add: last_conv_nth)
    finally have lastb: "b ! (length p - 1) \<noteq> NL" using nl le(1) last_in_set by metis
    have pk: "peek f (int (length p) - 1) = Inr (b ! (length p - 1))"
      using b lp le by (simp add: peek_def nat_diff_distrib')
    let ?b2 = "b[length p := NL, Suc (length p) := NUL]"
    let ?f2 = "f\<lparr>buffer := Some ?b2, offset := 0\<rparr>"
    have tk1: "take (Suc (length p)) ?b2 = take n p @ [NL]"
      using le b tk by (simp add: take_Suc_conv_app_nth)
    have "read_eof_mode opt col hs (f, c, out) =
            Inr (?f2, c, printf (printed_line opt col (hs ! host f) (ptype f) p) out)"
      using m off pk lastb le L b h tk1 lp
      by (simp add: read_eof_mode_def poke_def
          print_line_buffer_at [where b = "?b2" and n = "Suc (length p)" and p = p])
    moreover have "pending opt [] ?f2" using L b by (simp add: pending_def)
    moreover have "same_stream f ?f2" by (simp add: same_stream_def)
    ultimately show ?thesis using le by auto
  next
    case gt
    then have off: "offset f = int n + 1" and tk: "take (Suc n) b = take n p @ [NL]"
      using sh by auto
    have "b ! n = take (Suc n) b ! n" by simp
    also have "\<dots> = NL" using tk gt by (simp add: nth_append)
    finally have bn: "b ! n = NL" .
    have pk: "peek f (int n) = Inr NL"
      using b bn by (simp add: peek_def)
    let ?b2 = "b[Suc n := NUL]"
    let ?f2 = "f\<lparr>buffer := Some ?b2, offset := 0\<rparr>"
    have "read_eof_mode opt col hs (f, c, out) =
            Inr (?f2, c, printf (printed_line opt col (hs ! host f) (ptype f) p) out)"
      using m off pk gt L b h tk
      by (simp add: read_eof_mode_def poke_def
          print_line_buffer_at [where b = "?b2" and n = "Suc n" and p = p])
    moreover have "pending opt [] ?f2" using L b by (simp add: pending_def)
    moreover have "same_stream f ?f2" by (simp add: same_stream_def)
    moreover have "p \<noteq> []" using gt by auto
    ultimately show ?thesis by auto
  qed
qed


lemma scan_lines_append:
  "scan_lines p (xs @ ys) =
     (case scan_lines p xs of (l1, q) \<Rightarrow> case scan_lines q ys of (l2, r) \<Rightarrow> (l1 @ l2, r))"
  by (induction xs arbitrary: p) (auto split: prod.splits)

lemma printed_line_cp [simp]:
  "printed_line opt col (h\<lparr>cp := x\<rparr>) t l = printed_line opt col h t l"
  by (simp add: printed_line_def print_host_header_def)

lemma handle_bytes_line:
  assumes "pending opt p f" "max_line_length opt = int n" "0 < n" "host f < length hs"
    "mode opt = MODE_LINE_BY_LINE" "buf \<noteq> []"
  shows "\<exists>f'. same_stream f f' \<and> pending opt (snd (scan_lines p buf)) f' \<and>
           handle_bytes opt col hs (f, out) buf =
             Inr (f', printf (concat (map (printed_line opt col (hs ! host f) (ptype f))
                                        (fst (scan_lines p buf)))) out)"
proof -
  from assms(1) have "buffer f \<noteq> None" by (auto simp: pending_def)
  then have "handle_bytes opt col hs (f, out) buf = line_by_line_loop opt col hs (f, out) buf"
    using assms(5,6) by (simp add: handle_bytes_def process_data_line_by_line_def)
  then show ?thesis
    using line_by_line_loop_pending [OF assms(1-4), of buf col out] by simp
qed

lemma read_loop_line_chunks:
  assumes "pending opt p f" "max_line_length opt = int n" "0 < n" "host f < length (hosts w)"
    "mode opt = MODE_LINE_BY_LINE" "\<not> silent opt" "\<forall>c\<in>set chunks. c \<noteq> []"
  shows "\<exists>f'. same_stream f f' \<and> pending opt (snd (scan_lines p (concat chunks))) f' \<and>
           read_loop opt col f w (map Data chunks @ rest) =
           read_loop opt col f'
             (w\<lparr>outs := printf (concat (map (printed_line opt col (hosts w ! host f) (ptype f))
                                           (fst (scan_lines p (concat chunks))))) (outs w)\<rparr>) rest"
  using assms
proof (induction chunks arbitrary: p f w)
  case Nil
  then show ?case by (auto intro!: exI [of _ f])
next
  case (Cons c chunks)
  have c: "c \<noteq> []" using Cons.prems by simp
  from handle_bytes_line [OF Cons.prems(1-5) c, of col "outs w"]
  obtain f1 where s1: "same_stream f f1" and p1: "pending opt (snd (scan_lines p c)) f1"
    and hb: "handle_bytes opt col (hosts w) (f, outs w) c =
             Inr (f1, printf (concat (map (printed_line opt col (hosts w ! host f) (ptype f))
                                        (fst (scan_lines p c)))) (outs w))"
    by blast
  let ?w1 = "w\<lparr>outs := printf (concat (map (printed_line opt col (hosts w ! host f) (ptype f))
                                        (fst (scan_lines p c)))) (outs w)\<rparr>"
  have h1: "host f1 < length (hosts ?w1)" "host f1 = host f" "ptype f1 = ptype f"
    using s1 Cons.prems by (simp_all add: same_stream_def)
  have ch: "\<forall>c\<in>set chunks. c \<noteq> []" using Cons.prems by simp
  from Cons.IH [OF p1 Cons.prems(2,3) h1(1) Cons.prems(5,6) ch]
  obtain f' where s2: "same_stream f1 f'"
    and p2: "pending opt (snd (scan_lines (snd (scan_lines p c)) (concat chunks))) f'"
    and rl: "read_loop opt col f1 ?w1 (map Data chunks @ rest) =
       read_loop opt col f'
        (?w1\<lparr>outs := printf (concat (map (printed_line opt col (hosts ?w1 ! host f1) (ptype f1))
                          (fst (scan_lines (snd (scan_lines p c)) (concat chunks))))) (outs ?w1)\<rparr>)
        rest"
    by blast
  have "read_loop opt col f w (map Data (c # chunks) @ rest) =
        read_loop opt col f1 ?w1 (map Data chunks @ rest)"
    using c hb Cons.prems(6) by simp
  then show ?case
    using rl s1 s2 p2 h1
    by (auto simp: scan_lines_append split_beta intro: same_stream_trans)
qed

lemma read_eof_line:
  assumes "pending opt p f" "max_line_length opt = int n" "0 < n"
    "host_cp (hosts w) (host f) = Inr c" "mode opt = MODE_LINE_BY_LINE"
  shows "\<exists>f'. same_stream f f' \<and> pending opt [] f' \<and>
     read_eof opt col f w =
       Inr (f', w\<lparr>hosts := (hosts w)[host f :=
                      (hosts w ! host f)\<lparr>cp := Some (set_fd (ptype f) (- 2) c)\<rparr>],
                  watcher := filter (\<lambda>e. fst e \<noteq> get_fd (ptype f) c) (watcher w),
                  outs := (if p = [] then outs w
                           else printf (printed_line opt col (hosts w ! host f) (ptype f) p)
                                  (outs w))\<rparr>)"
proof -
  have h: "host f < length (hosts w)" and d: "deref (hosts w) (host f) = Inr (hosts w ! host f)"
    using assms(4) by (auto simp: host_cp_def deref_def split: if_splits)
  let ?hs1 = "(hosts w)[host f := (hosts w ! host f)\<lparr>cp := Some (set_fd (ptype f) (- 2) c)\<rparr>]"
  have h1: "host f < length ?hs1" using h by simp
  from read_eof_mode_pending [OF assms(1-3) h1 assms(5),
      of col "set_fd (ptype f) (- 2) c" "outs w"]
  obtain f' where "same_stream f f'" "pending opt [] f'"
    "read_eof_mode opt col ?hs1 (f, set_fd (ptype f) (- 2) c, outs w) =
       Inr (f', set_fd (ptype f) (- 2) c,
            if p = [] then outs w
            else printf (printed_line opt col (?hs1 ! host f) (ptype f) p) (outs w))"
    by blast
  then show ?thesis using assms(4) d h
    by (auto simp: read_eof_def Let_def)
qed

lemma read_loop_line_safe:
  assumes "pending opt p f" "max_line_length opt = int n" "0 < n"
    "host_cp (hosts w) (host f) = Inr c" "mode opt = MODE_LINE_BY_LINE"
  shows "case read_loop opt col f w rs of
           Inl e \<Rightarrow> e = Exit 3
         | Inr (cl, f', w') \<Rightarrow> \<exists>q. pending opt q f'"
  using assms
proof (induction rs arbitrary: p f w)
  case Nil
  then show ?case by auto
next
  case (Cons r rs)
  have h: "host f < length (hosts w)"
    using Cons.prems(4) by (auto simp: host_cp_def deref_def split: if_splits)
  show ?case
  proof (cases r)
    case ReadFail
    then show ?thesis by simp
  next
    case (Data buf)
    show ?thesis
    proof (cases "buf = []")
      case True
      from read_eof_line [OF Cons.prems, of col]
      show ?thesis using True Data by auto
    next
      case False
      show ?thesis
      proof (cases "silent opt")
        case True
        with Cons.IH [OF Cons.prems] False Data show ?thesis by simp
      next
        case ns: False
        from handle_bytes_line [OF Cons.prems(1-3) h Cons.prems(5) False, of col "outs w"]
        obtain f1 out1 where s1: "same_stream f f1" and p1: "pending opt (snd (scan_lines p buf)) f1"
          and hb: "handle_bytes opt col (hosts w) (f, outs w) buf = Inr (f1, out1)"
          by blast
        have c1: "host_cp (hosts (w\<lparr>outs := out1\<rparr>)) (host f1) = Inr c"
          using Cons.prems(4) s1 by (simp add: same_stream_def)
        from Cons.IH [OF p1 Cons.prems(2,3) c1 Cons.prems(5)]
        show ?thesis using False Data ns hb by simp
      qed
    qed
  qed
qed


lemma bindE_Inr_iff: "bindE m k = Inr y \<longleftrightarrow> (\<exists>x. m = Inr x \<and> k x = Inr y)"
  by (cases m) auto

lemma fdev_create_line:
  assumes "fdev_create opt env hs i t = Inr f" "mode opt = MODE_LINE_BY_LINE"
    "0 \<le> max_line_length opt"
  shows "pending opt [] f \<and> host f = i \<and> ptype f = t \<and> (\<exists>c. host_cp hs i = Inr c) \<and>
         max_line_length opt + 2 \<le> INT_MAX"
  using assms
  by (auto simp: fdev_create_def bindE_Inr_iff safe_malloc_def pending_def assert_def
      int_add_def split: if_splits)

lemma line_buffer_ok_pending:
  assumes "line_buffer_ok opt f" "0 \<le> max_line_length opt"
  shows "\<exists>p. pending opt p f"
proof -
  from assms obtain b where b: "buffer f = Some b" "int (length b) = max_line_length opt + 2"
    and o: "0 \<le> offset f" "offset f \<le> max_line_length opt + 1"
    and nlb: "offset f = max_line_length opt + 1 \<longrightarrow> b ! nat (max_line_length opt) = NL"
    and nl: "NL \<notin> set (take (min (nat (offset f)) (nat (max_line_length opt))) b)"
    by (auto simp: line_buffer_ok_def split: option.splits)
  obtain n where n: "max_line_length opt = int n"
    using assms(2) by (metis nonneg_int_cases)
  have lb: "length b = n + 2" using b n by simp
  show ?thesis
  proof (cases "offset f \<le> max_line_length opt")
    case True
    then obtain k where k: "offset f = int k" "k \<le> n"
      using o n by (metis nonneg_int_cases of_nat_le_iff)
    have "NL \<notin> set (take k b)" using nl k by (simp add: n min_def)
    then have "pending opt (take k b) f"
      using k b lb by (simp add: pending_def n)
    then show ?thesis ..
  next
    case False
    then have off: "offset f = int n + 1" using o by (simp add: n)
    then have bn: "b ! n = NL" using nlb by (simp add: n)
    have tk: "take (Suc n) b = take n b @ [NL]"
      using lb bn by (simp add: take_Suc_conv_app_nth)
    have "NL \<notin> set (take n b)" using nl off by (simp add: n min_def)
    then have "pending opt (take n b @ [CHR ''x'']) f"
      using off b lb tk by (simp add: pending_def n)
    then show ?thesis ..
  qed
qed

lemma pending_line_buffer_ok:
  assumes "pending opt p f" "0 \<le> max_line_length opt"
  shows "line_buffer_ok opt f"
proof -
  obtain n where n: "max_line_length opt = int n"
    using assms(2) by (metis nonneg_int_cases)
  from assms(1) obtain b where b: "buffer f = Some b" "int (length b) = max_line_length opt + 2"
    and sh0: "if int (length p) \<le> max_line_length opt
         then offset f = int (length p) \<and> take (length p) b = p
         else offset f = max_line_length opt + 1 \<and>
              take (nat (max_line_length opt) + 1) b = take (nat (max_line_length opt)) p @ [NL]"
    and nl: "NL \<notin> set p"
    unfolding pending_def by blast
  have lb: "length b = n + 2" using b n by simp
  show ?thesis
  proof (cases "length p \<le> n")
    case True
    then show ?thesis using sh0 b lb nl by (auto simp: line_buffer_ok_def min_def n)
  next
    case False
    then have off: "offset f = int n + 1" and tk: "take (Suc n) b = take n p @ [NL]"
      using sh0 by (auto simp: n)
    have "b ! n = take (Suc n) b ! n" by simp
    also have "\<dots> = NL" using tk False by (simp add: nth_append)
    finally have bn: "b ! n = NL" .
    have "take n b = take n (take (Suc n) b)" by simp
    also have "\<dots> = take n p" using tk False by simp
    finally have "set (take n b) \<subseteq> set p" by (simp add: set_take_subset)
    then have "NL \<notin> set (take n b)" using nl by blast
    then show ?thesis using off b lb bn by (simp add: line_buffer_ok_def min_def n)
  qed
qed

subsection \<open>The line buffer stays within its allocation\<close>

text \<open>
  Claim C10. In line-by-line mode, with \<open>max_line_length\<close> at most \<open>INT_MAX - 2\<close> (above
  that the size \<open>max_line_length + 2\<close> is no \<open>int\<close> and \<open>fdev_create\<close> allocates nothing),
  the line buffer never overflows. The buffer that
  \<open>fdev_create\<close> allocates has \<open>max_line_length + 2\<close> bytes and satisfies
  \<open>line_buffer_ok\<close>; from any stream context that satisfies it, a call of
  \<open>read_active_fd\<close> on any sequence of read results (chunks of data, end of file, read
  errors) performs no store outside the allocation (\<open>MemoryFault\<close>) and fails no
  assertion (\<open>AssertFailed\<close>), and the context it leaves satisfies \<open>line_buffer_ok\<close>
  again, so its fill offset is at most \<open>max_line_length + 1\<close>. The states between
  two bytes of a chunk are the states after a shorter chunk, so the bound holds at
  every byte.
\<close>
theorem line_buffer_never_overflows:
  assumes "mode opt = MODE_LINE_BY_LINE" and "0 < max_line_length opt"
    and "max_line_length opt \<le> INT_MAX - 2"
  shows "(fdev_create opt env hs i t = Inr f0 \<longrightarrow> line_buffer_ok opt f0) \<and>
         (line_buffer_ok opt f \<and> host_cp (hosts w) (host f) = Inr c \<longrightarrow>
            read_active_fd opt col f w rs \<noteq> Inl MemoryFault \<and>
            read_active_fd opt col f w rs \<noteq> Inl AssertFailed \<and>
            (\<forall>closed f' w'. read_active_fd opt col f w rs = Inr (closed, f', w') \<longrightarrow>
               line_buffer_ok opt f' \<and> offset f' \<le> max_line_length opt + 1))"
proof (intro conjI impI)
  assume "fdev_create opt env hs i t = Inr f0"
  from fdev_create_line [OF this assms(1)] assms(2)
  show "line_buffer_ok opt f0" by (auto intro: pending_line_buffer_ok)
next
  assume a: "line_buffer_ok opt f \<and> host_cp (hosts w) (host f) = Inr c"
  obtain n where n: "max_line_length opt = int n" "0 < n"
    using assms(2) by (metis zero_less_imp_eq_int of_nat_0_less_iff)
  from a assms(2) obtain p where p: "pending opt p f"
    using line_buffer_ok_pending by fastforce
  have c: "host_cp (hosts w) (host f) = Inr c" using a by simp
  have ra: "read_active_fd opt col f w rs = read_loop opt col f w rs"
    using c by (simp add: read_active_fd_def)
  note safe = read_loop_line_safe [OF p n c assms(1), of col rs]
  show "read_active_fd opt col f w rs \<noteq> Inl MemoryFault"
    using safe ra by (auto split: sum.splits)
  show "read_active_fd opt col f w rs \<noteq> Inl AssertFailed"
    using safe ra by (auto split: sum.splits)
  show "\<forall>closed f' w'. read_active_fd opt col f w rs = Inr (closed, f', w') \<longrightarrow>
               line_buffer_ok opt f' \<and> offset f' \<le> max_line_length opt + 1"
  proof (intro allI impI)
    fix closed f' w'
    assume "read_active_fd opt col f w rs = Inr (closed, f', w')"
    with safe ra obtain q where "pending opt q f'" by (auto split: sum.splits)
    then show "line_buffer_ok opt f' \<and> offset f' \<le> max_line_length opt + 1"
      using pending_line_buffer_ok [of opt q f'] pending_offset [of opt q f'] assms(2) by auto
  qed
qed

theorem line_buffer_never_overflows_witness:
  "mode line_opts = MODE_LINE_BY_LINE \<and> 0 < max_line_length line_opts \<and>
   max_line_length line_opts \<le> INT_MAX - 2 \<and>
   fdev_create line_opts demo_env (hosts demo_world) 0 PIPE_STDOUT = Inr line_fdev \<and>
   line_buffer_ok line_opts line_fdev \<and>
   read_active_fd line_opts no_colors line_fdev demo_world
     [Data ''abcdefgh'', Data [NL], Data ''xy'', Data []] \<noteq> Inl MemoryFault \<and>
   read_active_fd line_opts no_colors line_fdev demo_world
     [Data ''abcdefgh'', Data [NL], Data ''xy'', Data []] \<noteq> Inl AssertFailed"
proof -
  have m: "mode line_opts = MODE_LINE_BY_LINE" and l: "0 < max_line_length line_opts"
    by (simp_all add: line_opts_def)
  have bd: "max_line_length line_opts \<le> INT_MAX - 2" by (simp add: line_opts_def INT_MAX_def)
  have fc: "fdev_create line_opts demo_env (hosts demo_world) 0 PIPE_STDOUT = Inr line_fdev"
    by code_simp
  have hc: "host_cp (hosts demo_world) (host line_fdev)
      = Inr (child_process_create\<lparr>pid := 100, stdout_fd := 3, stderr_fd := 4\<rparr>)"
    by code_simp
  from line_buffer_never_overflows [OF m l bd, of demo_env "hosts demo_world" 0 PIPE_STDOUT
      line_fdev line_fdev demo_world _ no_colors
      "[Data ''abcdefgh'', Data [NL], Data ''xy'', Data []]"] fc hc m l bd
  show ?thesis by simp
qed


lemma scan_lines_set:
  "(\<forall>l\<in>set (fst (scan_lines p s)). set l \<subseteq> set p \<union> set s) \<and>
   set (snd (scan_lines p s)) \<subseteq> set p \<union> set s"
proof (induction s arbitrary: p)
  case Nil
  then show ?case by simp
next
  case (Cons a s)
  show ?case
  proof (cases "a = NL")
    case True
    then show ?thesis using Cons.IH [of "[]"] by (auto simp: split_beta)
  next
    case False
    then show ?thesis using Cons.IH [of "p @ [a]"] by auto
  qed
qed

lemma stdout_printf [simp]: "stdout (printf x ou) = stdout ou @ x"
  by (simp add: printf_def)

lemma stream_lines_set: "l \<in> set (stream_lines s) \<Longrightarrow> set l \<subseteq> set s"
  using scan_lines_set [of "[]" s]
  by (auto simp: stream_lines_def split_beta split: if_splits)

lemma printed_line_no_nul:
  "NUL \<notin> set l \<Longrightarrow>
   printed_line opt col h t l =
     (if \<not> anonymous opt then print_host_header col h @ '' '' else [])
     @ (case t of PIPE_STDOUT \<Rightarrow> green col | PIPE_STDERR \<Rightarrow> red col | PIPE_STDIO \<Rightarrow> [])
     @ take (nat (max_line_length opt)) l @ [NL] @ reset col"
proof -
  assume "NUL \<notin> set l"
  then have "\<forall>c\<in>set (take (nat (max_line_length opt)) l @ [NL]). c \<noteq> NUL"
    by (auto dest: in_set_takeD)
  then have "takeWhile (\<lambda>c. c \<noteq> NUL) (take (nat (max_line_length opt)) l @ [NL])
             = take (nat (max_line_length opt)) l @ [NL]"
    by (simp only: takeWhile_eq_all_conv)
  then show ?thesis by (simp add: printed_line_def)
qed

lemma lines_from_Nil: "lines_from [] s = stream_lines s"
  by (simp add: lines_from_def stream_lines_def)

lemma lines_from_append:
  "lines_from p (a @ b) = fst (scan_lines p a) @ lines_from (snd (scan_lines p a)) b"
  by (simp add: lines_from_def scan_lines_append split_beta)

lemma read_active_fd_line_block:
  assumes pe: "pending opt p f" and n: "max_line_length opt = int n" "0 < n"
    and c: "host_cp (hosts w) (host f) = Inr c"
    and m: "mode opt = MODE_LINE_BY_LINE" and ns: "\<not> silent opt"
    and ch: "\<forall>c\<in>set chunks. c \<noteq> []"
  shows "\<exists>f'. same_stream f f' \<and> pending opt (snd (scan_lines p (concat chunks))) f' \<and>
           read_active_fd opt col f w (map Data chunks) =
             Inr (False, f',
                  w\<lparr>outs := printf (concat (map (printed_line opt col (hosts w ! host f) (ptype f))
                                               (fst (scan_lines p (concat chunks))))) (outs w)\<rparr>)"
proof -
  have h: "host f < length (hosts w)"
    using c by (auto simp: host_cp_def deref_def split: if_splits)
  from read_loop_line_chunks [OF pe n h m ns ch, of col "[]"]
  show ?thesis using c by (auto simp: read_active_fd_def)
qed

lemma read_active_fd_line_eof:
  assumes pe: "pending opt p f" and n: "max_line_length opt = int n" "0 < n"
    and c: "host_cp (hosts w) (host f) = Inr c"
    and m: "mode opt = MODE_LINE_BY_LINE" and ns: "\<not> silent opt"
    and ch: "\<forall>c\<in>set chunks. c \<noteq> []"
  shows "\<exists>f' w'. read_active_fd opt col f w (map Data chunks @ [Data []]) = Inr (True, f', w') \<and>
           outs w' = printf (concat (map (printed_line opt col (hosts w ! host f) (ptype f))
                                       (lines_from p (concat chunks)))) (outs w)"
proof -
  have h: "host f < length (hosts w)"
    using c by (auto simp: host_cp_def deref_def split: if_splits)
  from read_loop_line_chunks [OF pe n h m ns ch, of col "[Data []]"]
  obtain f1 where s1: "same_stream f f1"
    and p1: "pending opt (snd (scan_lines p (concat chunks))) f1"
    and rl: "read_loop opt col f w (map Data chunks @ [Data []]) =
           read_loop opt col f1
             (w\<lparr>outs := printf (concat (map (printed_line opt col (hosts w ! host f) (ptype f))
                                 (fst (scan_lines p (concat chunks))))) (outs w)\<rparr>) [Data []]"
    by blast
  let ?w1 = "w\<lparr>outs := printf (concat (map (printed_line opt col (hosts w ! host f) (ptype f))
                                 (fst (scan_lines p (concat chunks))))) (outs w)\<rparr>"
  have c1: "host_cp (hosts ?w1) (host f1) = Inr c"
    using c s1 by (simp add: same_stream_def)
  from read_eof_line [OF p1 n c1 m, of col]
  obtain f2 where "read_eof opt col f1 ?w1 =
       Inr (f2, ?w1\<lparr>hosts := (hosts ?w1)[host f1 :=
                      (hosts ?w1 ! host f1)\<lparr>cp := Some (set_fd (ptype f1) (- 2) c)\<rparr>],
                  watcher := filter (\<lambda>e. fst e \<noteq> get_fd (ptype f1) c) (watcher ?w1),
                  outs := (if snd (scan_lines p (concat chunks)) = [] then outs ?w1
                           else printf (printed_line opt col (hosts ?w1 ! host f1) (ptype f1)
                                          (snd (scan_lines p (concat chunks))))
                                  (outs ?w1))\<rparr>)"
    by blast
  then show ?thesis
    using rl c s1
    by (auto simp: read_active_fd_def lines_from_def same_stream_def split_beta)
qed

lemma read_calls_line:
  assumes pe: "pending opt p f" and n: "max_line_length opt = int n" "0 < n"
    and c: "host_cp (hosts w) (host f) = Inr c"
    and m: "mode opt = MODE_LINE_BY_LINE" and ns: "\<not> silent opt"
    and ch: "\<forall>cs\<in>set css. \<forall>c\<in>set cs. c \<noteq> []" and chl: "\<forall>c\<in>set lst. c \<noteq> []"
  shows "\<exists>f' w'. read_calls opt col f w (map (map Data) css @ [map Data lst @ [Data []]])
                   = Inr (True, f', w') \<and>
           outs w' = printf (concat (map (printed_line opt col (hosts w ! host f) (ptype f))
                                       (lines_from p (concat (concat css) @ concat lst))))
                       (outs w)"
  using pe c ch
proof (induction css arbitrary: p f w)
  case Nil
  from read_active_fd_line_eof [OF Nil.prems(1) n Nil.prems(2) m ns chl, of col]
  show ?case by auto
next
  case (Cons cs css)
  have ch1: "\<forall>c\<in>set cs. c \<noteq> []" and ch2: "\<forall>cs\<in>set css. \<forall>c\<in>set cs. c \<noteq> []"
    using Cons.prems(3) by simp_all
  let ?pl = "printed_line opt col (hosts w ! host f) (ptype f)"
  let ?w1 = "w\<lparr>outs := printf (concat (map ?pl (fst (scan_lines p (concat cs))))) (outs w)\<rparr>"
  from read_active_fd_line_block [OF Cons.prems(1) n Cons.prems(2) m ns ch1, of col]
  obtain f1 where s1: "same_stream f f1"
    and p1: "pending opt (snd (scan_lines p (concat cs))) f1"
    and r1: "read_active_fd opt col f w (map Data cs) = Inr (False, f1, ?w1)"
    by blast
  have c1: "host_cp (hosts ?w1) (host f1) = Inr c"
    using Cons.prems(2) s1 by (simp add: same_stream_def)
  from Cons.IH [OF p1 c1 ch2]
  obtain f' w' where r2: "read_calls opt col f1 ?w1
        (map (map Data) css @ [map Data lst @ [Data []]]) = Inr (True, f', w')"
    and o2: "outs w' = printf (concat (map (printed_line opt col (hosts ?w1 ! host f1) (ptype f1))
               (lines_from (snd (scan_lines p (concat cs))) (concat (concat css) @ concat lst))))
             (outs ?w1)"
    by blast
  have hf: "host f1 = host f" "ptype f1 = ptype f" using s1 by (simp_all add: same_stream_def)
  have "read_calls opt col f w (map (map Data) (cs # css) @ [map Data lst @ [Data []]])
        = Inr (True, f', w')"
    using r1 r2 by simp
  moreover have "outs w' = printf (concat (map ?pl
        (lines_from p (concat (concat (cs # css)) @ concat lst)))) (outs w)"
    using o2 hf by (simp add: lines_from_append)
  ultimately show ?case by blast
qed

lemma takeWhile_take_stop:
  "x \<in> set (take n l) \<Longrightarrow> takeWhile (\<lambda>c. c \<noteq> x) (take n l @ ys) = takeWhile (\<lambda>c. c \<noteq> x) l"
proof (induction l arbitrary: n)
  case Nil
  then show ?case by simp
next
  case (Cons a l)
  then show ?case by (cases n) auto
qed

lemma printed_line_cases:
  "printed_line opt col h t l =
     (if \<not> anonymous opt then print_host_header col h @ '' '' else [])
     @ (case t of PIPE_STDOUT \<Rightarrow> green col | PIPE_STDERR \<Rightarrow> red col | PIPE_STDIO \<Rightarrow> [])
     @ (if NUL \<in> set (take (nat (max_line_length opt)) l) then takeWhile (\<lambda>c. c \<noteq> NUL) l
        else take (nat (max_line_length opt)) l @ [NL])
     @ reset col"
proof (cases "NUL \<in> set (take (nat (max_line_length opt)) l)")
  case True
  have "takeWhile (\<lambda>c. c \<noteq> NUL) (take (nat (max_line_length opt)) l @ [NL])
        = takeWhile (\<lambda>c. c \<noteq> NUL) l"
    using True by (rule takeWhile_take_stop)
  then show ?thesis using True by (simp only: printed_line_def if_True)
next
  case False
  then have "\<forall>c\<in>set (take (nat (max_line_length opt)) l @ [NL]). c \<noteq> NUL" by auto
  then have "takeWhile (\<lambda>c. c \<noteq> NUL) (take (nat (max_line_length opt)) l @ [NL])
             = take (nat (max_line_length opt)) l @ [NL]"
    by (simp only: takeWhile_eq_all_conv)
  then show ?thesis using False by (simp add: printed_line_def)
qed

subsection \<open>Printed lines end with a newline\<close>

text \<open>
  Claim C7, amended. In line-by-line mode (the limit within the range that
  \<open>fdev_create\<close> can allocate), take a stream context fresh from \<open>fdev_create\<close> and a
  stream delivered over any number of calls of \<open>read_active_fd\<close>, each reading any
  non-empty chunks until the next read would block, the last one reaching end of
  file. What is printed for the stream is one piece per line of the stream, a last
  line that the stream leaves without a newline included: the host header (unless
  anonymous), the color, the text of the line and the color reset. The text is the
  line cut to \<open>max_line_length\<close> bytes and a newline when these bytes hold no nul; when
  they hold one, the text is the line up to the nul, with no newline, because
  \<open>printf\<close> stops there. So the claim holds of the lines without a nul byte and
  fails of the others (\<open>line_by_line_nul_counterexample\<close>).
\<close>
theorem line_by_line_newline_terminated:
  assumes fc: "fdev_create opt env (hosts w) i t = Inr f"
    and m: "mode opt = MODE_LINE_BY_LINE" and ns: "\<not> silent opt"
    and L: "0 < max_line_length opt" and bd: "max_line_length opt \<le> INT_MAX - 2"
    and ch: "\<forall>cs\<in>set css. \<forall>c\<in>set cs. c \<noteq> []" and chl: "\<forall>c\<in>set lst. c \<noteq> []"
  shows "\<exists>f' w'.
           read_calls opt col f w (map (map Data) css @ [map Data lst @ [Data []]])
             = Inr (True, f', w') \<and>
           stdout (outs w') = stdout (outs w) @
             concat (map (\<lambda>l. (if \<not> anonymous opt
                                then print_host_header col (hosts w ! i) @ '' '' else [])
                               @ fdev_get_color col f
                               @ (if NUL \<in> set (take (nat (max_line_length opt)) l)
                                  then takeWhile (\<lambda>c. c \<noteq> NUL) l
                                  else take (nat (max_line_length opt)) l @ [NL])
                               @ reset col)
                       (stream_lines (concat (concat css) @ concat lst)))"
proof -
  obtain n where n: "max_line_length opt = int n" "0 < n"
    using L by (metis zero_less_imp_eq_int of_nat_0_less_iff)
  from fdev_create_line [OF fc m] L obtain c where pe: "pending opt [] f"
    and hf: "host f = i" "ptype f = t" and c: "host_cp (hosts w) (host f) = Inr c"
    by auto
  from read_calls_line [OF pe n c m ns ch chl, of col]
  obtain f' w' where r: "read_calls opt col f w (map (map Data) css @ [map Data lst @ [Data []]])
        = Inr (True, f', w')"
    and o: "outs w' = printf (concat (map (printed_line opt col (hosts w ! i) t)
                 (stream_lines (concat (concat css) @ concat lst)))) (outs w)"
    using hf by (auto simp: lines_from_Nil)
  have eq: "printed_line opt col (hosts w ! i) t =
        (\<lambda>l. (if \<not> anonymous opt then print_host_header col (hosts w ! i) @ '' '' else [])
               @ fdev_get_color col f
               @ (if NUL \<in> set (take (nat (max_line_length opt)) l)
                  then takeWhile (\<lambda>c. c \<noteq> NUL) l
                  else take (nat (max_line_length opt)) l @ [NL])
               @ reset col)"
    using hf(2) by (intro ext) (simp only: printed_line_cases [of opt col _ t] fdev_get_color_def)
  have "stdout (outs w') = stdout (outs w) @
             concat (map (printed_line opt col (hosts w ! i) t)
               (stream_lines (concat (concat css) @ concat lst)))"
    by (simp only: o stdout_printf)
  then show ?thesis using r unfolding eq by blast
qed

theorem line_by_line_newline_terminated_witness:
  "fdev_create line_opts demo_env (hosts demo_world) 0 PIPE_STDOUT = Inr line_fdev \<and>
   max_line_length line_opts \<le> INT_MAX - 2 \<and>
   (\<exists>f' w'.
      read_calls line_opts no_colors line_fdev demo_world
        (map (map Data) [[''ab''], [[NL] @ ''c'', ''defgh'' @ [NL]]] @ [map Data [''x''] @ [Data []]])
        = Inr (True, f', w') \<and>
      stdout (outs w') = ''[h] ab'' @ [NL] @ ''[h] cdef'' @ [NL] @ ''[h] x'' @ [NL])"
proof -
  have fc: "fdev_create line_opts demo_env (hosts demo_world) 0 PIPE_STDOUT = Inr line_fdev"
    by code_simp
  have m: "mode line_opts = MODE_LINE_BY_LINE" and ns: "\<not> silent line_opts"
    and l: "0 < max_line_length line_opts"
    by (simp_all add: line_opts_def)
  have bd: "max_line_length line_opts \<le> INT_MAX - 2" by (simp add: line_opts_def INT_MAX_def)
  have ch: "\<forall>cs\<in>set [[''ab''], [[NL] @ ''c'', ''defgh'' @ [NL]]]. \<forall>c\<in>set cs. c \<noteq> []" by simp
  have chl: "\<forall>c\<in>set [''x'']. c \<noteq> []" by simp
  have e: "stdout (outs demo_world) @
             concat (map (\<lambda>l. (if \<not> anonymous line_opts
                                then print_host_header no_colors (hosts demo_world ! 0) @ '' ''
                                else [])
                               @ fdev_get_color no_colors line_fdev
                               @ (if NUL \<in> set (take (nat (max_line_length line_opts)) l)
                                  then takeWhile (\<lambda>c. c \<noteq> NUL) l
                                  else take (nat (max_line_length line_opts)) l @ [NL])
                               @ reset no_colors)
                       (stream_lines (concat (concat [[''ab''], [[NL] @ ''c'', ''defgh'' @ [NL]]])
                                      @ concat [''x''])))
           = ''[h] ab'' @ [NL] @ ''[h] cdef'' @ [NL] @ ''[h] x'' @ [NL]"
    by code_simp
  from line_by_line_newline_terminated [OF fc m ns l bd ch chl, of no_colors]
  show ?thesis using fc bd unfolding e by simp
qed

theorem line_by_line_nul_counterexample:
  "printed (read_active_fd line_opts no_colors line_fdev demo_world
              [Data [CHR ''a'', NUL], Data []]) = Inr ''[h] a''"
  by code_simp

subsection \<open>An over-long line\<close>

text \<open>
  Claim C2, amended. With \<open>max_line_length = 4\<close>, colors off and the host header
  on, a host \<open>h\<close> whose standard output is \<open>abcdef\<close> and a newline, in whatever
  chunks and over however many calls of \<open>read_active_fd\<close> it arrives before the end of
  file, gets exactly one printed line, \<open>[h] abcd\<close> and a newline: the bytes of a line
  past \<open>max_line_length\<close> are dropped, the line is not split. The two lines of the
  claim are not what is printed (\<open>over_long_line_counterexample\<close>).
\<close>
theorem over_long_line_is_truncated:
  assumes fc: "fdev_create opt env (hosts w) i PIPE_STDOUT = Inr f"
    and m: "mode opt = MODE_LINE_BY_LINE" and ns: "\<not> silent opt"
    and an: "\<not> anonymous opt"
    and L: "max_line_length opt = 4"
    and nm: "name (hosts w ! i) = ''h''"
    and ch: "\<forall>cs\<in>set css. \<forall>c\<in>set cs. c \<noteq> []" and chl: "\<forall>c\<in>set lst. c \<noteq> []"
    and st: "concat (concat css) @ concat lst = ''abcdef'' @ [NL]"
  shows "printed (read_calls opt no_colors f w
                    (map (map Data) css @ [map Data lst @ [Data []]]))
           = Inr (stdout (outs w) @ ''[h] abcd'' @ [NL])"
proof -
  have n: "max_line_length opt = int 4" "0 < (4::nat)" using L by simp_all
  from fdev_create_line [OF fc m] L obtain c where pe: "pending opt [] f"
    and hf: "host f = i" "ptype f = PIPE_STDOUT" and c: "host_cp (hosts w) (host f) = Inr c"
    by auto
  from read_calls_line [OF pe n c m ns ch chl, of no_colors]
  obtain f' w' where r: "read_calls opt no_colors f w
        (map (map Data) css @ [map Data lst @ [Data []]]) = Inr (True, f', w')"
    and o: "outs w' = printf (concat (map (printed_line opt no_colors (hosts w ! i) PIPE_STDOUT)
                 (stream_lines (concat (concat css) @ concat lst)))) (outs w)"
    using hf by (auto simp: lines_from_Nil)
  have sl: "stream_lines (''abcdef'' @ [NL]) = [''abcdef'']" by code_simp
  have "printed_line opt no_colors (hosts w ! i) PIPE_STDOUT ''abcdef'' = ''[h] abcd'' @ [NL]"
    using an L nm by (simp add: printed_line_def print_host_header_def no_colors_def)
  then show ?thesis using r o st sl by (simp add: printed_def printf_def)
qed

theorem over_long_line_is_truncated_witness:
  "fdev_create line_opts demo_env (hosts demo_world) 0 PIPE_STDOUT = Inr line_fdev \<and>
   concat (concat [[''abc''], [''d'', ''e'']]) @ concat [''f'' @ [NL]] = ''abcdef'' @ [NL] \<and>
   printed (read_calls line_opts no_colors line_fdev demo_world
              (map (map Data) [[''abc''], [''d'', ''e'']] @ [map Data [''f'' @ [NL]] @ [Data []]]))
     = Inr (''[h] abcd'' @ [NL])"
proof -
  have fc: "fdev_create line_opts demo_env (hosts demo_world) 0 PIPE_STDOUT = Inr line_fdev"
    by code_simp
  have m: "mode line_opts = MODE_LINE_BY_LINE" and ns: "\<not> silent line_opts"
    and an: "\<not> anonymous line_opts" and l: "max_line_length line_opts = 4"
    by (simp_all add: line_opts_def)
  have nm: "name (hosts demo_world ! 0) = ''h''" by code_simp
  have ch: "\<forall>cs\<in>set [[''abc''], [''d'', ''e'']]. \<forall>c\<in>set cs. c \<noteq> []" by simp
  have chl: "\<forall>c\<in>set [''f'' @ [NL]]. c \<noteq> []" by simp
  have st: "concat (concat [[''abc''], [''d'', ''e'']]) @ concat [''f'' @ [NL]] = ''abcdef'' @ [NL]"
    by simp
  have e: "stdout (outs demo_world) = []" by code_simp
  from over_long_line_is_truncated [OF fc m ns an l nm ch chl st]
  show ?thesis using fc st e by simp
qed

theorem over_long_line_counterexample:
  "printed (read_active_fd line_opts no_colors line_fdev demo_world
              [Data (''abcdef'' @ [NL]), Data []])
     \<noteq> Inr (''[h] abcd'' @ [NL] @ ''[h] ef'' @ [NL])"
  by code_simp

lemma process_data_join_loop_captured:
  assumes "captured opt x f" "max_output_length opt = int m"
  shows "\<exists>f'. same_stream f f' \<and> process_data_join_loop opt f cs = Inr f' \<and>
              captured opt (take m (x @ cs)) f'"
  using assms
proof (induction cs arbitrary: x f)
  case Nil
  then show ?case by (auto simp: captured_def intro!: exI [of _ f])
next
  case (Cons c cs)
  note M = Cons.prems(2)
  from Cons.prems(1) obtain b where b: "buffer f = Some b" "length b = Suc m"
    and lx: "length x \<le> m" and tk: "take (length x) b = x"
    and off: "offset f = int (length x) \<or>
         (offset f = int m + 1 \<and> length x = m \<and> b ! length x = NUL \<and> max_line_length opt = int m)"
    by (auto simp: captured_def M)
  consider (room) "offset f = int (length x)" "length x < m"
    | (pad) "offset f = int (length x)" "length x = m" "max_line_length opt = int m"
    | (full) "offset f = int (length x)" "length x = m" "max_line_length opt \<noteq> int m"
    | (over) "offset f = int m + 1" "length x = m" "b ! m = NUL" "max_line_length opt = int m"
    using off lx by fastforce
  then show ?case
  proof cases
    case room
    let ?f1 = "f\<lparr>buffer := Some (b[length x := c]), offset := int (length x) + 1\<rparr>"
    have c1: "captured opt (x @ [c]) ?f1"
      using room b tk by (simp add: captured_def M take_Suc_conv_app_nth)
    from Cons.IH [OF c1 M] obtain f' where "same_stream ?f1 f'"
      "process_data_join_loop opt ?f1 cs = Inr f'" "captured opt (take m ((x @ [c]) @ cs)) f'"
      by blast
    moreover have "process_data_join_loop opt f (c # cs) = process_data_join_loop opt ?f1 cs"
      using room b by (simp add: M poke_Some)
    ultimately show ?thesis by (auto simp: same_stream_def)
  next
    case pad
    let ?f1 = "f\<lparr>buffer := Some (b[m := NUL]), offset := int m + 1\<rparr>"
    have c1: "captured opt x ?f1"
      using pad b tk by (simp add: captured_def M)
    from Cons.IH [OF c1 M] obtain f' where "same_stream ?f1 f'"
      "process_data_join_loop opt ?f1 cs = Inr f'" "captured opt (take m (x @ cs)) f'"
      by blast
    moreover have "process_data_join_loop opt f (c # cs) = process_data_join_loop opt ?f1 cs"
      using pad b by (simp add: M poke_Some)
    ultimately show ?thesis using pad by (auto simp: same_stream_def)
  next
    case full
    have "process_data_join_loop opt f (c # cs) = Inr f"
      using full by (simp add: M)
    then show ?thesis using Cons.prems(1) full by (auto intro!: exI [of _ f])
  next
    case over
    have "process_data_join_loop opt f (c # cs) = Inr f"
      using over by (simp add: M)
    then show ?thesis using Cons.prems(1) over by (auto intro!: exI [of _ f])
  qed
qed

lemma handle_bytes_join:
  assumes "captured opt x f" "max_output_length opt = int m" "mode opt = MODE_JOIN" "buf \<noteq> []"
  shows "\<exists>f'. same_stream f f' \<and> handle_bytes opt col hs (f, ou) buf = Inr (f', ou) \<and>
              captured opt (take m (x @ buf)) f'"
proof -
  from assms(1) have "buffer f \<noteq> None" by (auto simp: captured_def)
  then have "handle_bytes opt col hs (f, ou) buf =
      bindE (process_data_join_loop opt f buf) (\<lambda>f'. Inr (f', ou))"
    using assms(3,4) by (simp add: handle_bytes_def process_data_join_def)
  then show ?thesis
    using process_data_join_loop_captured [OF assms(1,2), of buf] by auto
qed

lemma read_loop_join_chunks:
  assumes "captured opt x f" "max_output_length opt = int m" "mode opt = MODE_JOIN"
    "\<not> silent opt" "\<forall>c\<in>set chunks. c \<noteq> []"
  shows "\<exists>f'. same_stream f f' \<and> captured opt (take m (x @ concat chunks)) f' \<and>
           read_loop opt col f w (map Data chunks @ rest) = read_loop opt col f' w rest"
  using assms
proof (induction chunks arbitrary: x f)
  case Nil
  then show ?case by (auto simp: captured_def intro!: exI [of _ f])
next
  case (Cons c chunks)
  have c: "c \<noteq> []" using Cons.prems by simp
  from handle_bytes_join [OF Cons.prems(1-3) c, of col "hosts w" "outs w"]
  obtain f1 where s1: "same_stream f f1"
    and hb: "handle_bytes opt col (hosts w) (f, outs w) c = Inr (f1, outs w)"
    and c1: "captured opt (take m (x @ c)) f1"
    by blast
  have ch: "\<forall>c\<in>set chunks. c \<noteq> []" using Cons.prems by simp
  from Cons.IH [OF c1 Cons.prems(2-4) ch]
  obtain f' where s2: "same_stream f1 f'"
    and c2: "captured opt (take m (take m (x @ c) @ concat chunks)) f'"
    and rl: "read_loop opt col f1 w (map Data chunks @ rest) = read_loop opt col f' w rest"
    by blast
  have tk: "take m (take m (x @ c) @ concat chunks) = take m (x @ concat (c # chunks))"
    by (simp add: min_def)
  have "read_loop opt col f w (map Data (c # chunks) @ rest) =
        read_loop opt col f1 w (map Data chunks @ rest)"
    using c hb Cons.prems(4) by simp
  then show ?case using rl s1 s2 c2 tk by (auto intro: same_stream_trans)
qed


lemma read_eof_mode_join:
  assumes "captured opt x f" "max_output_length opt = int m" "mode opt = MODE_JOIN"
  shows "\<exists>f' b. read_eof_mode opt col hs (f, c, ou) = Inr (f', c\<lparr>output_buf := Some b\<rparr>, ou) \<and>
           length b = Suc m \<and> take (length x) b = x \<and> b ! length x = NUL"
proof -
  note M = assms(2)
  from assms(1) obtain b where b: "buffer f = Some b" "length b = Suc m"
    and lx: "length x \<le> m" and tk: "take (length x) b = x"
    and off: "offset f = int (length x) \<or>
         (offset f = int m + 1 \<and> length x = m \<and> b ! length x = NUL \<and> max_line_length opt = int m)"
    by (auto simp: captured_def M)
  from off show ?thesis
  proof
    assume o: "offset f = int (length x)"
    have "read_eof_mode opt col hs (f, c, ou) =
        Inr (f\<lparr>buffer := None, offset := int (length x) + 1\<rparr>,
             c\<lparr>output_buf := Some (b[length x := NUL])\<rparr>, ou)"
      using o lx b assms(3) by (simp add: read_eof_mode_def M poke_Some)
    then show ?thesis using b lx tk by auto
  next
    assume o: "offset f = int m + 1 \<and> length x = m \<and> b ! length x = NUL \<and>
               max_line_length opt = int m"
    have "read_eof_mode opt col hs (f, c, ou) =
        Inr (f\<lparr>buffer := None\<rparr>, c\<lparr>output_buf := Some b\<rparr>, ou)"
      using o b assms(3) by (simp add: read_eof_mode_def M)
    then show ?thesis using b o tk by auto
  qed
qed

lemma fdev_create_join:
  assumes "fdev_create opt env hs i t = Inr f" "mode opt = MODE_JOIN"
    "0 \<le> max_output_length opt"
  shows "captured opt [] f \<and> host f = i \<and> ptype f = t \<and> (\<exists>c. host_cp hs i = Inr c) \<and>
         max_output_length opt + 1 \<le> INT_MAX"
  using assms
  by (auto simp: fdev_create_def bindE_Inr_iff safe_malloc_def captured_def assert_def
      int_add_def split: if_splits)

lemma parse_arguments_checks_join:
  assumes "parse_arguments_checks opt0 True gr = Inr opt"
  shows "mode opt = MODE_JOIN \<and> \<not> silent opt \<and> \<not> anonymous opt \<and>
         0 < max_output_length opt \<and> 0 < max_line_length opt \<and> 1 \<le> max_jobs opt"
  using assms by (auto simp: parse_arguments_checks_def split: if_splits)

lemma read_active_fd_join_block:
  assumes cx: "captured opt x f" and M: "max_output_length opt = int m"
    and m: "mode opt = MODE_JOIN" and ns: "\<not> silent opt"
    and ch: "\<forall>c\<in>set chunks. c \<noteq> []"
    and hc: "host_cp (hosts w) (host f) = Inr c0"
  shows "\<exists>f'. same_stream f f' \<and> captured opt (take m (x @ concat chunks)) f' \<and>
           read_active_fd opt col f w (map Data chunks) = Inr (False, f', w)"
  using read_loop_join_chunks [OF cx M m ns ch, of col w "[]"] hc
  by (auto simp: read_active_fd_def)

lemma read_active_fd_join_eof:
  assumes cx: "captured opt x f" and M: "max_output_length opt = int m"
    and m: "mode opt = MODE_JOIN" and ns: "\<not> silent opt"
    and ch: "\<forall>c\<in>set chunks. c \<noteq> []"
    and hc: "host_cp (hosts w) (host f) = Inr c0"
  shows "\<exists>f' w' c b.
           read_active_fd opt col f w (map Data chunks @ [Data []]) = Inr (True, f', w') \<and>
           host_cp (hosts w') (host f) = Inr c \<and> output_buf c = Some b \<and>
           length b = Suc m \<and>
           take (length (take m (x @ concat chunks))) b = take m (x @ concat chunks) \<and>
           b ! length (take m (x @ concat chunks)) = NUL"
proof -
  let ?i = "host f"
  have hi: "?i < length (hosts w)" and d: "deref (hosts w) ?i = Inr (hosts w ! ?i)"
    using hc by (auto simp: host_cp_def deref_def bindE_Inr_iff split: if_splits option.splits)
  from read_loop_join_chunks [OF cx M m ns ch, of col w "[Data []]"]
  obtain f1 where s1: "same_stream f f1"
    and c1: "captured opt (take m (x @ concat chunks)) f1"
    and rl: "read_loop opt col f w (map Data chunks @ [Data []]) =
             read_loop opt col f1 w [Data []]"
    by auto
  have h1: "host f1 = ?i" "ptype f1 = ptype f" using s1 by (simp_all add: same_stream_def)
  let ?c1 = "set_fd (ptype f1) (- 2) c0"
  let ?hs1 = "(hosts w)[?i := (hosts w ! ?i)\<lparr>cp := Some ?c1\<rparr>]"
  from read_eof_mode_join [OF c1 M m, of col ?hs1 ?c1 "outs w"]
  obtain f2 b where re: "read_eof_mode opt col ?hs1 (f1, ?c1, outs w)
        = Inr (f2, ?c1\<lparr>output_buf := Some b\<rparr>, outs w)"
    and b: "length b = Suc m"
      "take (length (take m (x @ concat chunks))) b = take m (x @ concat chunks)"
      "b ! length (take m (x @ concat chunks)) = NUL"
    by blast
  let ?w' = "w\<lparr>hosts := (hosts w)[?i := (hosts w ! ?i)\<lparr>cp := Some (?c1\<lparr>output_buf := Some b\<rparr>)\<rparr>],
               watcher := filter (\<lambda>e. fst e \<noteq> get_fd (ptype f1) c0) (watcher w),
               outs := outs w\<rparr>"
  have "read_eof opt col f1 w = Inr (f2, ?w')"
    using re hc d h1 by (simp add: read_eof_def Let_def)
  then have r: "read_active_fd opt col f w (map Data chunks @ [Data []]) = Inr (True, f2, ?w')"
    using rl hc by (simp add: read_active_fd_def)
  have hc': "host_cp (hosts ?w') ?i = Inr (?c1\<lparr>output_buf := Some b\<rparr>)"
    using hi by (simp add: host_cp_def deref_def)
  show ?thesis
    using r hc' b by (intro exI [of _ f2] exI [of _ ?w'] exI [of _ "?c1\<lparr>output_buf := Some b\<rparr>"]
        exI [of _ b]) simp
qed

lemma read_calls_join:
  assumes M: "max_output_length opt = int m"
    and m: "mode opt = MODE_JOIN" and ns: "\<not> silent opt"
    and chl: "\<forall>c\<in>set lst. c \<noteq> []"
    and cx: "captured opt x f" and hc: "host_cp (hosts w) (host f) = Inr c0"
    and ch: "\<forall>cs\<in>set css. \<forall>c\<in>set cs. c \<noteq> []"
  shows "\<exists>f' w' c b.
           read_calls opt col f w (map (map Data) css @ [map Data lst @ [Data []]])
             = Inr (True, f', w') \<and>
           host_cp (hosts w') (host f) = Inr c \<and> output_buf c = Some b \<and>
           length b = Suc m \<and>
           take (length (take m (x @ concat (concat css) @ concat lst))) b
             = take m (x @ concat (concat css) @ concat lst) \<and>
           b ! length (take m (x @ concat (concat css) @ concat lst)) = NUL"
  using cx hc ch
proof (induction css arbitrary: x f)
  case Nil
  from read_active_fd_join_eof [OF Nil.prems(1) M m ns chl Nil.prems(2), of col]
  show ?case by auto
next
  case (Cons cs css)
  have ch1: "\<forall>c\<in>set cs. c \<noteq> []" and ch2: "\<forall>cs\<in>set css. \<forall>c\<in>set cs. c \<noteq> []"
    using Cons.prems(3) by simp_all
  from read_active_fd_join_block [OF Cons.prems(1) M m ns ch1 Cons.prems(2), of col]
  obtain f1 where s1: "same_stream f f1"
    and c1: "captured opt (take m (x @ concat cs)) f1"
    and r1: "read_active_fd opt col f w (map Data cs) = Inr (False, f1, w)"
    by blast
  have hf: "host f1 = host f" using s1 by (simp add: same_stream_def)
  have hc1: "host_cp (hosts w) (host f1) = Inr c0" using Cons.prems(2) hf by simp
  have tk: "take m (take m (x @ concat cs) @ concat (concat css) @ concat lst)
            = take m (x @ concat (concat (cs # css)) @ concat lst)"
    by (simp add: min_def)
  from Cons.IH [OF c1 hc1 ch2] obtain f' w' c b where
    r2: "read_calls opt col f1 w (map (map Data) css @ [map Data lst @ [Data []]])
             = Inr (True, f', w')"
    and b: "host_cp (hosts w') (host f1) = Inr c" "output_buf c = Some b" "length b = Suc m"
      "take (length (take m (take m (x @ concat cs) @ concat (concat css) @ concat lst))) b
             = take m (take m (x @ concat cs) @ concat (concat css) @ concat lst)"
      "b ! length (take m (take m (x @ concat cs) @ concat (concat css) @ concat lst)) = NUL"
    by blast
  have "read_calls opt col f w (map (map Data) (cs # css) @ [map Data lst @ [Data []]])
        = Inr (True, f', w')"
    using r1 r2 by simp
  moreover have "host_cp (hosts w') (host f) = Inr c" using b(1) hf by simp
  ultimately show ?case using b(2-) unfolding tk
    by (intro exI [of _ f'] exI [of _ w'] exI [of _ c] exI [of _ b] conjI)
qed

subsection \<open>Join mode captures a prefix of the stream\<close>

text \<open>
  Claim C1. In join mode (the options passed the checks of \<open>parse_arguments\<close> with
  \<open>-j\<close>, the cap within the range that \<open>fdev_create\<close> can allocate), take a stream
  context fresh from \<open>fdev_create\<close> and a stream delivered over any number of calls of
  \<open>read_active_fd\<close>, each reading any non-empty chunks until the next read would
  block, the last one reaching end of file. The last call leaves on the host's child
  record a buffer of \<open>max_output_length + 1\<close> bytes that starts with the first
  \<open>max_output_length\<close> bytes of the stream (all of it when it is shorter), followed by
  a nul. Bytes past the cap are not stored.
\<close>
theorem join_captures_prefix:
  assumes pa: "parse_arguments_checks opt0 True gr = Inr opt"
    and bd: "max_output_length opt \<le> INT_MAX - 1"
    and fc: "fdev_create opt env (hosts w) i t = Inr f"
    and ch: "\<forall>cs\<in>set css. \<forall>c\<in>set cs. c \<noteq> []" and chl: "\<forall>c\<in>set lst. c \<noteq> []"
  shows "\<exists>f' w' c b.
           read_calls opt col f w (map (map Data) css @ [map Data lst @ [Data []]])
             = Inr (True, f', w') \<and>
           host_cp (hosts w') i = Inr c \<and> output_buf c = Some b \<and>
           int (length b) = max_output_length opt + 1 \<and>
           take (min (length (concat (concat css) @ concat lst)) (nat (max_output_length opt))) b
             = take (nat (max_output_length opt)) (concat (concat css) @ concat lst) \<and>
           b ! min (length (concat (concat css) @ concat lst)) (nat (max_output_length opt)) = NUL"
proof -
  from parse_arguments_checks_join [OF pa]
  have m: "mode opt = MODE_JOIN" and ns: "\<not> silent opt" and M0: "0 < max_output_length opt"
    by simp_all
  define m where "m = nat (max_output_length opt)"
  have M: "max_output_length opt = int m" using M0 by (simp add: m_def)
  from fdev_create_join [OF fc m] M0 obtain c0 where c0: "captured opt [] f"
    and hf: "host f = i" and hc: "host_cp (hosts w) (host f) = Inr c0"
    by auto
  from read_calls_join [OF M m ns chl c0 hc ch, of col]
  obtain f' w' c b where
    r: "read_calls opt col f w (map (map Data) css @ [map Data lst @ [Data []]])
             = Inr (True, f', w')"
    and b: "host_cp (hosts w') (host f) = Inr c" "output_buf c = Some b" "length b = Suc m"
      "take (length (take m ([] @ concat (concat css) @ concat lst))) b
             = take m ([] @ concat (concat css) @ concat lst)"
      "b ! length (take m ([] @ concat (concat css) @ concat lst)) = NUL"
    by blast
  define st where "st = concat (concat css) @ concat lst"
  note b' = b [unfolded append_Nil, folded st_def]
  have len: "length (take m st) = min (length st) m" by simp
  have "host_cp (hosts w') i = Inr c \<and> output_buf c = Some b \<and>
        int (length b) = max_output_length opt + 1 \<and>
        take (min (length st) (nat (max_output_length opt))) b
          = take (nat (max_output_length opt)) st \<and>
        b ! min (length st) (nat (max_output_length opt)) = NUL"
    using b'(1,2,3) b'(4,5) [unfolded len] hf by (simp add: M)
  then show ?thesis
    using r unfolding st_def
    by (intro exI [of _ f'] exI [of _ w'] exI [of _ c] exI [of _ b] conjI) simp_all
qed

theorem join_captures_prefix_witness:
  "parse_arguments_checks (join_opts\<lparr>mode := MODE_LINE_BY_LINE\<rparr>) True False = Inr join_opts \<and>
   max_output_length join_opts \<le> INT_MAX - 1 \<and>
   fdev_create join_opts demo_env (hosts join_world) 0 PIPE_STDIO = Inr join_fdev \<and>
   (\<exists>f' w' c b.
      read_calls join_opts no_colors join_fdev join_world
        (map (map Data) [[''a''], [], [''b'', ''c'']] @ [map Data [''de''] @ [Data []]])
        = Inr (True, f', w') \<and>
      host_cp (hosts w') 0 = Inr c \<and> output_buf c = Some b \<and>
      int (length b) = 5 \<and> take 4 b = ''abcd'' \<and> b ! 4 = NUL)"
proof -
  have pa: "parse_arguments_checks (join_opts\<lparr>mode := MODE_LINE_BY_LINE\<rparr>) True False = Inr join_opts"
    by code_simp
  have bd: "max_output_length join_opts \<le> INT_MAX - 1" by (simp add: join_opts_def INT_MAX_def)
  have fc: "fdev_create join_opts demo_env (hosts join_world) 0 PIPE_STDIO = Inr join_fdev"
    by code_simp
  have ch: "\<forall>cs\<in>set [[''a''], [], [''b'', ''c'']]. \<forall>c\<in>set cs. c \<noteq> []" by simp
  have chl: "\<forall>c\<in>set [''de'']. c \<noteq> []" by simp
  have e: "max_output_length join_opts = 4" by (simp add: join_opts_def)
  from join_captures_prefix [OF pa bd fc ch chl, of no_colors]
  show ?thesis using pa bd fc unfolding e by (simp add: eval_nat_numeral)
qed

lemma fgets_all_long:
  assumes "NL \<notin> set l" "k \<le> length cur + length l" "length cur < k"
  shows "\<exists>r'. fgets_all k cur (l @ r) = (cur @ take (k - length cur) l) # r'"
  using assms
proof (induction l arbitrary: cur)
  case Nil
  then show ?case by simp
next
  case (Cons c l)
  show ?case
  proof (cases "Suc (length cur) \<ge> k")
    case True
    then have "k - length cur = Suc 0" using Cons.prems by simp
    then show ?thesis using True Cons.prems by simp
  next
    case False
    then have "\<exists>r'. fgets_all k (cur @ [c]) (l @ r) =
        ((cur @ [c]) @ take (k - length (cur @ [c])) l) # r'"
      using Cons.prems by (intro Cons.IH) auto
    moreover have "k - length cur = Suc (k - length (cur @ [c]))" using False by simp
    ultimately show ?thesis using False Cons.prems by auto
  qed
qed

lemma parse_hosts_loop_no_newline:
  assumes "t \<noteq> []" "NUL \<notin> set t" "NL \<notin> set t" "hd t \<noteq> CHR ''#''" "hd t \<noteq> CHR '' ''"
  shows "parse_hosts_loop jk ok (t # r) hs = Inl (Exit 2)"
proof -
  have "\<forall>c\<in>set t. c \<noteq> NUL" using assms(2) by auto
  then have tw: "takeWhile (\<lambda>c. c \<noteq> NUL) t = t" by (simp only: takeWhile_eq_all_conv)
  have "hd t \<in> set t" using assms(1) by simp
  then have "hd t \<noteq> NL" "hd t \<noteq> NUL" using assms(2,3) by auto
  then show ?thesis using assms by (simp add: tw lsplit_str_def Let_def)
qed

lemma fgets_all_line:
  assumes "NL \<notin> set x" "length cur + length x < k"
  shows "fgets_all k cur (x @ NL # rest) = (cur @ x @ [NL]) # fgets_all k [] rest"
  using assms
proof (induction x arbitrary: cur)
  case Nil
  then show ?case by simp
next
  case (Cons c x)
  have "fgets_all k (cur @ [c]) (x @ NL # rest) = ((cur @ [c]) @ x @ [NL]) # fgets_all k [] rest"
    using Cons.prems by (intro Cons.IH) auto
  moreover have "c \<noteq> NL" using Cons.prems(1) by auto
  ultimately show ?case using Cons.prems by simp
qed

lemma fgets_all_lines:
  assumes "\<forall>x\<in>set ls. NL \<notin> set x \<and> length x < k"
  shows "fgets_all k [] (concat (map (\<lambda>x. x @ [NL]) ls) @ rest)
         = map (\<lambda>x. x @ [NL]) ls @ fgets_all k [] rest"
  using assms
proof (induction ls)
  case Nil
  then show ?case by simp
next
  case (Cons x ls)
  have "fgets_all k [] (x @ NL # (concat (map (\<lambda>x. x @ [NL]) ls) @ rest))
        = ([] @ x @ [NL]) # fgets_all k [] (concat (map (\<lambda>x. x @ [NL]) ls) @ rest)"
    using Cons.prems by (intro fgets_all_line) auto
  then show ?case using Cons by simp
qed

lemma takeWhile_no_nul: "NUL \<notin> set x \<Longrightarrow> takeWhile (\<lambda>c. c \<noteq> NUL) (x @ [NL]) = x @ [NL]"
proof -
  assume "NUL \<notin> set x"
  then have "\<forall>c\<in>set (x @ [NL]). c \<noteq> NUL" by auto
  then show ?thesis by (simp only: takeWhile_eq_all_conv)
qed

lemma takeWhile_line: "NL \<notin> set x \<Longrightarrow> takeWhile (\<lambda>c. c \<noteq> NL) (x @ [NL]) = x"
  by (induction x) auto

lemma host_alloc_ok: "host_alloc jk True nm = Inr (host_create nm)"
  by (simp add: host_alloc_def safe_malloc_def sizeof_Host_def)

lemma host_alloc_fail: "host_alloc jk False nm = Inl (Exit 3)"
  by (simp add: host_alloc_def safe_malloc_def sizeof_Host_def)

lemma parse_hosts_loop_line:
  assumes "NL \<notin> set x" "NUL \<notin> set x"
  shows "parse_hosts_loop jk ok ((x @ [NL]) # rest) hs =
           (if x = [] \<or> hd x = CHR ''#'' \<or> hd x = CHR '' '' then parse_hosts_loop jk ok rest hs
            else bindE (host_alloc jk ok x) (\<lambda>h. parse_hosts_loop jk ok rest (hs @ [h])))"
proof (cases x)
  case Nil
  then show ?thesis by simp
next
  case (Cons a y)
  have a: "a \<noteq> NL" "a \<noteq> NUL" using assms Cons by auto
  have tw: "takeWhile (\<lambda>c. c \<noteq> NUL) ((a # y) @ [NL]) = (a # y) @ [NL]"
    using assms(2) Cons by (intro takeWhile_no_nul) simp
  have tl: "takeWhile (\<lambda>c. c \<noteq> NL) ((a # y) @ [NL]) = a # y"
    using assms(1) Cons by (intro takeWhile_line) simp
  have nl: "NL \<in> set ((a # y) @ [NL])" by simp
  show ?thesis
    unfolding Cons parse_hosts_loop.simps tw Let_def lsplit_str_def tl
    using a nl by simp
qed

lemma parse_hosts_loop_lines:
  assumes "\<forall>x\<in>set ls. NL \<notin> set x \<and> NUL \<notin> set x"
  shows "\<exists>hs'. parse_hosts_loop jk True (map (\<lambda>x. x @ [NL]) ls @ rest) hs
               = parse_hosts_loop jk True rest hs'"
  using assms
proof (induction ls arbitrary: hs)
  case Nil
  then show ?case by auto
next
  case (Cons x ls)
  have x: "NL \<notin> set x" "NUL \<notin> set x" and ls: "\<forall>x\<in>set ls. NL \<notin> set x \<and> NUL \<notin> set x"
    using Cons.prems by simp_all
  show ?case
  proof (cases "x = [] \<or> hd x = CHR ''#'' \<or> hd x = CHR '' ''")
    case True
    then have "parse_hosts_loop jk True (map (\<lambda>x. x @ [NL]) (x # ls) @ rest) hs
          = parse_hosts_loop jk True (map (\<lambda>x. x @ [NL]) ls @ rest) hs"
      using parse_hosts_loop_line [OF x, of jk True "map (\<lambda>x. x @ [NL]) ls @ rest" hs] by simp
    then show ?thesis using Cons.IH [OF ls, of hs] by simp
  next
    case False
    then have "parse_hosts_loop jk True (map (\<lambda>x. x @ [NL]) (x # ls) @ rest) hs
          = parse_hosts_loop jk True (map (\<lambda>x. x @ [NL]) ls @ rest) (hs @ [host_create x])"
      using parse_hosts_loop_line [OF x, of jk True "map (\<lambda>x. x @ [NL]) ls @ rest" hs]
      by (simp add: host_alloc_ok)
    then show ?thesis using Cons.IH [OF ls, of "hs @ [host_create x]"] by simp
  qed
qed

lemma parse_hosts_too_long:
  assumes ls: "\<forall>x\<in>set ls. NL \<notin> set x \<and> NUL \<notin> set x \<and> length x < HOST_NAME_MAX - 1"
    and l: "NL \<notin> set l" "NUL \<notin> set l" "HOST_NAME_MAX - 1 \<le> length l"
    "hd l \<noteq> CHR ''#''" "hd l \<noteq> CHR '' ''"
  shows "parse_hosts jk True ferr (concat (map (\<lambda>x. x @ [NL]) ls) @ l @ r) = Inl (Exit 2)"
proof -
  define t where "t = take (HOST_NAME_MAX - 1) l"
  from fgets_all_long [of l "HOST_NAME_MAX - 1" "[]" r] l
  obtain r' where f: "fgets_all (HOST_NAME_MAX - 1) [] (l @ r) = t # r'"
    by (auto simp: HOST_NAME_MAX_def t_def)
  have ne: "t \<noteq> []" using l(3) by (auto simp: HOST_NAME_MAX_def t_def)
  have nn: "NUL \<notin> set t" "NL \<notin> set t" using l(1,2) by (auto simp: t_def dest: in_set_takeD)
  have hd: "hd t = hd l" using ne by (cases l) (auto simp: HOST_NAME_MAX_def t_def)
  have fl: "fgets_all (HOST_NAME_MAX - 1) [] (concat (map (\<lambda>x. x @ [NL]) ls) @ l @ r)
        = map (\<lambda>x. x @ [NL]) ls @ t # r'"
    using fgets_all_lines [of ls "HOST_NAME_MAX - 1" "l @ r"] ls f by simp
  from parse_hosts_loop_lines [of ls jk "t # r'" "[]"] ls
  obtain hs' where "parse_hosts_loop jk True (map (\<lambda>x. x @ [NL]) ls @ t # r') []
      = parse_hosts_loop jk True (t # r') hs'"
    by auto
  then have "parse_hosts_loop jk True (map (\<lambda>x. x @ [NL]) ls @ t # r') [] = Inl (Exit 2)"
    using parse_hosts_loop_no_newline [OF ne nn, of jk True r' hs'] hd l(4,5) by simp
  then show ?thesis unfolding parse_hosts_def fl by simp
qed

lemma parse_hosts_read_error:
  assumes ls: "\<forall>x\<in>set ls. NL \<notin> set x \<and> NUL \<notin> set x \<and> length x < HOST_NAME_MAX - 1"
  shows "parse_hosts jk True True (concat (map (\<lambda>x. x @ [NL]) ls)) = Inl (Exit 2)"
proof -
  have fl: "fgets_all (HOST_NAME_MAX - 1) [] (concat (map (\<lambda>x. x @ [NL]) ls))
        = map (\<lambda>x. x @ [NL]) ls"
    using fgets_all_lines [of ls "HOST_NAME_MAX - 1" "[]"] ls by simp
  from parse_hosts_loop_lines [of ls jk "[]" "[]"] ls
  obtain hs' where "parse_hosts_loop jk True (map (\<lambda>x. x @ [NL]) ls) [] = Inr hs'"
    by auto
  then show ?thesis unfolding parse_hosts_def fl by simp
qed

lemma parse_hosts_loop_no_memory:
  assumes "\<forall>x\<in>set ls. NL \<notin> set x \<and> NUL \<notin> set x"
    and "\<exists>x\<in>set ls. x \<noteq> [] \<and> hd x \<noteq> CHR ''#'' \<and> hd x \<noteq> CHR '' ''"
  shows "parse_hosts_loop jk False (map (\<lambda>x. x @ [NL]) ls @ rest) hs = Inl (Exit 3)"
  using assms
proof (induction ls arbitrary: hs)
  case Nil
  then show ?case by simp
next
  case (Cons x ls)
  have x: "NL \<notin> set x" "NUL \<notin> set x" and ls: "\<forall>x\<in>set ls. NL \<notin> set x \<and> NUL \<notin> set x"
    using Cons.prems by simp_all
  show ?case
  proof (cases "x = [] \<or> hd x = CHR ''#'' \<or> hd x = CHR '' ''")
    case True
    then have ex: "\<exists>x\<in>set ls. x \<noteq> [] \<and> hd x \<noteq> CHR ''#'' \<and> hd x \<noteq> CHR '' ''"
      using Cons.prems(2) by auto
    have "parse_hosts_loop jk False (map (\<lambda>x. x @ [NL]) (x # ls) @ rest) hs
          = parse_hosts_loop jk False (map (\<lambda>x. x @ [NL]) ls @ rest) hs"
      using True parse_hosts_loop_line [OF x, of jk False "map (\<lambda>x. x @ [NL]) ls @ rest" hs]
      by simp
    then show ?thesis using Cons.IH [OF ls ex, of hs] by simp
  next
    case False
    then show ?thesis
      using parse_hosts_loop_line [OF x, of jk False "map (\<lambda>x. x @ [NL]) ls @ rest" hs]
      by (simp add: host_alloc_fail)
  qed
qed

lemma parse_hosts_no_memory:
  assumes "\<forall>x\<in>set ls. NL \<notin> set x \<and> NUL \<notin> set x \<and> length x < HOST_NAME_MAX - 1"
    and "\<exists>x\<in>set ls. x \<noteq> [] \<and> hd x \<noteq> CHR ''#'' \<and> hd x \<noteq> CHR '' ''"
  shows "parse_hosts jk False ferr (concat (map (\<lambda>x. x @ [NL]) ls) @ r) = Inl (Exit 3)"
proof -
  have fl: "fgets_all (HOST_NAME_MAX - 1) [] (concat (map (\<lambda>x. x @ [NL]) ls) @ r)
        = map (\<lambda>x. x @ [NL]) ls @ fgets_all (HOST_NAME_MAX - 1) [] r"
    using fgets_all_lines [of ls "HOST_NAME_MAX - 1" r] assms(1) by simp
  have "parse_hosts_loop jk False
          (map (\<lambda>x. x @ [NL]) ls @ fgets_all (HOST_NAME_MAX - 1) [] r) [] = Inl (Exit 3)"
    using assms by (intro parse_hosts_loop_no_memory) auto
  then show ?thesis unfolding parse_hosts_def fl by simp
qed

lemma read_loop_append:
  "read_loop opt col f w rs = Inr (False, f', w') \<Longrightarrow>
   read_loop opt col f w (rs @ rest) = read_loop opt col f' w' rest"
proof (induction rs arbitrary: f w)
  case Nil
  then show ?case by simp
next
  case (Cons r rs)
  show ?case
  proof (cases r)
    case ReadFail
    then show ?thesis using Cons.prems by simp
  next
    case (Data buf)
    show ?thesis
    proof (cases "buf = []")
      case True
      then show ?thesis using Cons.prems Data by (auto simp: bindE_Inr_iff)
    next
      case False
      show ?thesis
      proof (cases "silent opt")
        case True
        then show ?thesis using Cons False Data by simp
      next
        case ns: False
        from Cons.prems False Data ns obtain f1 out1 where
          hb: "handle_bytes opt col (hosts w) (f, outs w) buf = Inr (f1, out1)"
          and rl: "read_loop opt col f1 (w\<lparr>outs := out1\<rparr>) rs = Inr (False, f', w')"
          by (auto simp: bindE_Inr_iff)
        from Cons.IH [OF rl] hb False Data ns show ?thesis by simp
      qed
    qed
  qed
qed

lemma read_active_fd_read_fails:
  assumes "read_active_fd opt col f w rs = Inr (False, f', w')"
  shows "read_active_fd opt col f w (rs @ ReadFail # rest) = Inl (Exit 3)"
proof -
  from assms obtain c where c: "host_cp (hosts w) (host f) = Inr c"
    and rl: "read_loop opt col f w rs = Inr (False, f', w')"
    by (auto simp: read_active_fd_def bindE_Inr_iff)
  from read_loop_append [OF rl, of "ReadFail # rest"] c
  show ?thesis by (simp add: read_active_fd_def)
qed


lemma push_arguments_loop_too_many:
  "MAX_ARGS - 2 < int (length base) + int (length args) \<Longrightarrow> args \<noteq> [] \<Longrightarrow>
   push_arguments_loop base args = Inl (Exit 2)"
proof (induction args arbitrary: base)
  case Nil
  then show ?case by simp
next
  case (Cons a args)
  show ?case
  proof (cases "int (length base) \<ge> MAX_ARGS - 2")
    case True
    then show ?thesis by simp
  next
    case False
    then have "args \<noteq> []" using Cons.prems by auto
    then have "push_arguments_loop (base @ [a]) args = Inl (Exit 2)"
      using Cons.prems by (intro Cons.IH) auto
    then show ?thesis using False by simp
  qed
qed

lemma build_ssh_command_loop_too_many:
  "0 \<le> idx \<Longrightarrow> int (length command) = sz \<Longrightarrow> sz \<le> idx + int (length args) \<Longrightarrow> idx < sz \<Longrightarrow>
   build_ssh_command_loop command idx sz args = Inl (Exit 2)"
proof (induction args arbitrary: command idx)
  case Nil
  then show ?case by simp
next
  case (Cons a args)
  show ?case
  proof (cases "idx + 1 \<ge> sz")
    case True
    then show ?thesis using Cons.prems by simp
  next
    case False
    then have "build_ssh_command_loop (command[nat idx := Some a]) (idx + 1) sz args = Inl (Exit 2)"
      using Cons.prems by (intro Cons.IH) auto
    then show ?thesis using False Cons.prems by simp
  qed
qed

lemma spawn_child_process_fails:
  assumes i: "i < length (hosts w)" and fresh: "cp (hosts w ! i) = None"
    and b: "\<not> isl (build_ssh_command (base_ssh_command cfg) (remote_command cfg) (hosts w ! i)
                     (replicate (nat MAX_ARGS) None) MAX_ARGS)"
    and f: "(\<exists>t. pipe_of_mode (mode (opts_of cfg)) t \<and> pipe_fd (env_of cfg) i t < 0) \<or>
            fork_pid (env_of cfg) i = -1 \<or> \<not> malloc_ok (env_of cfg) \<or>
            \<not> clock_ok (env_of cfg) (ticks w)"
  shows "spawn_child_process cfg i w = Inl (Exit 3)"
proof -
  obtain cmd where cmd: "build_ssh_command (base_ssh_command cfg) (remote_command cfg)
      (hosts w ! i) (replicate (nat MAX_ARGS) None) MAX_ARGS = Inr cmd"
    using b by (cases "build_ssh_command (base_ssh_command cfg) (remote_command cfg)
      (hosts w ! i) (replicate (nat MAX_ARGS) None) MAX_ARGS") auto
  let ?env = "env_of cfg"
  let ?rest = "\<lambda>c. bindE (if fork_pid ?env i = -1 then Inl (Exit 3) else Inr ()) (\<lambda>_.
     bindE (safe_malloc (junk ?env) (malloc_ok ?env) sizeof_ChildProcess) (\<lambda>_.
     bindE (monotonic_time_ms ?env (ticks w)) (\<lambda>t.
       Inr (w\<lparr>hosts := (hosts w)[i := (hosts w ! i)\<lparr>cp := Some
                       (c\<lparr>pid := fork_pid ?env i, started_time := t\<rparr>)\<rparr>],
              ticks := Suc (ticks w)\<rparr>))))"
  have rest: "\<And>c. \<not> (\<exists>t. pipe_of_mode (mode (opts_of cfg)) t \<and> pipe_fd ?env i t < 0) \<Longrightarrow>
      ?rest c = Inl (Exit 3)"
    using f by (auto simp: safe_malloc_def sizeof_ChildProcess_def monotonic_time_ms_def)
  have sp: "spawn_child_process cfg i w =
      bindE (case mode (opts_of cfg) of
              MODE_JOIN \<Rightarrow>
                bindE (make_pipe ?env i PIPE_STDIO) (\<lambda>io.
                  Inr (child_process_create\<lparr>stdio_fd := io\<rparr>))
            | _ \<Rightarrow>
                bindE (make_pipe ?env i PIPE_STDOUT) (\<lambda>out.
                bindE (make_pipe ?env i PIPE_STDERR) (\<lambda>err.
                  Inr (child_process_create\<lparr>stdout_fd := out, stderr_fd := err\<rparr>)))) ?rest"
    using i fresh cmd by (simp add: spawn_child_process_def deref_def)
  show ?thesis
  proof (cases "\<exists>t. pipe_of_mode (mode (opts_of cfg)) t \<and> pipe_fd ?env i t < 0")
    case True
    then obtain t where t: "pipe_of_mode (mode (opts_of cfg)) t" "pipe_fd ?env i t < 0" by blast
    show ?thesis unfolding sp using t
      by (cases "mode (opts_of cfg)"; cases t)
         (auto simp: pipe_of_mode_def make_pipe_def)
  next
    case False
    then have ok: "\<And>t. pipe_of_mode (mode (opts_of cfg)) t \<Longrightarrow> \<not> pipe_fd ?env i t < 0" by blast
    show ?thesis unfolding sp using rest [OF False] ok
      by (cases "mode (opts_of cfg)") (simp_all add: pipe_of_mode_def make_pipe_def)
  qed
qed

lemma register_child_process_fd_no_memory:
  assumes "host_cp (hosts w) i = Inr c" "\<not> malloc_ok (env_of cfg)"
  shows "register_child_process_fd cfg i t w = Inl (Exit 3)"
proof -
  have "deref (hosts w) i = Inr (hosts w ! i)" "cp (hosts w ! i) \<noteq> None"
    using assms(1) by (auto simp: host_cp_def deref_def split: if_splits option.splits)
  then show ?thesis using assms(2)
    by (simp add: register_child_process_fd_def fdev_create_def safe_malloc_def
        sizeof_FdEvent_def)
qed

lemma wait_for_child_fails:
  assumes "host_cp (hosts w) i = Inr c"
    "\<not> waitpid_ok (env_of cfg) i \<or> \<not> clock_ok (env_of cfg) (ticks w)"
  shows "wait_for_child cfg i w = Inl (Exit 3)"
proof -
  have "deref (hosts w) i = Inr (hosts w ! i)"
    using assms(1) by (auto simp: host_cp_def deref_def split: if_splits)
  then show ?thesis using assms
    by (auto simp: wait_for_child_def monotonic_time_ms_def)
qed

lemma main_loop_while_epoll_wait_fails:
  assumes "cur_host s < length (hosts (world s)) \<or> 0 < outstanding s"
    "outstanding s \<le> max_jobs (opts_of cfg)"
    "case admit cfg (length (hosts (world s)) - cur_host s) s of
       Inl e \<Rightarrow> False
     | Inr (s1, tr1) \<Rightarrow> \<not> epoll_wait_ok (env_of cfg) (polls (world s1))"
  shows "main_loop_while cfg n s (events # script) = Inl (Exit 3)"
proof -
  from assms(3) obtain s1 tr1 where
    a: "admit cfg (length (hosts (world s)) - cur_host s) s = Inr (s1, tr1)"
    and e: "\<not> epoll_wait_ok (env_of cfg) (polls (world s1))"
    by (auto split: sum.splits)
  show ?thesis
    by (subst main_loop_while.simps) (use assms(1,2) a e in \<open>simp add: epoll_wait_def\<close>)
qed

lemma exits_with_bindE [intro!]:
  "exits_with C m \<Longrightarrow> (\<And>x. m = Inr x \<Longrightarrow> exits_with C (f x)) \<Longrightarrow> exits_with C (bindE m f)"
  by (cases m) (auto simp: exits_with_def)

lemma exits_with_simps [simp]:
  "exits_with C (Inr x)" "exits_with C (Inl AssertFailed)" "exits_with C (Inl MemoryFault)"
  "exits_with C (Inl Overflow)" "exits_with C (Inl NotRegistered)"
  "exits_with C (Inl (Exit k)) = (k \<in> C)"
  by (auto simp: exits_with_def)

lemma exits_with_mono: "exits_with C r \<Longrightarrow> C \<subseteq> D \<Longrightarrow> exits_with D r"
  by (auto simp: exits_with_def)

lemma exits_assert [simp]: "exits_with C (assert b)"
  by (simp add: assert_def)

lemma exits_poke [simp]: "exits_with C (poke f i c)"
  by (simp add: poke_def split: option.splits)

lemma exits_peek [simp]: "exits_with C (peek f i)"
  by (simp add: peek_def split: option.splits)

lemma exits_c_str [simp]: "exits_with C (c_str b)"
  by (simp add: c_str_def)

lemma exits_deref [simp]: "exits_with C (deref hs i)"
  by (simp add: deref_def)

lemma exits_host_cp [simp]: "exits_with C (host_cp hs i)"
  by (auto simp: host_cp_def split: option.splits)

lemma exits_int_add [simp]: "exits_with C (int_add a b)"
  by (simp add: int_add_def)

lemma exits_safe_malloc [simp]: "3 \<in> C \<Longrightarrow> exits_with C (safe_malloc jk ok sz)"
  by (auto simp: safe_malloc_def)

lemma exits_print_line_buffer [simp]: "exits_with C (print_line_buffer opt col hs f out)"
  by (auto simp: print_line_buffer_def split: option.splits)

lemma exits_line_by_line_step [simp]: "exits_with C (line_by_line_step opt col hs fo c)"
  by (cases fo) (auto simp: line_by_line_step_def)

lemma exits_line_by_line_loop [simp]: "exits_with C (line_by_line_loop opt col hs fo cs)"
  by (induction cs arbitrary: fo) auto

lemma exits_process_data_group [simp]: "exits_with C (process_data_group opt col hs fo buf)"
  by (cases fo) (auto simp: process_data_group_def Let_def)

lemma exits_process_data_join_loop [simp]: "exits_with C (process_data_join_loop opt f cs)"
  by (induction cs arbitrary: f) auto

lemma exits_handle_bytes [simp]: "exits_with C (handle_bytes opt col hs fo buf)"
  by (cases fo) (auto simp: handle_bytes_def process_data_join_def process_data_line_by_line_def
      split: ProgMode.splits)

lemma exits_read_eof_mode [simp]: "exits_with C (read_eof_mode opt col hs fco)"
  by (cases fco) (auto simp: read_eof_mode_def split: ProgMode.splits)

lemma exits_read_eof [simp]: "exits_with C (read_eof opt col f w)"
  by (auto simp: read_eof_def Let_def)

lemma exits_read_loop [simp]: "3 \<in> C \<Longrightarrow> exits_with C (read_loop opt col f w rs)"
  by (induction opt col f w rs rule: read_loop.induct) auto

lemma exits_read_active_fd [simp]: "3 \<in> C \<Longrightarrow> exits_with C (read_active_fd opt col f w rs)"
  by (auto simp: read_active_fd_def)

lemma exits_fdev_create [simp]: "3 \<in> C \<Longrightarrow> exits_with C (fdev_create opt env hs i t)"
  by (auto simp: fdev_create_def split: ProgMode.splits)

lemma exits_register [simp]: "3 \<in> C \<Longrightarrow> exits_with C (register_child_process_fds cfg i w)"
  by (auto simp: register_child_process_fds_def register_child_process_fd_def
      split: ProgMode.splits)

lemma exits_wait_for_child [simp]: "3 \<in> C \<Longrightarrow> exits_with C (wait_for_child cfg i w)"
  by (auto simp: wait_for_child_def monotonic_time_ms_def Let_def)

lemma exits_build_loop:
  "2 \<in> C \<or> idx + int (length args) < sz \<Longrightarrow>
   exits_with C (build_ssh_command_loop command idx sz args)"
  by (induction args arbitrary: command idx) auto

lemma exits_build:
  "2 \<in> C \<or> int (length base) + 1 + int (length remote) < sz \<Longrightarrow>
   exits_with C (build_ssh_command base remote h command sz)"
  by (auto simp: build_ssh_command_def intro!: exits_build_loop)

lemma exits_spawn:
  "2 \<in> C \<or> int (length (base_ssh_command cfg)) + 1 + int (length (remote_command cfg))
             < MAX_ARGS \<Longrightarrow> 3 \<in> C \<Longrightarrow>
   exits_with C (spawn_child_process cfg i w)"
  by (auto simp: spawn_child_process_def make_pipe_def monotonic_time_ms_def
      intro!: exits_build split: ProgMode.splits)

lemma exits_admit_host:
  "2 \<in> C \<or> int (length (base_ssh_command cfg)) + 1 + int (length (remote_command cfg))
             < MAX_ARGS \<Longrightarrow> 3 \<in> C \<Longrightarrow>
   exits_with C (admit_host cfg s)"
  by (auto simp: admit_host_def Let_def intro!: exits_spawn)

lemma exits_admit:
  "2 \<in> C \<or> int (length (base_ssh_command cfg)) + 1 + int (length (remote_command cfg))
             < MAX_ARGS \<Longrightarrow> 3 \<in> C \<Longrightarrow>
   exits_with C (admit cfg k s)"
  by (induction k arbitrary: s) (auto intro!: exits_admit_host)

lemma exits_handle_event [simp]: "3 \<in> C \<Longrightarrow> exits_with C (handle_event cfg n s ev)"
  by (auto simp: handle_event_def Let_def split: option.splits)

lemma exits_handle_events [simp]: "3 \<in> C \<Longrightarrow> exits_with C (handle_events cfg n s evs)"
  by (induction evs arbitrary: s) auto

lemma exits_epoll_wait [simp]: "3 \<in> C \<Longrightarrow> exits_with C (epoll_wait cfg s)"
  by (simp add: epoll_wait_def)

lemma exits_main_loop_while:
  assumes "2 \<in> C \<or> int (length (base_ssh_command cfg)) + 1 + int (length (remote_command cfg))
             < MAX_ARGS" "3 \<in> C"
  shows "exits_with C (main_loop_while cfg n s script)"
proof (induction script arbitrary: s)
  case Nil
  show ?case by (subst main_loop_while.simps) (use assms in \<open>auto intro!: exits_admit\<close>)
next
  case (Cons ev script)
  show ?case by (subst main_loop_while.simps) (use assms Cons in \<open>auto intro!: exits_admit\<close>)
qed

lemma exits_main_loop:
  assumes "2 \<in> C \<or> int (length (base_ssh_command cfg)) + 1 + int (length (remote_command cfg))
             < MAX_ARGS" "3 \<in> C"
  shows "exits_with C (main_loop cfg n w script)"
  using exits_main_loop_while [OF assms]
  by (auto simp: main_loop_def Let_def simp del: main_loop_while.simps)

lemma main_loop_exit_code:
  assumes "main_loop cfg n w script = Inl (Exit k)"
  shows "k = 3 \<or> (k = 2 \<and> MAX_ARGS \<le> int (length (base_ssh_command cfg)) + 1
                                      + int (length (remote_command cfg)))"
proof (cases "int (length (base_ssh_command cfg)) + 1 + int (length (remote_command cfg))
              < MAX_ARGS")
  case True
  then have "exits_with {3} (main_loop cfg n w script)" by (intro exits_main_loop) simp_all
  then show ?thesis using assms by (simp add: exits_with_def)
next
  case False
  have "exits_with {2, 3} (main_loop cfg n w script)" by (intro exits_main_loop) simp_all
  then show ?thesis using assms False by (auto simp: exits_with_def)
qed

lemma exits_host_alloc [simp]: "3 \<in> C \<or> ok \<Longrightarrow> exits_with C (host_alloc jk ok nm)"
  by (auto simp: host_alloc_def safe_malloc_def)

lemma exits_parse_hosts_loop:
  "2 \<in> C \<Longrightarrow> 3 \<in> C \<or> ok \<Longrightarrow> exits_with C (parse_hosts_loop jk ok ls hs)"
  by (induction ls arbitrary: hs) (auto simp: Let_def split: prod.splits bool.splits)

lemma parse_hosts_exit_code:
  assumes "parse_hosts jk ok ferr inp = Inl (Exit k)"
  shows "k = 2 \<or> (k = 3 \<and> \<not> ok)"
proof (cases ok)
  case True
  have "exits_with {2} (parse_hosts jk ok ferr inp)"
    using True by (auto simp: parse_hosts_def intro!: exits_parse_hosts_loop)
  then show ?thesis using assms by (simp add: exits_with_def)
next
  case False
  have "exits_with {2, 3} (parse_hosts jk ok ferr inp)"
    by (auto simp: parse_hosts_def intro!: exits_parse_hosts_loop)
  then show ?thesis using assms False by (auto simp: exits_with_def)
qed

lemma exits_strcmp [simp]: "exits_with C (strcmp x y)"
  by (auto simp: strcmp_def split: option.splits prod.splits)


lemma exits_join_inner [simp]: "exits_with C (join_inner hs i idx num_same js)"
  by (induction js arbitrary: hs num_same) auto

lemma exits_join_outer [simp]: "exits_with C (join_outer hs idx count is)"
  by (induction "is" arbitrary: hs idx count) auto

lemma exits_join_print_members [simp]: "exits_with C (join_print_members hs i oo)"
  by (induction hs arbitrary: oo) (auto split: option.splits)

lemma exits_join_print_loop [simp]: "exits_with C (join_print_loop col hs n count ou is)"
  by (induction "is" arbitrary: ou) (auto split: option.splits)

lemma join_mode_finish_exit_code:
  assumes "join_mode_finish cfg n w = Inl (Exit k)"
  shows "k = 3"
proof -
  have "exits_with {3} (join_mode_finish cfg n w)"
    by (auto simp: join_mode_finish_def Let_def)
  then show ?thesis using assms by (simp add: exits_with_def)
qed

subsection \<open>Exit codes\<close>

text \<open>
  Claim C4, amended. Exit code 2, the code that the option checks of \<open>parse_arguments\<close>
  use, is also the code of a roster line of \<open>HOST_NAME_MAX - 1\<close> bytes or more before
  its newline, wherever it stands in the roster, of a read error on the roster, and of
  a command with too many arguments (in \<open>push_arguments\<close> or in \<open>build_ssh_command\<close>).
  Exit code 3 is the code of a failing allocation (while the roster is read, in
  \<open>spawn_child_process\<close>, in \<open>fdev_create\<close>, in \<open>join_mode_finish\<close>) and of a failing
  system call of the main loop: making a pipe, \<open>fork\<close>, \<open>clock_gettime\<close>, adding a
  descriptor to the epoll instance, \<open>epoll_wait\<close>, a \<open>read\<close> on a pipe after any
  number of reads that succeeded, and \<open>waitpid\<close>. No other exit code arises: in every
  run an exit of \<open>main_loop\<close> has code 3, or code 2 when the command has too many
  arguments; an exit of \<open>parse_hosts\<close> has code 2, or code 3 when an allocation failed;
  an exit of \<open>join_mode_finish\<close> has code 3.
\<close>
theorem exit_codes_of_failures:
  "((\<forall>x\<in>set ls. NL \<notin> set x \<and> NUL \<notin> set x \<and> length x < HOST_NAME_MAX - 1) \<and>
    NL \<notin> set l \<and> NUL \<notin> set l \<and> HOST_NAME_MAX - 1 \<le> length l \<and>
    hd l \<noteq> CHR ''#'' \<and> hd l \<noteq> CHR '' '' \<longrightarrow>
      parse_hosts jk True ferr (concat (map (\<lambda>x. x @ [NL]) ls) @ l @ r) = Inl (Exit 2)) \<and>
   ((\<forall>x\<in>set lsB. NL \<notin> set x \<and> NUL \<notin> set x \<and> length x < HOST_NAME_MAX - 1) \<longrightarrow>
      parse_hosts jkB True True (concat (map (\<lambda>x. x @ [NL]) lsB)) = Inl (Exit 2)) \<and>
   (args \<noteq> [] \<and> MAX_ARGS - 2 < int (length base) + int (length args) \<longrightarrow>
      push_arguments base args = Inl (Exit 2)) \<and>
   (MAX_ARGS \<le> int (length bs) + 1 + int (length remote) \<longrightarrow>
      build_ssh_command bs remote h (replicate (nat MAX_ARGS) None) MAX_ARGS = Inl (Exit 2)) \<and>
   (max_jobs opt < 1 \<or> max_line_length opt \<le> 0 \<or> max_output_length opt \<le> 0 \<longrightarrow>
      parse_arguments_checks opt jn gr = Inl (Exit 2)) \<and>
   ((\<forall>x\<in>set lsC. NL \<notin> set x \<and> NUL \<notin> set x \<and> length x < HOST_NAME_MAX - 1) \<and>
    (\<exists>x\<in>set lsC. x \<noteq> [] \<and> hd x \<noteq> CHR ''#'' \<and> hd x \<noteq> CHR '' '') \<longrightarrow>
      parse_hosts jkC False ferrC (concat (map (\<lambda>x. x @ [NL]) lsC) @ rC) = Inl (Exit 3)) \<and>
   (i < length (hosts w) \<and> cp (hosts w ! i) = None \<and>
    \<not> isl (build_ssh_command (base_ssh_command cfg) (remote_command cfg) (hosts w ! i)
             (replicate (nat MAX_ARGS) None) MAX_ARGS) \<and>
    ((\<exists>t. pipe_of_mode (mode (opts_of cfg)) t \<and> pipe_fd (env_of cfg) i t < 0) \<or>
     fork_pid (env_of cfg) i = -1 \<or> \<not> malloc_ok (env_of cfg) \<or>
     \<not> clock_ok (env_of cfg) (ticks w)) \<longrightarrow>
      spawn_child_process cfg i w = Inl (Exit 3)) \<and>
   (host_cp (hosts wE) iE = Inr cE \<and> \<not> malloc_ok (env_of cfgE) \<longrightarrow>
      register_child_process_fd cfgE iE tE wE = Inl (Exit 3)) \<and>
   (fdev_create (opts_of cfgF) (env_of cfgF) (hosts wF) iF tF = Inr fF \<and>
    fd fF \<in> fst ` set (watcher wF) \<longrightarrow>
      register_child_process_fd cfgF iF tF wF = Inl (Exit 3)) \<and>
   (read_active_fd optG colG fG wG rs = Inr (False, gG, vG) \<longrightarrow>
      read_active_fd optG colG fG wG (rs @ ReadFail # rest) = Inl (Exit 3)) \<and>
   (host_cp (hosts wH) iH = Inr cH \<and>
    (\<not> waitpid_ok (env_of cfgH) iH \<or> \<not> clock_ok (env_of cfgH) (ticks wH)) \<longrightarrow>
      wait_for_child cfgH iH wH = Inl (Exit 3)) \<and>
   ((cur_host s < length (hosts (world s)) \<or> 0 < outstanding s) \<and>
    outstanding s \<le> max_jobs (opts_of cfgI) \<and>
    (case admit cfgI (length (hosts (world s)) - cur_host s) s of
       Inl e \<Rightarrow> False
     | Inr (s1, tr1) \<Rightarrow> \<not> epoll_wait_ok (env_of cfgI) (polls (world s1))) \<longrightarrow>
      main_loop_while cfgI n s (events # script) = Inl (Exit 3)) \<and>
   (0 < num_hosts \<and> \<not> malloc_ok (env_of cfgJ) \<longrightarrow>
      join_mode_finish cfgJ num_hosts wJ = Inl (Exit 3)) \<and>
   (0 < sz \<longrightarrow> safe_malloc jkK False sz = Inl (Exit 3)) \<and>
   (main_loop cfgU nU wU scriptU = Inl (Exit kU) \<longrightarrow>
      kU = 3 \<or> (kU = 2 \<and> MAX_ARGS \<le> int (length (base_ssh_command cfgU)) + 1
                                       + int (length (remote_command cfgU)))) \<and>
   (parse_hosts jkV okV ferrV inpV = Inl (Exit kV) \<longrightarrow> kV = 2 \<or> (kV = 3 \<and> \<not> okV)) \<and>
   (join_mode_finish cfgW nW wW = Inl (Exit kW) \<longrightarrow> kW = 3)"
proof (intro conjI impI)
  assume "(\<forall>x\<in>set ls. NL \<notin> set x \<and> NUL \<notin> set x \<and> length x < HOST_NAME_MAX - 1) \<and>
    NL \<notin> set l \<and> NUL \<notin> set l \<and> HOST_NAME_MAX - 1 \<le> length l \<and>
    hd l \<noteq> CHR ''#'' \<and> hd l \<noteq> CHR '' ''"
  then show "parse_hosts jk True ferr (concat (map (\<lambda>x. x @ [NL]) ls) @ l @ r) = Inl (Exit 2)"
    by (intro parse_hosts_too_long) simp_all
next
  assume "\<forall>x\<in>set lsB. NL \<notin> set x \<and> NUL \<notin> set x \<and> length x < HOST_NAME_MAX - 1"
  then show "parse_hosts jkB True True (concat (map (\<lambda>x. x @ [NL]) lsB)) = Inl (Exit 2)"
    by (rule parse_hosts_read_error)
next
  assume "args \<noteq> [] \<and> MAX_ARGS - 2 < int (length base) + int (length args)"
  then show "push_arguments base args = Inl (Exit 2)"
    by (simp add: push_arguments_def push_arguments_loop_too_many)
next
  assume a: "MAX_ARGS \<le> int (length bs) + 1 + int (length remote)"
  have "build_ssh_command_loop (replicate (nat MAX_ARGS) None) 0 MAX_ARGS
          (bs @ [name h] @ remote) = Inl (Exit 2)"
    using a by (intro build_ssh_command_loop_too_many) (auto simp: MAX_ARGS_def)
  then show "build_ssh_command bs remote h (replicate (nat MAX_ARGS) None) MAX_ARGS
      = Inl (Exit 2)"
    by (simp add: build_ssh_command_def MAX_ARGS_def)
next
  assume "max_jobs opt < 1 \<or> max_line_length opt \<le> 0 \<or> max_output_length opt \<le> 0"
  then show "parse_arguments_checks opt jn gr = Inl (Exit 2)"
    by (auto simp: parse_arguments_checks_def)
next
  assume "(\<forall>x\<in>set lsC. NL \<notin> set x \<and> NUL \<notin> set x \<and> length x < HOST_NAME_MAX - 1) \<and>
    (\<exists>x\<in>set lsC. x \<noteq> [] \<and> hd x \<noteq> CHR ''#'' \<and> hd x \<noteq> CHR '' '')"
  then show "parse_hosts jkC False ferrC (concat (map (\<lambda>x. x @ [NL]) lsC) @ rC) = Inl (Exit 3)"
    by (intro parse_hosts_no_memory) simp_all
next
  assume "i < length (hosts w) \<and> cp (hosts w ! i) = None \<and>
    \<not> isl (build_ssh_command (base_ssh_command cfg) (remote_command cfg) (hosts w ! i)
             (replicate (nat MAX_ARGS) None) MAX_ARGS) \<and>
    ((\<exists>t. pipe_of_mode (mode (opts_of cfg)) t \<and> pipe_fd (env_of cfg) i t < 0) \<or>
     fork_pid (env_of cfg) i = -1 \<or> \<not> malloc_ok (env_of cfg) \<or>
     \<not> clock_ok (env_of cfg) (ticks w))"
  then show "spawn_child_process cfg i w = Inl (Exit 3)"
    by (intro spawn_child_process_fails) simp_all
next
  assume "host_cp (hosts wE) iE = Inr cE \<and> \<not> malloc_ok (env_of cfgE)"
  then show "register_child_process_fd cfgE iE tE wE = Inl (Exit 3)"
    using register_child_process_fd_no_memory by blast
next
  assume "fdev_create (opts_of cfgF) (env_of cfgF) (hosts wF) iF tF = Inr fF \<and>
    fd fF \<in> fst ` set (watcher wF)"
  then show "register_child_process_fd cfgF iF tF wF = Inl (Exit 3)"
    by (simp add: register_child_process_fd_def)
next
  assume "read_active_fd optG colG fG wG rs = Inr (False, gG, vG)"
  then show "read_active_fd optG colG fG wG (rs @ ReadFail # rest) = Inl (Exit 3)"
    by (rule read_active_fd_read_fails)
next
  assume "host_cp (hosts wH) iH = Inr cH \<and>
    (\<not> waitpid_ok (env_of cfgH) iH \<or> \<not> clock_ok (env_of cfgH) (ticks wH))"
  then show "wait_for_child cfgH iH wH = Inl (Exit 3)"
    using wait_for_child_fails by blast
next
  assume "(cur_host s < length (hosts (world s)) \<or> 0 < outstanding s) \<and>
    outstanding s \<le> max_jobs (opts_of cfgI) \<and>
    (case admit cfgI (length (hosts (world s)) - cur_host s) s of
       Inl e \<Rightarrow> False
     | Inr (s1, tr1) \<Rightarrow> \<not> epoll_wait_ok (env_of cfgI) (polls (world s1)))"
  then show "main_loop_while cfgI n s (events # script) = Inl (Exit 3)"
    by (intro main_loop_while_epoll_wait_fails) simp_all
next
  assume "0 < num_hosts \<and> \<not> malloc_ok (env_of cfgJ)"
  then show "join_mode_finish cfgJ num_hosts wJ = Inl (Exit 3)"
    by (simp add: join_mode_finish_def safe_malloc_def)
next
  assume "0 < sz"
  then show "safe_malloc jkK False sz = Inl (Exit 3)" by (simp add: safe_malloc_def)
next
  assume "main_loop cfgU nU wU scriptU = Inl (Exit kU)"
  then show "kU = 3 \<or> (kU = 2 \<and> MAX_ARGS \<le> int (length (base_ssh_command cfgU)) + 1
                                       + int (length (remote_command cfgU)))"
    by (rule main_loop_exit_code)
next
  assume "parse_hosts jkV okV ferrV inpV = Inl (Exit kV)"
  then show "kV = 2 \<or> (kV = 3 \<and> \<not> okV)" by (rule parse_hosts_exit_code)
next
  assume "join_mode_finish cfgW nW wW = Inl (Exit kW)"
  then show "kW = 3" by (rule join_mode_finish_exit_code)
qed


theorem exit_codes_of_failures_witness:
  "parse_hosts (junk demo_env) True False (concat (map (\<lambda>x. x @ [NL]) [''# roster'', ''host1'']) @ replicate 64 (CHR ''a'') @ [NL]) = Inl (Exit 2) \<and>
   parse_hosts (junk demo_env) True True (concat (map (\<lambda>x. x @ [NL]) [''host1''])) = Inl (Exit 2) \<and>
   push_arguments (replicate 253 ''-v'') [''-o'', ''x''] = Inl (Exit 2) \<and>
   build_ssh_command (replicate 254 ''-v'') [''uname''] (host_create ''h'')
     (replicate (nat MAX_ARGS) None) MAX_ARGS = Inl (Exit 2) \<and>
   parse_arguments_checks (line_opts\<lparr>max_jobs := 0\<rparr>) False False = Inl (Exit 2) \<and>
   parse_hosts (junk demo_env) False False
     (concat (map (\<lambda>x. x @ [NL]) [''# roster'', ''host1'']) @ ''host2'') = Inl (Exit 3) \<and>
   spawn_child_process (join_cfg\<lparr>env_of := demo_env\<lparr>fork_pid := (\<lambda>_. - 1)\<rparr>\<rparr>) 0
     (initial_world [host_create ''a'']) = Inl (Exit 3) \<and>
   register_child_process_fd (join_cfg\<lparr>env_of := demo_env\<lparr>malloc_ok := False\<rparr>\<rparr>) 0 PIPE_STDIO
     join_world = Inl (Exit 3) \<and>
   register_child_process_fd join_cfg 0 PIPE_STDIO (join_world\<lparr>watcher := [(3, join_fdev)]\<rparr>)
     = Inl (Exit 3) \<and>
   read_active_fd line_opts no_colors line_fdev demo_world ([Data ''ab''] @ ReadFail # [])
     = Inl (Exit 3) \<and>
   wait_for_child (join_cfg\<lparr>env_of := demo_env\<lparr>waitpid_ok := (\<lambda>_. False)\<rparr>\<rparr>) 0 join_world
     = Inl (Exit 3) \<and>
   main_loop_while (join_cfg\<lparr>env_of := demo_env\<lparr>epoll_wait_ok := (\<lambda>_. False)\<rparr>\<rparr>) 1
     \<lparr>world = initial_world [host_create ''a''], cur_host = 0, outstanding = 0,
        done_count = 0\<rparr> ([(3, [Data []])] # []) = Inl (Exit 3) \<and>
   join_mode_finish (join_cfg\<lparr>env_of := demo_env\<lparr>malloc_ok := False\<rparr>\<rparr>) 3 captured_world
     = Inl (Exit 3) \<and>
   safe_malloc (junk demo_env) False 6 = Inl (Exit 3) \<and>
   main_loop (join_cfg\<lparr>base_ssh_command := replicate 254 ''-v''\<rparr>) 1
     (initial_world [host_create ''a'']) [] = Inl (Exit 2) \<and>
   MAX_ARGS \<le> int (length (base_ssh_command
                               (join_cfg\<lparr>base_ssh_command := replicate 254 ''-v''\<rparr>))) + 1
                + int (length (remote_command
                                 (join_cfg\<lparr>base_ssh_command := replicate 254 ''-v''\<rparr>))) \<and>
   main_loop (join_cfg\<lparr>env_of := demo_env\<lparr>fork_pid := (\<lambda>_. - 1)\<rparr>\<rparr>) 1
     (initial_world [host_create ''a'']) [] = Inl (Exit 3)"
proof -
  note T = exit_codes_of_failures [where ls = "[''# roster'', ''host1'']" and l = "replicate 64 (CHR ''a'')" and r = "[NL]"
      and jk = "junk demo_env" and ferr = False and lsB = "[''host1'']" and jkB = "junk demo_env"
      and args = "[''-o'', ''x'']" and base = "replicate 253 ''-v''"
      and bs = "replicate 254 ''-v''" and remote = "[''uname'']" and h = "host_create ''h''"
      and opt = "line_opts\<lparr>max_jobs := 0\<rparr>" and jn = False and gr = False
      and lsC = "[''# roster'', ''host1'']" and jkC = "junk demo_env" and ferrC = False
      and rC = "''host2''" and i = 0 and w = "initial_world [host_create ''a'']"
      and cfg = "join_cfg\<lparr>env_of := demo_env\<lparr>fork_pid := (\<lambda>_. - 1)\<rparr>\<rparr>"
      and wE = join_world and iE = 0 and tE = PIPE_STDIO
      and cE = "child_process_create\<lparr>pid := 100, stdio_fd := 3\<rparr>"
      and cfgE = "join_cfg\<lparr>env_of := demo_env\<lparr>malloc_ok := False\<rparr>\<rparr>"
      and cfgF = join_cfg and wF = "join_world\<lparr>watcher := [(3, join_fdev)]\<rparr>" and iF = 0
      and tF = PIPE_STDIO and fF = join_fdev
      and optG = line_opts and colG = no_colors and fG = line_fdev and wG = demo_world
      and rs = "[Data ''ab'']" and gG = "line_fdev\<lparr>buffer := Some ''ab????'', offset := 2\<rparr>"
      and vG = demo_world and rest = "[]"
      and wH = join_world and iH = 0 and cH = "child_process_create\<lparr>pid := 100, stdio_fd := 3\<rparr>"
      and cfgH = "join_cfg\<lparr>env_of := demo_env\<lparr>waitpid_ok := (\<lambda>_. False)\<rparr>\<rparr>"
      and s = "\<lparr>world = initial_world [host_create ''a''], cur_host = 0, outstanding = 0, done_count = 0\<rparr>"
      and cfgI = "join_cfg\<lparr>env_of := demo_env\<lparr>epoll_wait_ok := (\<lambda>_. False)\<rparr>\<rparr>"
      and n = 1 and events = "[(3, [Data []])]" and script = "[]"
      and num_hosts = 3 and cfgJ = "join_cfg\<lparr>env_of := demo_env\<lparr>malloc_ok := False\<rparr>\<rparr>"
      and wJ = captured_world and sz = 6 and jkK = "junk demo_env"
      and cfgU = "join_cfg\<lparr>base_ssh_command := replicate 254 ''-v''\<rparr>" and nU = 1
      and wU = "initial_world [host_create ''a'']" and scriptU = "[]" and kU = 2]
  have h1: "(\<forall>x\<in>set [''# roster'', ''host1'']. NL \<notin> set x \<and> NUL \<notin> set x \<and> length x < HOST_NAME_MAX - 1) \<and>
      NL \<notin> set (replicate 64 (CHR ''a'')) \<and> NUL \<notin> set (replicate 64 (CHR ''a'')) \<and>
      HOST_NAME_MAX - 1 \<le> length (replicate 64 (CHR ''a'')) \<and>
      hd (replicate 64 (CHR ''a'')) \<noteq> CHR ''#'' \<and> hd (replicate 64 (CHR ''a'')) \<noteq> CHR '' ''"
    by (simp add: HOST_NAME_MAX_def hd_replicate)
  have h2: "\<forall>x\<in>set [''host1'']. NL \<notin> set x \<and> NUL \<notin> set x \<and> length x < HOST_NAME_MAX - 1"
    by (simp add: HOST_NAME_MAX_def)
  have h3: "[''-o'', ''x''] \<noteq> [] \<and>
      MAX_ARGS - 2 < int (length (replicate 253 ''-v'')) + int (length [''-o'', ''x''])"
    by (simp add: MAX_ARGS_def)
  have h4: "MAX_ARGS \<le> int (length (replicate 254 ''-v'')) + 1 + int (length [''uname''])"
    by (simp add: MAX_ARGS_def)
  have h5: "max_jobs (line_opts\<lparr>max_jobs := 0\<rparr>) < 1 \<or>
      max_line_length (line_opts\<lparr>max_jobs := 0\<rparr>) \<le> 0 \<or>
      max_output_length (line_opts\<lparr>max_jobs := 0\<rparr>) \<le> 0"
    by simp
  have h6: "(\<forall>x\<in>set [''# roster'', ''host1'']. NL \<notin> set x \<and> NUL \<notin> set x \<and> length x < HOST_NAME_MAX - 1) \<and>
      (\<exists>x\<in>set [''# roster'', ''host1'']. x \<noteq> [] \<and> hd x \<noteq> CHR ''#'' \<and> hd x \<noteq> CHR '' '')"
    by (simp add: HOST_NAME_MAX_def)
  have h7: "0 < length (hosts (initial_world [host_create ''a''])) \<and> cp (hosts (initial_world [host_create ''a'']) ! 0) = None \<and>
      \<not> isl (build_ssh_command (base_ssh_command (join_cfg\<lparr>env_of := demo_env\<lparr>fork_pid := (\<lambda>_. - 1)\<rparr>\<rparr>)) (remote_command (join_cfg\<lparr>env_of := demo_env\<lparr>fork_pid := (\<lambda>_. - 1)\<rparr>\<rparr>))
               (hosts (initial_world [host_create ''a'']) ! 0) (replicate (nat MAX_ARGS) None) MAX_ARGS) \<and>
      ((\<exists>t. pipe_of_mode (mode (opts_of (join_cfg\<lparr>env_of := demo_env\<lparr>fork_pid := (\<lambda>_. - 1)\<rparr>\<rparr>))) t \<and> pipe_fd (env_of (join_cfg\<lparr>env_of := demo_env\<lparr>fork_pid := (\<lambda>_. - 1)\<rparr>\<rparr>)) 0 t < 0) \<or>
       fork_pid (env_of (join_cfg\<lparr>env_of := demo_env\<lparr>fork_pid := (\<lambda>_. - 1)\<rparr>\<rparr>)) 0 = -1 \<or> \<not> malloc_ok (env_of (join_cfg\<lparr>env_of := demo_env\<lparr>fork_pid := (\<lambda>_. - 1)\<rparr>\<rparr>)) \<or>
       \<not> clock_ok (env_of (join_cfg\<lparr>env_of := demo_env\<lparr>fork_pid := (\<lambda>_. - 1)\<rparr>\<rparr>)) (ticks (initial_world [host_create ''a''])))"
    proof -
    have a: "\<not> isl (build_ssh_command (base_ssh_command (join_cfg\<lparr>env_of := demo_env\<lparr>fork_pid := (\<lambda>_. - 1)\<rparr>\<rparr>)) (remote_command (join_cfg\<lparr>env_of := demo_env\<lparr>fork_pid := (\<lambda>_. - 1)\<rparr>\<rparr>))
               (hosts (initial_world [host_create ''a'']) ! 0) (replicate (nat MAX_ARGS) None) MAX_ARGS)"
      by code_simp
    have b: "fork_pid (env_of (join_cfg\<lparr>env_of := demo_env\<lparr>fork_pid := (\<lambda>_. - 1)\<rparr>\<rparr>)) 0 = -1" by simp
    have c: "0 < length (hosts (initial_world [host_create ''a'']))" "cp (hosts (initial_world [host_create ''a'']) ! 0) = None"
      by (simp_all add: initial_world_def host_create_def)
    from a b c show ?thesis by blast
  qed
  have h8: "host_cp (hosts join_world) 0 = Inr (child_process_create\<lparr>pid := 100, stdio_fd := 3\<rparr>) \<and>
      \<not> malloc_ok (env_of (join_cfg\<lparr>env_of := demo_env\<lparr>malloc_ok := False\<rparr>\<rparr>))"
    proof -
    have a: "host_cp (hosts join_world) 0 = Inr (child_process_create\<lparr>pid := 100, stdio_fd := 3\<rparr>)"
      by code_simp
    then show ?thesis by simp
  qed
  have h9: "fdev_create (opts_of join_cfg) (env_of join_cfg) (hosts (join_world\<lparr>watcher := [(3, join_fdev)]\<rparr>)) 0
        PIPE_STDIO = Inr join_fdev \<and>
      fd join_fdev \<in> fst ` set (watcher (join_world\<lparr>watcher := [(3, join_fdev)]\<rparr>))"
    proof -
    have a: "fdev_create (opts_of join_cfg) (env_of join_cfg)
        (hosts (join_world\<lparr>watcher := [(3, join_fdev)]\<rparr>)) 0 PIPE_STDIO = Inr join_fdev"
      by code_simp
    have b: "fd join_fdev \<in> fst ` set (watcher (join_world\<lparr>watcher := [(3, join_fdev)]\<rparr>))"
      by (simp add: join_fdev_def)
    from a b show ?thesis by (rule conjI)
  qed
  have h10: "read_active_fd line_opts no_colors line_fdev demo_world [Data ''ab'']
        = Inr (False, line_fdev\<lparr>buffer := Some ''ab????'', offset := 2\<rparr>, demo_world)"
    by code_simp
  have h11: "host_cp (hosts join_world) 0 = Inr (child_process_create\<lparr>pid := 100, stdio_fd := 3\<rparr>) \<and>
      (\<not> waitpid_ok (env_of (join_cfg\<lparr>env_of := demo_env\<lparr>waitpid_ok := (\<lambda>_. False)\<rparr>\<rparr>)) 0 \<or> \<not> clock_ok (env_of (join_cfg\<lparr>env_of := demo_env\<lparr>waitpid_ok := (\<lambda>_. False)\<rparr>\<rparr>)) (ticks join_world))"
    proof -
    have a: "host_cp (hosts join_world) 0 = Inr (child_process_create\<lparr>pid := 100, stdio_fd := 3\<rparr>)"
      by code_simp
    then show ?thesis by simp
  qed
  have h12: "(cur_host \<lparr>world = initial_world [host_create ''a''], cur_host = 0, outstanding = 0, done_count = 0\<rparr> < length (hosts (world \<lparr>world = initial_world [host_create ''a''], cur_host = 0, outstanding = 0, done_count = 0\<rparr>)) \<or> 0 < outstanding \<lparr>world = initial_world [host_create ''a''], cur_host = 0, outstanding = 0, done_count = 0\<rparr>) \<and>
      outstanding \<lparr>world = initial_world [host_create ''a''], cur_host = 0, outstanding = 0, done_count = 0\<rparr> \<le> max_jobs (opts_of (join_cfg\<lparr>env_of := demo_env\<lparr>epoll_wait_ok := (\<lambda>_. False)\<rparr>\<rparr>)) \<and>
      (case admit (join_cfg\<lparr>env_of := demo_env\<lparr>epoll_wait_ok := (\<lambda>_. False)\<rparr>\<rparr>) (length (hosts (world \<lparr>world = initial_world [host_create ''a''], cur_host = 0, outstanding = 0, done_count = 0\<rparr>)) - cur_host \<lparr>world = initial_world [host_create ''a''], cur_host = 0, outstanding = 0, done_count = 0\<rparr>) \<lparr>world = initial_world [host_create ''a''], cur_host = 0, outstanding = 0, done_count = 0\<rparr> of
         Inl e \<Rightarrow> False
       | Inr (s1, tr1) \<Rightarrow> \<not> epoll_wait_ok (env_of (join_cfg\<lparr>env_of := demo_env\<lparr>epoll_wait_ok := (\<lambda>_. False)\<rparr>\<rparr>)) (polls (world s1)))"
    by code_simp
  have h13: "(0::int) < 3 \<and> \<not> malloc_ok (env_of (join_cfg\<lparr>env_of := demo_env\<lparr>malloc_ok := False\<rparr>\<rparr>))"
    by simp
  have h14: "(0::int) < 6"
    by simp
  have c1: "parse_hosts (junk demo_env) True False (concat (map (\<lambda>x. x @ [NL]) [''# roster'', ''host1'']) @ replicate 64 (CHR ''a'') @ [NL]) = Inl (Exit 2)"
    by (rule mp [OF T [THEN conjunct1] h1])
  have c2: "parse_hosts (junk demo_env) True True (concat (map (\<lambda>x. x @ [NL]) [''host1''])) = Inl (Exit 2)"
    by (rule mp [OF T [THEN conjunct2, THEN conjunct1] h2])
  have c3: "push_arguments (replicate 253 ''-v'') [''-o'', ''x''] = Inl (Exit 2)"
    by (rule mp [OF T [THEN conjunct2, THEN conjunct2, THEN conjunct1] h3])
  have c4: "build_ssh_command (replicate 254 ''-v'') [''uname''] (host_create ''h'')
     (replicate (nat MAX_ARGS) None) MAX_ARGS = Inl (Exit 2)"
    by (rule mp [OF T [THEN conjunct2, THEN conjunct2, THEN conjunct2, THEN conjunct1] h4])
  have c5: "parse_arguments_checks (line_opts\<lparr>max_jobs := 0\<rparr>) False False = Inl (Exit 2)"
    by (rule mp [OF T [THEN conjunct2, THEN conjunct2, THEN conjunct2, THEN conjunct2, THEN conjunct1] h5])
  have c6: "parse_hosts (junk demo_env) False False
     (concat (map (\<lambda>x. x @ [NL]) [''# roster'', ''host1'']) @ ''host2'') = Inl (Exit 3)"
    by (rule mp [OF T [THEN conjunct2, THEN conjunct2, THEN conjunct2, THEN conjunct2, THEN conjunct2, THEN conjunct1] h6])
  have c7: "spawn_child_process (join_cfg\<lparr>env_of := demo_env\<lparr>fork_pid := (\<lambda>_. - 1)\<rparr>\<rparr>) 0
     (initial_world [host_create ''a'']) = Inl (Exit 3)"
    by (rule mp [OF T [THEN conjunct2, THEN conjunct2, THEN conjunct2, THEN conjunct2, THEN conjunct2, THEN conjunct2, THEN conjunct1] h7])
  have c8: "register_child_process_fd (join_cfg\<lparr>env_of := demo_env\<lparr>malloc_ok := False\<rparr>\<rparr>) 0 PIPE_STDIO
     join_world = Inl (Exit 3)"
    by (rule mp [OF T [THEN conjunct2, THEN conjunct2, THEN conjunct2, THEN conjunct2, THEN conjunct2, THEN conjunct2, THEN conjunct2, THEN conjunct1] h8])
  have c9: "register_child_process_fd join_cfg 0 PIPE_STDIO (join_world\<lparr>watcher := [(3, join_fdev)]\<rparr>)
     = Inl (Exit 3)"
    by (rule mp [OF T [THEN conjunct2, THEN conjunct2, THEN conjunct2, THEN conjunct2, THEN conjunct2, THEN conjunct2, THEN conjunct2, THEN conjunct2, THEN conjunct1] h9])
  have c10: "read_active_fd line_opts no_colors line_fdev demo_world ([Data ''ab''] @ ReadFail # [])
     = Inl (Exit 3)"
    by (rule mp [OF T [THEN conjunct2, THEN conjunct2, THEN conjunct2, THEN conjunct2, THEN conjunct2, THEN conjunct2, THEN conjunct2, THEN conjunct2, THEN conjunct2, THEN conjunct1] h10])
  have c11: "wait_for_child (join_cfg\<lparr>env_of := demo_env\<lparr>waitpid_ok := (\<lambda>_. False)\<rparr>\<rparr>) 0 join_world
     = Inl (Exit 3)"
    by (rule mp [OF T [THEN conjunct2, THEN conjunct2, THEN conjunct2, THEN conjunct2, THEN conjunct2, THEN conjunct2, THEN conjunct2, THEN conjunct2, THEN conjunct2, THEN conjunct2, THEN conjunct1] h11])
  have c12: "main_loop_while (join_cfg\<lparr>env_of := demo_env\<lparr>epoll_wait_ok := (\<lambda>_. False)\<rparr>\<rparr>) 1
     \<lparr>world = initial_world [host_create ''a''], cur_host = 0, outstanding = 0,
        done_count = 0\<rparr> ([(3, [Data []])] # []) = Inl (Exit 3)"
    by (rule mp [OF T [THEN conjunct2, THEN conjunct2, THEN conjunct2, THEN conjunct2, THEN conjunct2, THEN conjunct2, THEN conjunct2, THEN conjunct2, THEN conjunct2, THEN conjunct2, THEN conjunct2, THEN conjunct1] h12])
  have c13: "join_mode_finish (join_cfg\<lparr>env_of := demo_env\<lparr>malloc_ok := False\<rparr>\<rparr>) 3 captured_world
     = Inl (Exit 3)"
    by (rule mp [OF T [THEN conjunct2, THEN conjunct2, THEN conjunct2, THEN conjunct2, THEN conjunct2, THEN conjunct2, THEN conjunct2, THEN conjunct2, THEN conjunct2, THEN conjunct2, THEN conjunct2, THEN conjunct2, THEN conjunct1] h13])
  have c14: "safe_malloc (junk demo_env) False 6 = Inl (Exit 3)"
    by (rule mp [OF T [THEN conjunct2, THEN conjunct2, THEN conjunct2, THEN conjunct2, THEN conjunct2, THEN conjunct2, THEN conjunct2, THEN conjunct2, THEN conjunct2, THEN conjunct2, THEN conjunct2, THEN conjunct2, THEN conjunct2, THEN conjunct1] h14])
  have h15: "main_loop (join_cfg\<lparr>base_ssh_command := replicate 254 ''-v''\<rparr>) 1
     (initial_world [host_create ''a'']) [] = Inl (Exit 2)"
    by code_simp
  have "(2::int) = 3 \<or> ((2::int) = 2 \<and>
      MAX_ARGS \<le> int (length (base_ssh_command
                               (join_cfg\<lparr>base_ssh_command := replicate 254 ''-v''\<rparr>))) + 1
                + int (length (remote_command
                                 (join_cfg\<lparr>base_ssh_command := replicate 254 ''-v''\<rparr>))))"
    by (rule mp [OF T [THEN conjunct2, THEN conjunct2, THEN conjunct2, THEN conjunct2, THEN conjunct2, THEN conjunct2, THEN conjunct2, THEN conjunct2, THEN conjunct2, THEN conjunct2, THEN conjunct2, THEN conjunct2, THEN conjunct2, THEN conjunct2, THEN conjunct1] h15])
  then have c15: "MAX_ARGS \<le> int (length (base_ssh_command
                               (join_cfg\<lparr>base_ssh_command := replicate 254 ''-v''\<rparr>))) + 1
                + int (length (remote_command
                                 (join_cfg\<lparr>base_ssh_command := replicate 254 ''-v''\<rparr>)))"
    by simp
  have c16: "main_loop (join_cfg\<lparr>env_of := demo_env\<lparr>fork_pid := (\<lambda>_. - 1)\<rparr>\<rparr>) 1
     (initial_world [host_create ''a'']) [] = Inl (Exit 3)"
    by code_simp
  show ?thesis
    using c1 c2 c3 c4 c5 c6 c7 c8 c9 c10 c11 c12 c13 c14 h15 c15 c16 by (intro conjI)
qed

theorem roster_line_too_long_counterexample:
  "parse_hosts (junk demo_env) True False
     (''host1'' @ [NL] @ replicate 64 (CHR ''a'') @ [NL]) = Inl (Exit 2) \<and>
   push_arguments (replicate 253 ''-v'') [''-o'', ''x''] = Inl (Exit 2) \<and>
   build_ssh_command (replicate 254 ''-v'') [''uname''] (host_create ''h'')
     (replicate (nat MAX_ARGS) None) MAX_ARGS = Inl (Exit 2)"
  by code_simp

subsection \<open>The progress line\<close>

text \<open>
  Claim C8 does not hold of the code. In join mode with standard output not a
  terminal, one host whose child writes nothing: the progress line
  \<open>[sshp] finished 1/1\<close>, a carriage return and a newline are written after the reap.
  Only the first progress line, before the loop, is guarded by \<open>stdout_isatty\<close>.
\<close>
theorem progress_line_without_terminal:
  "stdout_isatty join_cfg = False \<and>
   loop_printed (main_loop join_cfg 1 (initial_world [host_create ''a'']) [[(3, [Data []])]])
     = Inr (''[sshp] finished 1/1'' @ [CR, NL])"
  by code_simp

lemma runs_nonempty: "r \<in> set (runs cs) \<Longrightarrow> snd r \<noteq> []"
  by (induction cs arbitrary: r) (auto split: list.splits if_splits)

lemma runs_hosts: "r \<in> set (runs cs) \<Longrightarrow> c \<in> set (snd r) \<Longrightarrow> host (fst c) = fst r"
proof (induction cs arbitrary: r c)
  case Nil
  then show ?case by simp
next
  case (Cons a cs)
  show ?case
  proof (cases "runs cs")
    case Nil
    then show ?thesis using Cons.prems by auto
  next
    case (Cons r' rs)
    obtain h run where r': "r' = (h, run)" by (cases r')
    have ih: "\<And>r c. r \<in> set (r' # rs) \<Longrightarrow> c \<in> set (snd r) \<Longrightarrow> host (fst c) = fst r"
      using Cons.IH Cons by simp
    have ih1: "\<And>c. c \<in> set run \<Longrightarrow> host (fst c) = h"
      using ih [of r'] r' by simp
    show ?thesis
    proof (cases "h = host (fst a)")
      case True
      then have "runs (a # cs) = (h, a # run) # rs" using Cons r' by simp
      then consider "r = (h, a # run)" | "r \<in> set rs" using Cons.prems(1) by auto
      then show ?thesis
      proof cases
        case 1
        then have "c = a \<or> c \<in> set run" using Cons.prems(2) by simp
        then show ?thesis using 1 True ih1 [of c] by auto
      next
        case 2
        then show ?thesis using ih [of r c] Cons.prems(2) by simp
      qed
    next
      case False
      then have "runs (a # cs) = (host (fst a), [a]) # r' # rs" using Cons r' by simp
      then consider "r = (host (fst a), [a])" | "r \<in> set (r' # rs)"
        using Cons.prems(1) by auto
      then show ?thesis
      proof cases
        case 1
        then show ?thesis using Cons.prems(2) by simp
      next
        case 2
        then show ?thesis using ih [of r c] Cons.prems(2) by simp
      qed
    qed
  qed
qed

lemma runs_concat: "concat (map snd (runs cs)) = cs"
  by (induction cs) (auto split: list.splits)

lemma runs_adjacent:
  "Suc k < length (runs cs) \<Longrightarrow> fst (runs cs ! k) \<noteq> fst (runs cs ! Suc k)"
proof (induction cs arbitrary: k)
  case Nil
  then show ?case by simp
next
  case (Cons c cs)
  show ?case
  proof (cases "runs cs")
    case Nil
    then show ?thesis using Cons.prems by simp
  next
    case (Cons r rs)
    obtain h run where r: "r = (h, run)" by (cases r)
    show ?thesis
    proof (cases "h = host (fst c)")
      case True
      then have rc: "runs (c # cs) = (h, c # run) # rs" using Cons r by simp
      show ?thesis
      proof (cases k)
        case 0
        have "fst (runs cs ! 0) \<noteq> fst (runs cs ! Suc 0)"
          using Cons.prems rc Cons 0 by (intro Cons.IH) simp
        then show ?thesis using rc Cons r 0 by simp
      next
        case (Suc j)
        have "fst (runs cs ! Suc j) \<noteq> fst (runs cs ! Suc (Suc j))"
          using Cons.prems rc Cons Suc by (intro Cons.IH) simp
        then show ?thesis using rc Cons r Suc by simp
      qed
    next
      case False
      then have rc: "runs (c # cs) = (host (fst c), [c]) # runs cs" using Cons r by simp
      show ?thesis
      proof (cases k)
        case 0
        then show ?thesis using rc Cons r False by simp
      next
        case (Suc j)
        have "fst (runs cs ! j) \<noteq> fst (runs cs ! Suc j)"
          using Cons.prems rc Suc by (intro Cons.IH) simp
        then show ?thesis using rc Suc by simp
      qed
    qed
  qed
qed

lemma render_cont_runs:
  "(case rs of [] \<Rightarrow> True | r # _ \<Rightarrow> lh \<noteq> Some (fst r)) \<Longrightarrow>
   render_cont opt col hs lh np rs = render_runs opt col hs np rs"
  by (cases rs) auto

lemma process_data_group_out:
  assumes "buf \<noteq> []" "host f < length hs"
  shows "\<exists>ou'. process_data_group opt col hs (f, ou) buf = Inr (f, ou') \<and>
     stdout ou' = stdout ou
        @ (if last_host ou = Some (host f) then []
           else (if \<not> newline_printed ou then [NL] else [])
                @ (if \<not> anonymous opt then print_host_header col (hs ! host f) @ [NL] else []))
        @ render_chunk col (f, buf) \<and>
     newline_printed ou' = (last buf = NL) \<and> last_host ou' = Some (host f)"
  using assms
  by (simp add: process_data_group_def deref_def Let_def render_chunk_def printf_def
      last_conv_nth)

lemma group_dispatch_render:
  assumes "\<forall>c\<in>set cs. snd c \<noteq> [] \<and> host (fst c) < length hs"
  shows "\<exists>ou'. group_dispatch opt col hs ou cs = Inr ou' \<and>
           stdout ou' = stdout ou
              @ render_cont opt col hs (last_host ou) (newline_printed ou) (runs cs)"
  using assms
proof (induction cs arbitrary: ou)
  case Nil
  then show ?case by simp
next
  case (Cons c cs)
  obtain f buf where c: "c = (f, buf)" by (cases c)
  have wf: "buf \<noteq> []" "host f < length hs" using Cons.prems c by auto
  from process_data_group_out [OF wf, of opt col ou]
  obtain ou1 where p: "process_data_group opt col hs (f, ou) buf = Inr (f, ou1)"
    and so: "stdout ou1 = stdout ou
        @ (if last_host ou = Some (host f) then []
           else (if \<not> newline_printed ou then [NL] else [])
                @ (if \<not> anonymous opt then print_host_header col (hs ! host f) @ [NL] else []))
        @ render_chunk col (f, buf)"
    and np: "newline_printed ou1 = (last buf = NL)" and lh: "last_host ou1 = Some (host f)"
    by blast
  have "\<forall>c\<in>set cs. snd c \<noteq> [] \<and> host (fst c) < length hs" using Cons.prems by simp
  from Cons.IH [OF this, of ou1]
  obtain ou' where g: "group_dispatch opt col hs ou1 cs = Inr ou'"
    and s': "stdout ou' = stdout ou1
              @ render_cont opt col hs (Some (host f)) (last buf = NL) (runs cs)"
    using np lh by auto
  have gd: "group_dispatch opt col hs ou (c # cs) = Inr ou'"
    using p g c by simp
  have "(if last_host ou = Some (host f) then []
           else (if \<not> newline_printed ou then [NL] else [])
                @ (if \<not> anonymous opt then print_host_header col (hs ! host f) @ [NL] else []))
        @ render_chunk col (f, buf)
        @ render_cont opt col hs (Some (host f)) (last buf = NL) (runs cs)
       = render_cont opt col hs (last_host ou) (newline_printed ou) (runs (c # cs))"
  proof (cases "runs cs")
    case Nil
    then show ?thesis using c by simp
  next
    case (Cons r rs)
    obtain h run where r: "r = (h, run)" by (cases r)
    have "run \<noteq> []" using runs_nonempty [of r cs] Cons r by simp
    then show ?thesis using Cons r c by (auto simp: render_chunk_def)
  qed
  then show ?case using gd so s' by simp
qed

subsection \<open>Group mode: one header per run\<close>

text \<open>
  Claim C9. In group mode, for every sequence of non-empty chunks dispatched from the
  start of the program (no previous emitter), standard output receives, for each
  contiguous run of chunks of one host in turn: a newline if and only if the last byte
  emitted before was not a newline, the host header and a newline unless anonymous is
  set, then the chunks of the run, each framed by its color and the reset. The runs
  are the maximal blocks of consecutive chunks of the same host: they make up the
  sequence, none is empty, and neighbouring runs belong to different hosts.
\<close>
theorem group_header_once_per_run:
  assumes "\<forall>c\<in>set cs. snd c \<noteq> [] \<and> host (fst c) < length hs"
    and "last_host ou = None"
  shows "\<exists>ou'. group_dispatch opt col hs ou cs = Inr ou' \<and>
           stdout ou' = stdout ou @ render_runs opt col hs (newline_printed ou) (runs cs) \<and>
           concat (map snd (runs cs)) = cs \<and>
           (\<forall>r\<in>set (runs cs). snd r \<noteq> [] \<and> (\<forall>c\<in>set (snd r). host (fst c) = fst r)) \<and>
           (\<forall>k. Suc k < length (runs cs) \<longrightarrow> fst (runs cs ! k) \<noteq> fst (runs cs ! Suc k))"
proof -
  from group_dispatch_render [OF assms(1), of opt col ou]
  obtain ou' where g: "group_dispatch opt col hs ou cs = Inr ou'"
    and s: "stdout ou' = stdout ou
              @ render_cont opt col hs (last_host ou) (newline_printed ou) (runs cs)"
    by blast
  have "render_cont opt col hs (last_host ou) (newline_printed ou) (runs cs)
        = render_runs opt col hs (newline_printed ou) (runs cs)"
    using assms(2) by (intro render_cont_runs) (simp split: list.splits)
  then show ?thesis
    using g s runs_concat runs_nonempty runs_hosts runs_adjacent by auto
qed

theorem group_header_once_per_run_witness:
  "list_all (\<lambda>c. snd c \<noteq> [] \<and> host (fst c) < length two_hosts)
      [(group_fdev 0 PIPE_STDOUT, ''x''), (group_fdev 0 PIPE_STDERR, ''y''),
       (group_fdev 1 PIPE_STDOUT, ''z'' @ [NL]), (group_fdev 0 PIPE_STDOUT, ''w'')] \<and>
   (\<exists>ou'. group_dispatch group_opts no_colors two_hosts (outs (initial_world two_hosts))
             [(group_fdev 0 PIPE_STDOUT, ''x''), (group_fdev 0 PIPE_STDERR, ''y''),
              (group_fdev 1 PIPE_STDOUT, ''z'' @ [NL]), (group_fdev 0 PIPE_STDOUT, ''w'')]
            = Inr ou' \<and>
          stdout ou' = ''[a]'' @ [NL] @ ''xy'' @ [NL] @ ''[b]'' @ [NL] @ ''z'' @ [NL]
                       @ ''[a]'' @ [NL] @ ''w'')"
proof -
  let ?cs = "[(group_fdev 0 PIPE_STDOUT, ''x''), (group_fdev 0 PIPE_STDERR, ''y''),
              (group_fdev 1 PIPE_STDOUT, ''z'' @ [NL]), (group_fdev 0 PIPE_STDOUT, ''w'')]"
  have wf: "\<forall>c\<in>set ?cs. snd c \<noteq> [] \<and> host (fst c) < length two_hosts"
    by (simp add: group_fdev_def two_hosts_def)
  have lh: "last_host (outs (initial_world two_hosts)) = None"
    by (simp add: initial_world_def)
  have e: "stdout (outs (initial_world two_hosts))
        @ render_runs group_opts no_colors two_hosts
            (newline_printed (outs (initial_world two_hosts))) (runs ?cs)
      = ''[a]'' @ [NL] @ ''xy'' @ [NL] @ ''[b]'' @ [NL] @ ''z'' @ [NL] @ ''[a]'' @ [NL] @ ''w''"
    by code_simp
  have wl: "list_all (\<lambda>c. snd c \<noteq> [] \<and> host (fst c) < length two_hosts) ?cs"
    using wf by (simp only: list_all_iff)
  from group_header_once_per_run [OF wf lh, of group_opts no_colors]
  show ?thesis using wl unfolding e by blast
qed

lemma nth_length_takeWhile_aux:
  "j < length (takeWhile P xs) \<Longrightarrow> P (xs ! j)"
proof -
  assume a: "j < length (takeWhile P xs)"
  then have "takeWhile P xs ! j \<in> set (takeWhile P xs)" by (rule nth_mem)
  then have "P (takeWhile P xs ! j)" by (rule set_takeWhileD [THEN conjunct2])
  then show ?thesis using a by (simp add: takeWhile_nth)
qed

lemma first_occ_le: "j < length os \<Longrightarrow> first_occ os (os ! j) \<le> j"
proof -
  assume j: "j < length os"
  show ?thesis
  proof (rule ccontr)
    assume "\<not> first_occ os (os ! j) \<le> j"
    then have "j < length (takeWhile (\<lambda>y. y \<noteq> os ! j) os)" by (simp add: first_occ_def)
    then have "os ! j \<noteq> os ! j" by (rule nth_length_takeWhile_aux)
    then show False by simp
  qed
qed

lemma first_occ_nth: "j < length os \<Longrightarrow> os ! first_occ os (os ! j) = os ! j"
proof -
  assume j: "j < length os"
  then have "first_occ os (os ! j) < length os" using first_occ_le [OF j] by simp
  then show ?thesis
    unfolding first_occ_def using nth_length_takeWhile [of "\<lambda>y. y \<noteq> os ! j" os] by auto
qed

lemma first_occ_notin: "os ! j \<notin> set (take (first_occ os (os ! j)) os)"
proof -
  have "take (first_occ os (os ! j)) os = takeWhile (\<lambda>y. y \<noteq> os ! j) os"
    unfolding first_occ_def by (rule takeWhile_eq_take [symmetric])
  then show ?thesis by (auto dest: set_takeWhileD)
qed

lemma first_occ_new:
  assumes "i < length os" "os ! i \<notin> set (take i os)"
  shows "first_occ os (os ! i) = i"
proof -
  have "first_occ os (os ! i) \<le> i" using first_occ_le assms by blast
  moreover have "\<not> first_occ os (os ! i) < i"
  proof
    assume a: "first_occ os (os ! i) < i"
    then have "take i os ! first_occ os (os ! i) \<in> set (take i os)"
      using assms(1) by (intro nth_mem) simp
    then have "os ! first_occ os (os ! i) \<in> set (take i os)"
      using a by simp
    then show False using first_occ_nth [OF assms(1)] assms(2) by simp
  qed
  ultimately show ?thesis by simp
qed

lemma class_of_new:
  "i < length os \<Longrightarrow> os ! i \<notin> set (take i os) \<Longrightarrow> class_of os i = length (remdups (take i os))"
  by (simp add: class_of_def first_occ_new)

lemma class_of_same: "os ! j = os ! k \<Longrightarrow> class_of os j = class_of os k"
  by (simp add: class_of_def)

lemma length_remdups_take_Suc:
  assumes "i < length os"
  shows "length (remdups (take (Suc i) os)) =
         (if os ! i \<in> set (take i os) then length (remdups (take i os))
          else Suc (length (remdups (take i os))))"
proof -
  have "take (Suc i) os = take i os @ [os ! i]" using assms by (simp add: take_Suc_conv_app_nth)
  then have "set (take (Suc i) os) = insert (os ! i) (set (take i os))" by simp
  then have "card (set (take (Suc i) os)) =
        (if os ! i \<in> set (take i os) then card (set (take i os))
         else Suc (card (set (take i os))))"
    by (simp add: insert_absorb)
  then show ?thesis by (simp add: length_remdups_card_conv)
qed

lemma length_remdups_take_mono:
  "a \<le> b \<Longrightarrow> length (remdups (take a os)) \<le> length (remdups (take b os))"
proof -
  assume "a \<le> b"
  then have "set (take a os) \<subseteq> set (take b os)" by (rule set_take_subset_set_take)
  then show ?thesis by (simp add: length_remdups_card_conv card_mono)
qed

lemma length_remdups_take_le: "length (remdups (take i os)) \<le> i"
proof -
  have "length (remdups (take i os)) \<le> length (take i os)" by (rule length_remdups_leq)
  then show ?thesis by simp
qed

lemma class_of_first_lt:
  assumes "j < length os" "k < length os"
    "first_occ os (os ! j) < first_occ os (os ! k)"
  shows "class_of os j < class_of os k"
proof -
  let ?a = "first_occ os (os ! j)" and ?b = "first_occ os (os ! k)"
  have a: "?a < length os" using first_occ_le [OF assms(1)] assms(1) by simp
  have "os ! ?a \<notin> set (take ?a os)"
    using first_occ_notin [of os j] first_occ_nth [OF assms(1)] by simp
  then have "length (remdups (take (Suc ?a) os)) = Suc (length (remdups (take ?a os)))"
    using length_remdups_take_Suc [OF a] by simp
  moreover have "length (remdups (take (Suc ?a) os)) \<le> length (remdups (take ?b os))"
    using assms(3) by (intro length_remdups_take_mono) simp
  ultimately show ?thesis by (simp add: class_of_def)
qed

lemma class_of_inj:
  assumes "j < length os" "k < length os" "class_of os j = class_of os k"
  shows "os ! j = os ! k"
proof -
  have "\<not> first_occ os (os ! j) < first_occ os (os ! k)"
  proof
    assume "first_occ os (os ! j) < first_occ os (os ! k)"
    from class_of_first_lt [OF assms(1,2) this] assms(3) show False by simp
  qed
  moreover have "\<not> first_occ os (os ! k) < first_occ os (os ! j)"
  proof
    assume "first_occ os (os ! k) < first_occ os (os ! j)"
    from class_of_first_lt [OF assms(2,1) this] assms(3) show False by simp
  qed
  ultimately have eq: "first_occ os (os ! j) = first_occ os (os ! k)" by simp
  have "os ! j = os ! first_occ os (os ! j)" by (rule first_occ_nth [OF assms(1), symmetric])
  also have "\<dots> = os ! first_occ os (os ! k)" by (simp only: eq)
  also have "\<dots> = os ! k" by (rule first_occ_nth [OF assms(2)])
  finally show ?thesis .
qed

lemma class_of_iff:
  "j < length os \<Longrightarrow> k < length os \<Longrightarrow> class_of os j = class_of os k \<longleftrightarrow> os ! j = os ! k"
  using class_of_inj [of j os k] class_of_same [of os j k] by blast

lemma class_of_lt: "j < length os \<Longrightarrow> class_of os j < length (remdups os)"
proof -
  assume j: "j < length os"
  let ?a = "first_occ os (os ! j)"
  have a: "?a < length os" using first_occ_le [OF j] j by simp
  have "os ! ?a \<notin> set (take ?a os)"
    using first_occ_notin [of os j] first_occ_nth [OF j] by simp
  then have "length (remdups (take (Suc ?a) os)) = Suc (length (remdups (take ?a os)))"
    using length_remdups_take_Suc [OF a] by simp
  moreover have "length (remdups (take (Suc ?a) os)) \<le> length (remdups (take (length os) os))"
    using a by (intro length_remdups_take_mono) simp
  ultimately show ?thesis by (simp add: class_of_def)
qed

lemma class_of_onto_take:
  "i \<le> length os \<Longrightarrow> k < length (remdups (take i os)) \<Longrightarrow> \<exists>j<i. class_of os j = k"
proof (induction i arbitrary: k)
  case 0
  then show ?case by simp
next
  case (Suc i)
  have i: "i < length os" using Suc.prems by simp
  show ?case
  proof (cases "k < length (remdups (take i os))")
    case True
    then obtain j where "j < i" "class_of os j = k" using Suc.IH i by auto
    then show ?thesis by (auto intro: exI [of _ j])
  next
    case False
    then have new: "os ! i \<notin> set (take i os)" and k: "k = length (remdups (take i os))"
      using Suc.prems(2) length_remdups_take_Suc [OF i] by (auto split: if_splits)
    then show ?thesis using class_of_new [OF i new] by auto
  qed
qed

lemma class_of_first_seen:
  assumes "j < length os" "0 < class_of os j"
  shows "\<exists>j'<j. class_of os j' = class_of os j - 1"
proof -
  let ?a = "first_occ os (os ! j)"
  have a: "?a \<le> j" using first_occ_le [OF assms(1)] .
  have "class_of os j - 1 < length (remdups (take ?a os))"
    using assms(2) by (simp add: class_of_def)
  from class_of_onto_take [OF _ this] a assms(1)
  obtain j' where "j' < ?a" "class_of os j' = class_of os j - 1" by auto
  then show ?thesis using a by (auto intro: exI [of _ j'])
qed


lemma strcmp_str_eq: "strcmp_str a b = 0 \<longleftrightarrow> a = b"
  by (induction a b rule: strcmp_str.induct) auto

lemma forget_idx_output: "forget_idx h' = forget_idx h \<Longrightarrow> host_output h' = host_output h"
  by (cases "cp h"; cases "cp h'")
     (auto simp: forget_idx_def host_output_def Host.ext_inject ChildProcess.ext_inject
      dest!: arg_cong [where f = "\<lambda>h. map_option output_buf (cp h)"])

lemma forget_idx_ready: "forget_idx h' = forget_idx h \<Longrightarrow> join_ready h' = join_ready h"
  by (cases "cp h"; cases "cp h'")
     (auto simp: forget_idx_def join_ready_def
      dest!: arg_cong [where f = "\<lambda>h. map_option output_buf (cp h)"])

lemma forget_idx_name: "forget_idx h' = forget_idx h \<Longrightarrow> name h' = name h"
  by (auto simp: forget_idx_def dest!: arg_cong [where f = name])

lemma map_forget_nth:
  "map forget_idx hs' = map forget_idx hs \<Longrightarrow> j < length hs \<Longrightarrow>
   forget_idx (hs' ! j) = forget_idx (hs ! j)"
  by (metis length_map nth_map)

lemma set_output_idx_forget:
  "map forget_idx (set_output_idx hs j v) = map forget_idx hs"
proof (cases "j < length hs")
  case True
  have "forget_idx ((hs ! j)\<lparr>cp := map_option (\<lambda>c. c\<lparr>output_idx := v\<rparr>) (cp (hs ! j))\<rparr>)
        = forget_idx (hs ! j)"
    by (cases "cp (hs ! j)") (simp_all add: forget_idx_def)
  then show ?thesis using True
    by (simp add: set_output_idx_def map_update list_update_same_conv)
next
  case False
  then have "hs[j := (hs ! j)\<lparr>cp := map_option (\<lambda>c. c\<lparr>output_idx := v\<rparr>) (cp (hs ! j))\<rparr>] = hs"
    by (intro list_update_beyond) simp
  then show ?thesis by (simp only: set_output_idx_def)
qed

lemma set_output_idx_length [simp]: "length (set_output_idx hs j v) = length hs"
  by (simp add: set_output_idx_def)

lemma set_output_idx_idx:
  "k < length hs \<Longrightarrow> cp (hs ! j) \<noteq> None \<Longrightarrow>
   host_idx (set_output_idx hs j v ! k) = (if k = j then v else host_idx (hs ! k))"
  by (auto simp: set_output_idx_def host_idx_def)

lemma host_cp_ready:
  assumes "j < length hs" "join_ready (hs ! j)"
  shows "\<exists>c b. host_cp hs j = Inr c \<and> cp (hs ! j) = Some c \<and> output_idx c = host_idx (hs ! j) \<and>
           output_buf c = Some b \<and> c_str b = Inr (host_output (hs ! j))"
  using assms
  by (auto simp: host_cp_def deref_def join_ready_def host_idx_def host_output_def c_str_def
      split: option.splits)

lemma join_inner_result:
  assumes "\<forall>h\<in>set hs. join_ready h" "i < length hs" "\<forall>j\<in>set js. j < length hs"
    "distinct js" "i \<notin> set js"
  shows "\<exists>hs'. join_inner hs i idx num js =
             Inr (hs', num + int (length (filter (\<lambda>j. host_idx (hs ! j) < 0 \<and>
                                   host_output (hs ! j) = host_output (hs ! i)) js))) \<and>
           map forget_idx hs' = map forget_idx hs \<and>
           (\<forall>j<length hs. host_idx (hs' ! j) =
              (if j \<in> set js \<and> host_idx (hs ! j) < 0 \<and>
                  host_output (hs ! j) = host_output (hs ! i) then idx
               else host_idx (hs ! j)))"
  using assms
proof (induction js arbitrary: hs num)
  case Nil
  then show ?case by simp
next
  case (Cons j js)
  have j: "j < length hs" and rj: "join_ready (hs ! j)" and ri: "join_ready (hs ! i)"
    using Cons.prems by auto
  from host_cp_ready [OF j rj] obtain c2 b2 where c2: "host_cp hs j = Inr c2"
    "cp (hs ! j) = Some c2" "output_idx c2 = host_idx (hs ! j)" "output_buf c2 = Some b2"
    "c_str b2 = Inr (host_output (hs ! j))" by blast
  from host_cp_ready [OF Cons.prems(2) ri] obtain c1 b1 where c1: "host_cp hs i = Inr c1"
    "output_buf c1 = Some b1" "c_str b1 = Inr (host_output (hs ! i))" by blast
  have ih_prems: "\<forall>j\<in>set js. j < length hs" "distinct js" "i \<notin> set js" "j \<notin> set js"
    using Cons.prems by auto
  show ?case
  proof (cases "host_idx (hs ! j) < 0 \<and> host_output (hs ! j) = host_output (hs ! i)")
    case False
    have step: "join_inner hs i idx num (j # js) = join_inner hs i idx num js"
      using False c1 c2 by (auto simp: strcmp_def strcmp_str_eq)
    from Cons.IH [OF Cons.prems(1,2) ih_prems(1-3), of num]
    show ?thesis unfolding step using False by auto
  next
    case True
    let ?hs1 = "set_output_idx hs j idx"
    have step: "join_inner hs i idx num (j # js) = join_inner ?hs1 i idx (num + 1) js"
      using True c1 c2 by (simp add: strcmp_def strcmp_str_eq)
    have fg: "map forget_idx ?hs1 = map forget_idx hs" by (rule set_output_idx_forget)
    have r1: "\<forall>h\<in>set ?hs1. join_ready h"
    proof
      fix h assume "h \<in> set ?hs1"
      then obtain k where k: "k < length hs" "h = ?hs1 ! k" by (auto simp: in_set_conv_nth)
      then have "join_ready h = join_ready (hs ! k)"
        using map_forget_nth [OF fg] forget_idx_ready by blast
      then show "join_ready h" using Cons.prems(1) k by simp
    qed
    have o1: "\<And>k. k < length hs \<Longrightarrow> host_output (?hs1 ! k) = host_output (hs ! k)"
      using map_forget_nth [OF fg] forget_idx_output by blast
    have i1: "\<And>k. k < length hs \<Longrightarrow> host_idx (?hs1 ! k) = (if k = j then idx else host_idx (hs ! k))"
      using set_output_idx_idx c2(2) by simp
    have flt: "filter (\<lambda>k. host_idx (?hs1 ! k) < 0 \<and> host_output (?hs1 ! k) = host_output (?hs1 ! i)) js
             = filter (\<lambda>k. host_idx (hs ! k) < 0 \<and> host_output (hs ! k) = host_output (hs ! i)) js"
      using ih_prems o1 i1 Cons.prems(2) by (intro filter_cong) auto
    from Cons.IH [of ?hs1 "num + 1"] r1 Cons.prems(2) ih_prems
    obtain hs' where res: "join_inner ?hs1 i idx (num + 1) js =
             Inr (hs', num + 1 + int (length (filter (\<lambda>j. host_idx (?hs1 ! j) < 0 \<and>
                                   host_output (?hs1 ! j) = host_output (?hs1 ! i)) js)))"
      and fg': "map forget_idx hs' = map forget_idx ?hs1"
      and ix: "\<forall>k<length hs. host_idx (hs' ! k) =
              (if k \<in> set js \<and> host_idx (?hs1 ! k) < 0 \<and>
                  host_output (?hs1 ! k) = host_output (?hs1 ! i) then idx
               else host_idx (?hs1 ! k))"
      by auto
    have "\<forall>k<length hs. host_idx (hs' ! k) =
              (if k \<in> set (j # js) \<and> host_idx (hs ! k) < 0 \<and>
                  host_output (hs ! k) = host_output (hs ! i) then idx
               else host_idx (hs ! k))"
      using ix o1 i1 Cons.prems(2) True ih_prems(4) by auto
    then show ?thesis unfolding step res flt using fg fg' True by auto
  qed
qed


lemma forget_map_output:
  "map forget_idx hs' = map forget_idx hs \<Longrightarrow> map host_output hs' = map host_output hs"
proof -
  assume a: "map forget_idx hs' = map forget_idx hs"
  then have l: "length hs' = length hs" by (metis length_map)
  show ?thesis
  proof (rule nth_equalityI)
    show "length (map host_output hs') = length (map host_output hs)" using l by simp
  next
    fix j assume "j < length (map host_output hs')"
    then have j: "j < length hs" using l by simp
    then show "map host_output hs' ! j = map host_output hs ! j"
      using forget_idx_output [OF map_forget_nth [OF a j]] l by simp
  qed
qed

lemma forget_map_ready:
  assumes "map forget_idx hs' = map forget_idx hs" "\<forall>h\<in>set hs. join_ready h"
  shows "\<forall>h\<in>set hs'. join_ready h"
proof
  have l: "length hs' = length hs" using assms(1) by (metis length_map)
  fix h assume "h \<in> set hs'"
  then obtain k where k: "k < length hs" "h = hs' ! k" using l by (auto simp: in_set_conv_nth)
  then have "join_ready h = join_ready (hs ! k)"
    using map_forget_nth [OF assms(1)] forget_idx_ready by blast
  then show "join_ready h" using assms(2) k by simp
qed

lemma filter_same_output_count:
  assumes "i < n" "n = length os" "os ! i \<notin> set (take i os)"
  shows "length (filter (\<lambda>j. class_of os j = class_of os i) [0..<n])
         = Suc (length (filter (\<lambda>j. os ! j = os ! i) [Suc i..<n]))"
proof -
  have eq: "filter (\<lambda>j. class_of os j = class_of os i) [0..<n] = filter (\<lambda>j. os ! j = os ! i) [0..<n]"
    using assms(1,2) by (intro filter_cong) (auto simp: class_of_iff)
  have "[0..<i + (n - i)] = [0..<i] @ [i..<i + (n - i)]" by (rule upt_add_eq_append) simp
  then have "[0..<n] = [0..<i] @ [i..<n]" using assms(1) by simp
  then have split: "[0..<n] = [0..<i] @ [i] @ [Suc i..<n]"
    using assms(1) by (simp add: upt_conv_Cons)
  have before: "filter (\<lambda>j. os ! j = os ! i) [0..<i] = []"
  proof -
    have "\<And>j. j < i \<Longrightarrow> os ! j \<noteq> os ! i"
    proof
      fix j assume j: "j < i" and e: "os ! j = os ! i"
      have "take i os ! j \<in> set (take i os)" using j assms(1,2) by (intro nth_mem) simp
      then show False using e j assms(3) by simp
    qed
    then show ?thesis by (auto simp: filter_empty_conv)
  qed
  show ?thesis unfolding eq by (subst split) (simp add: before)
qed

lemma join_outer_result:
  assumes "\<forall>h\<in>set hs. join_ready h" "os = map host_output hs" "length hs = n" "i \<le> n"
    and "\<forall>j<n. (0 \<le> host_idx (hs ! j)) = (os ! j \<in> set (take i os))"
    and "\<forall>j<n. 0 \<le> host_idx (hs ! j) \<longrightarrow> host_idx (hs ! j) = int (class_of os j)"
    and "idx = int (length (remdups (take i os)))"
    and "length count = n"
    and "\<forall>k<length (remdups (take i os)).
           count ! k = Some (int (length (filter (\<lambda>j. class_of os j = k) [0..<n])))"
  shows "\<exists>hs' count'. join_outer hs idx count [i..<n] =
             Inr (hs', int (length (remdups os)), count') \<and>
           map forget_idx hs' = map forget_idx hs \<and>
           (\<forall>j<n. host_idx (hs' ! j) = int (class_of os j)) \<and>
           length count' = n \<and>
           (\<forall>k<length (remdups os).
              count' ! k = Some (int (length (filter (\<lambda>j. class_of os j = k) [0..<n]))))"
  using assms
proof (induction "n - i" arbitrary: hs idx count i)
  case 0
  then have i: "i = n" by simp
  have "take i os = os" using i 0 by simp
  then show ?case using 0 i by (auto intro!: exI [of _ hs] exI [of _ count])
next
  case (Suc m)
  note rdy = Suc.prems(1) and os = Suc.prems(2) and n = Suc.prems(3)
    and A = Suc.prems(5) and B = Suc.prems(6) and C = Suc.prems(7) and D = Suc.prems(8)
    and E = Suc.prems(9)
  have i: "i < n" using Suc.hyps(2) by simp
  have los: "length os = n" using os n by simp
  have upt: "[i..<n] = i # [Suc i..<n]" using i by (simp add: upt_conv_Cons)
  have ri: "join_ready (hs ! i)" using rdy i n by simp
  from host_cp_ready [of i hs] i n ri obtain c1 where c1: "host_cp hs i = Inr c1"
    "cp (hs ! i) = Some c1" "output_idx c1 = host_idx (hs ! i)" by blast
  have m: "m = n - Suc i" using Suc.hyps(2) by simp
  have si: "Suc i \<le> n" using i by simp
  show ?case
  proof (cases "0 \<le> host_idx (hs ! i)")
    case True
    then have old: "os ! i \<in> set (take i os)" using A i by simp
    have st: "set (take (Suc i) os) = set (take i os)"
      using old i los by (auto simp: take_Suc_conv_app_nth)
    have lr: "length (remdups (take (Suc i) os)) = length (remdups (take i os))"
      using length_remdups_take_Suc [of i os] i los old by simp
    have step: "join_outer hs idx count [i..<n] = join_outer hs idx count [Suc i..<n]"
      unfolding upt using c1 True by simp
    have A': "\<forall>j<n. (0 \<le> host_idx (hs ! j)) = (os ! j \<in> set (take (Suc i) os))"
      using A st by simp
    have C': "idx = int (length (remdups (take (Suc i) os)))" using C lr by simp
    have E': "\<forall>k<length (remdups (take (Suc i) os)).
           count ! k = Some (int (length (filter (\<lambda>j. class_of os j = k) [0..<n])))"
      using E lr by simp
    from Suc.hyps(1) [OF m rdy os n si A' B C' D E']
    show ?thesis unfolding step .
  next
    case False
    then have new: "os ! i \<notin> set (take i os)" using A i by simp
    have lr: "length (remdups (take (Suc i) os)) = Suc (length (remdups (take i os)))"
      using length_remdups_take_Suc [of i os] i los new by simp
    have ci: "class_of os i = length (remdups (take i os))"
      using class_of_new i los new by blast
    let ?hs1 = "set_output_idx hs i idx"
    have fg1: "map forget_idx ?hs1 = map forget_idx hs" by (rule set_output_idx_forget)
    have rdy1: "\<forall>h\<in>set ?hs1. join_ready h" using forget_map_ready [OF fg1 rdy] .
    have os1: "map host_output ?hs1 = os" using forget_map_output [OF fg1] os by simp
    have ix1: "\<And>k. k < n \<Longrightarrow> host_idx (?hs1 ! k) = (if k = i then idx else host_idx (hs ! k))"
      using set_output_idx_idx [of _ hs i idx] c1(2) n by simp
    have out1: "\<And>k. k < n \<Longrightarrow> host_output (?hs1 ! k) = os ! k"
    proof -
      fix k assume k: "k < n"
      then have "map host_output ?hs1 ! k = host_output (?hs1 ! k)" using n by simp
      then show "host_output (?hs1 ! k) = os ! k" using os1 by simp
    qed
    from join_inner_result [of ?hs1 i "[Suc i..<n]" idx 1] rdy1 i n
    obtain hs2 where inner: "join_inner ?hs1 i idx 1 [Suc i..<n] =
             Inr (hs2, 1 + int (length (filter (\<lambda>j. host_idx (?hs1 ! j) < 0 \<and>
                                   host_output (?hs1 ! j) = host_output (?hs1 ! i)) [Suc i..<n])))"
      and fg2: "map forget_idx hs2 = map forget_idx ?hs1"
      and ix2: "\<forall>j<n. host_idx (hs2 ! j) =
              (if j \<in> set [Suc i..<n] \<and> host_idx (?hs1 ! j) < 0 \<and>
                  host_output (?hs1 ! j) = host_output (?hs1 ! i) then idx
               else host_idx (?hs1 ! j))"
      by auto
    have idx0: "0 \<le> idx" using C by simp
    have unassigned: "\<And>j. j < n \<Longrightarrow> os ! j = os ! i \<Longrightarrow> j \<noteq> i \<Longrightarrow> i < j \<and> host_idx (hs ! j) < 0"
    proof -
      fix j assume j: "j < n" and e: "os ! j = os ! i" and ne: "j \<noteq> i"
      have "\<not> j < i"
      proof
        assume "j < i"
        then have "take i os ! j \<in> set (take i os)" using i los by (intro nth_mem) simp
        then show False using e new \<open>j < i\<close> by simp
      qed
      moreover have "\<not> 0 \<le> host_idx (hs ! j)" using A j e new by simp
      ultimately show "i < j \<and> host_idx (hs ! j) < 0" using ne by simp
    qed
    have ix2': "\<forall>j<n. host_idx (hs2 ! j) = (if os ! j = os ! i then idx else host_idx (hs ! j))"
    proof (intro allI impI)
      fix j assume j: "j < n"
      show "host_idx (hs2 ! j) = (if os ! j = os ! i then idx else host_idx (hs ! j))"
      proof (cases "j = i")
        case True
        then show ?thesis using ix2 j ix1 [OF j] by simp
      next
        case ne: False
        show ?thesis
        proof (cases "os ! j = os ! i")
          case True
          then show ?thesis
            using ix2 j ix1 [OF j] out1 [OF j] out1 [OF i] unassigned [OF j True ne] ne by simp
        next
          case False
          then show ?thesis
            using ix2 j ix1 [OF j] out1 [OF j] out1 [OF i] ne by simp
        qed
      qed
    qed
    have cnt: "length (filter (\<lambda>j. host_idx (?hs1 ! j) < 0 \<and>
                  host_output (?hs1 ! j) = host_output (?hs1 ! i)) [Suc i..<n])
             = length (filter (\<lambda>j. os ! j = os ! i) [Suc i..<n])"
    proof -
      have "filter (\<lambda>j. host_idx (?hs1 ! j) < 0 \<and>
                  host_output (?hs1 ! j) = host_output (?hs1 ! i)) [Suc i..<n]
          = filter (\<lambda>j. os ! j = os ! i) [Suc i..<n]"
      proof (rule filter_cong [OF refl])
        fix j assume "j \<in> set [Suc i..<n]"
        then have j: "j < n" "j \<noteq> i" by auto
        show "(host_idx (?hs1 ! j) < 0 \<and> host_output (?hs1 ! j) = host_output (?hs1 ! i))
              = (os ! j = os ! i)"
          using ix1 [OF j(1)] out1 [OF j(1)] out1 [OF i] j unassigned [OF j(1)] by auto
      qed
      then show ?thesis by simp
    qed
    let ?num = "1 + int (length (filter (\<lambda>j. os ! j = os ! i) [Suc i..<n]))"
    have numeq: "?num = int (length (filter (\<lambda>j. class_of os j = class_of os i) [0..<n]))"
      using filter_same_output_count [OF i los [symmetric] new] by simp
    have bound: "0 \<le> idx \<and> idx < int (length count)"
      using C D i length_remdups_take_le [of i os] by simp
    let ?count' = "count[nat idx := Some ?num]"
    have step: "join_outer hs idx count [i..<n] = join_outer hs2 (idx + 1) ?count' [Suc i..<n]"
      unfolding upt using c1 False inner cnt bound by simp
    have fg: "map forget_idx hs2 = map forget_idx hs" using fg2 fg1 by simp
    have rdy2: "\<forall>h\<in>set hs2. join_ready h" using forget_map_ready [OF fg rdy] .
    have os2: "os = map host_output hs2" using forget_map_output [OF fg] os by simp
    have "length (map forget_idx hs2) = length (map forget_idx hs)" using fg by simp
    then have n2: "length hs2 = n" using n by simp
    have st: "set (take (Suc i) os) = insert (os ! i) (set (take i os))"
      using i los by (auto simp: take_Suc_conv_app_nth)
    have A': "\<forall>j<n. (0 \<le> host_idx (hs2 ! j)) = (os ! j \<in> set (take (Suc i) os))"
      using ix2' A st idx0 by auto
    have B': "\<forall>j<n. 0 \<le> host_idx (hs2 ! j) \<longrightarrow> host_idx (hs2 ! j) = int (class_of os j)"
    proof (intro allI impI)
      fix j assume j: "j < n" and "0 \<le> host_idx (hs2 ! j)"
      then show "host_idx (hs2 ! j) = int (class_of os j)"
        using ix2' B C ci class_of_same [of os j i] by (cases "os ! j = os ! i") auto
    qed
    have C': "idx + 1 = int (length (remdups (take (Suc i) os)))" using C lr by simp
    have D': "length ?count' = n" using D by simp
    have E': "\<forall>k<length (remdups (take (Suc i) os)).
           ?count' ! k = Some (int (length (filter (\<lambda>j. class_of os j = k) [0..<n])))"
    proof (intro allI impI)
      fix k assume k: "k < length (remdups (take (Suc i) os))"
      show "?count' ! k = Some (int (length (filter (\<lambda>j. class_of os j = k) [0..<n])))"
      proof (cases "k = length (remdups (take i os))")
        case True
        then have "nat idx = k" using C by simp
        moreover have "k < length count" using bound C True by simp
        ultimately show ?thesis using numeq True ci by simp
      next
        case False
        then have "k < length (remdups (take i os))" using k lr by simp
        moreover have "nat idx \<noteq> k" using C False by simp
        ultimately show ?thesis using E by simp
      qed
    qed
    from Suc.hyps(1) [OF m rdy2 os2 n2 si A' B' C' D' E']
    show ?thesis unfolding step using fg by auto
  qed
qed


lemma join_print_members_result:
  assumes "\<forall>h\<in>set hs. cp h \<noteq> None"
  shows "join_print_members hs k (ob, ou) =
           Inr (if class_members hs k = [] then ob
                else output_buf (the (cp (last (class_members hs k)))),
                printf (concat (map (\<lambda>h. '' '' @ name h) (class_members hs k))) ou)"
  using assms
proof (induction hs arbitrary: ob ou)
  case Nil
  then show ?case by (simp add: class_members_def)
next
  case (Cons h hs)
  then obtain c where c: "cp h = Some c" by auto
  show ?case
  proof (cases "output_idx c = k")
    case True
    then have hi: "host_idx h = k" using c by (simp add: host_idx_def)
    have "join_print_members (h # hs) k (ob, ou) =
          join_print_members hs k (output_buf c, printf ('' '' @ name h) ou)"
      using c True by simp
    also have "\<dots> = Inr (if class_members hs k = [] then output_buf c
                else output_buf (the (cp (last (class_members hs k)))),
                printf (concat (map (\<lambda>h. '' '' @ name h) (class_members hs k)))
                  (printf ('' '' @ name h) ou))"
      using Cons by simp
    finally show ?thesis using hi c by (simp add: class_members_def)
  next
    case False
    then have hi: "host_idx h \<noteq> k" using c by (simp add: host_idx_def)
    have "join_print_members (h # hs) k (ob, ou) = join_print_members hs k (ob, ou)"
      using c False by simp
    then show ?thesis using Cons hi by (simp add: class_members_def)
  qed
qed

lemma ready_last_member:
  assumes "\<forall>h\<in>set hs. join_ready h" "class_members hs k \<noteq> []"
  shows "\<exists>b. output_buf (the (cp (last (class_members hs k)))) = Some b \<and>
              c_str b = Inr (host_output (last (class_members hs k)))"
proof -
  have "last (class_members hs k) \<in> set (class_members hs k)" using assms(2) by simp
  then have "last (class_members hs k) \<in> set hs" by (simp add: class_members_def)
  then have "join_ready (last (class_members hs k))" using assms(1) by blast
  then show ?thesis
    by (auto simp: join_ready_def host_output_def c_str_def split: option.splits)
qed

lemma join_print_loop_result:
  assumes "\<forall>h\<in>set hs. join_ready h"
    and "\<forall>k\<in>set ks. 0 \<le> k \<and> k < int (length count) \<and>
           count ! nat k = Some (int (length (class_members hs k))) \<and> class_members hs k \<noteq> []"
  shows "join_print_loop col hs num_hosts count ou ks =
           Inr (printf (concat (map (class_block col hs num_hosts) ks)) ou)"
  using assms(2)
proof (induction ks arbitrary: ou)
  case Nil
  then show ?case by simp
next
  case (Cons k ks)
  have k: "0 \<le> k" "k < int (length count)"
    "count ! nat k = Some (int (length (class_members hs k)))" "class_members hs k \<noteq> []"
    using Cons.prems by auto
  have cpn: "\<forall>h\<in>set hs. cp h \<noteq> None"
    using assms(1) by (auto simp: join_ready_def split: option.splits)
  from ready_last_member [OF assms(1) k(4)] obtain b where
    b: "output_buf (the (cp (last (class_members hs k)))) = Some b"
       "c_str b = Inr (host_output (last (class_members hs k)))" by blast
  have ih: "\<And>ou. join_print_loop col hs num_hosts count ou ks =
           Inr (printf (concat (map (class_block col hs num_hosts) ks)) ou)"
    using Cons by simp
  have "join_print_loop col hs num_hosts count ou (k # ks) =
        join_print_loop col hs num_hosts count (printf (class_block col hs num_hosts k) ou) ks"
    using k b by (simp add: join_print_members_result [OF cpn] class_block_def)
  then show ?case by (simp add: ih)
qed


lemma class_members_length:
  assumes "length hs' = n" "\<forall>j<n. host_idx (hs' ! j) = int (class_of os j)"
  shows "length (class_members hs' (int k)) = length (filter (\<lambda>j. class_of os j = k) [0..<n])"
proof -
  have "{i. i < length hs' \<and> host_idx (hs' ! i) = int k}
        = {i. i < length [0..<n] \<and> class_of os ([0..<n] ! i) = k}"
    using assms by auto
  then show ?thesis
    unfolding class_members_def length_filter_conv_card by simp
qed

lemma class_members_nonempty:
  assumes "length hs' = n" "\<forall>j<n. host_idx (hs' ! j) = int (class_of os j)"
    "length os = n" "k < length (remdups os)"
  shows "class_members hs' (int k) \<noteq> []"
proof -
  from class_of_onto_take [of n os k] assms(3,4)
  obtain j where j: "j < n" "class_of os j = k" by auto
  then have "hs' ! j \<in> set hs'" "host_idx (hs' ! j) = int k" using assms(1,2) by auto
  then show ?thesis by (auto simp: class_members_def filter_empty_conv)
qed

subsection \<open>The classes of the join aggregator\<close>

text \<open>
  Claim C3, amended. When the aggregator runs on a roster whose hosts all have their
  captured buffer and no class yet, it changes nothing of the roster but the class
  indices. Every host gets the class index \<open>class_of\<close> of its output among the
  outputs in roster order, so: the classes \<open>0, ..., K - 1\<close> together hold every
  roster position, and each position has one index, which makes them disjoint; two
  hosts have the same index if and only if their captured outputs are equal as
  nul-terminated strings, that is up to their first nul byte; a host with index
  \<open>k > 0\<close> comes after some host with index \<open>k - 1\<close>, so indices follow first-seen
  roster order; and the report lists, for each class in index order, its members in
  roster order. Byte-identity of the captured outputs, as the claim states it, is not
  what decides: two hosts whose streams are \<open>x, nul, y\<close> and \<open>x, nul, z\<close> share
  class 0 (\<open>join_nul_counterexample\<close>).
\<close>
theorem join_classes_partition:
  assumes ready: "\<forall>h\<in>set (hosts w). join_ready h \<and> host_idx h = -1"
    and nh: "num_hosts = int (length (hosts w))" and ne: "hosts w \<noteq> []"
    and mo: "malloc_ok (env_of cfg)"
  shows "\<exists>w'. join_mode_finish cfg num_hosts w = Inr w' \<and>
           map forget_idx (hosts w') = map forget_idx (hosts w) \<and>
           (\<forall>j<length (hosts w).
              host_idx (hosts w' ! j) = int (class_of (map host_output (hosts w)) j)) \<and>
           (\<Union>k\<in>{..<length (remdups (map host_output (hosts w)))}.
              {j. j < length (hosts w) \<and> host_idx (hosts w' ! j) = int k})
             = {..<length (hosts w)} \<and>
           (\<forall>j<length (hosts w). \<forall>k<length (hosts w).
              (host_idx (hosts w' ! j) = host_idx (hosts w' ! k))
                = (host_output (hosts w ! j) = host_output (hosts w ! k))) \<and>
           (\<forall>j<length (hosts w). 0 < host_idx (hosts w' ! j) \<longrightarrow>
              (\<exists>j'<j. host_idx (hosts w' ! j') = host_idx (hosts w' ! j) - 1)) \<and>
           stdout (outs w') = stdout (outs w) @ [NL] @ ''finished with ''
             @ magenta (colors_of cfg)
             @ show_int (int (length (remdups (map host_output (hosts w)))))
             @ reset (colors_of cfg) @ '' unique result''
             @ pluralize (int (length (remdups (map host_output (hosts w))))) @ [NL, NL]
             @ concat (map (class_block (colors_of cfg) (hosts w') num_hosts)
                         (map int [0..<length (remdups (map host_output (hosts w)))]))"
proof -
  define os where "os = map host_output (hosts w)"
  define n where "n = length (hosts w)"
  define K where "K = length (remdups os)"
  have n0: "0 < n" using ne by (simp add: n_def)
  have los: "length os = n" by (simp add: os_def n_def)
  have rdy: "\<forall>h\<in>set (hosts w). join_ready h" using ready by simp
  have A: "\<forall>j<n. (0 \<le> host_idx (hosts w ! j)) = (os ! j \<in> set (take 0 os))"
    using ready by (simp add: n_def)
  have B: "\<forall>j<n. 0 \<le> host_idx (hosts w ! j) \<longrightarrow> host_idx (hosts w ! j) = int (class_of os j)"
    using ready by (simp add: n_def)
  from join_outer_result [of "hosts w" os n 0 0 "replicate n None"] rdy A B
  obtain hs' count' where jo: "join_outer (hosts w) 0 (replicate n None) [0..<n] =
             Inr (hs', int K, count')"
    and fg: "map forget_idx hs' = map forget_idx (hosts w)"
    and ix: "\<forall>j<n. host_idx (hs' ! j) = int (class_of os j)"
    and lc: "length count' = n"
    and cn: "\<forall>k<K. count' ! k = Some (int (length (filter (\<lambda>j. class_of os j = k) [0..<n])))"
    by (auto simp: os_def n_def K_def)
  have "length (map forget_idx hs') = length (map forget_idx (hosts w))" using fg by simp
  then have n': "length hs' = n" by (simp add: n_def)
  have rdy': "\<forall>h\<in>set hs'. join_ready h" using forget_map_ready [OF fg rdy] .
  have Kn: "K \<le> n" unfolding K_def using length_remdups_leq [of os] los by simp
  have pl: "\<forall>k\<in>set (map int [0..<K]). 0 \<le> k \<and> k < int (length count') \<and>
           count' ! nat k = Some (int (length (class_members hs' k))) \<and> class_members hs' k \<noteq> []"
  proof
    fix k assume "k \<in> set (map int [0..<K])"
    then obtain k' where k': "k = int k'" "k' < K" by auto
    show "0 \<le> k \<and> k < int (length count') \<and>
           count' ! nat k = Some (int (length (class_members hs' k))) \<and> class_members hs' k \<noteq> []"
      using k' Kn lc cn class_members_length [OF n' ix, of k']
        class_members_nonempty [OF n' ix los, of k'] by (simp add: K_def)
  qed
  let ?col = "colors_of cfg"
  let ?o1 = "printf (''finished with '' @ magenta ?col @ show_int (int K) @ reset ?col
                           @ '' unique result'' @ pluralize (int K) @ [NL, NL])
                     (printf [NL] (outs w))"
  let ?w' = "w\<lparr>hosts := hs', outs := printf (concat (map (class_block ?col hs' num_hosts)
                  (map int [0..<K]))) ?o1\<rparr>"
  have jm: "join_mode_finish cfg num_hosts w = Inr ?w'"
    using jo mo n0 nh join_print_loop_result [OF rdy' pl, of ?col num_hosts ?o1]
    by (simp add: join_mode_finish_def safe_malloc_def n_def Let_def)
  have p1: "\<forall>j<n. host_idx (hs' ! j) = int (class_of os j)" using ix .
  have p2: "(\<Union>k\<in>{..<K}. {j. j < n \<and> host_idx (hs' ! j) = int k}) = {..<n}"
  proof
    show "(\<Union>k\<in>{..<K}. {j. j < n \<and> host_idx (hs' ! j) = int k}) \<subseteq> {..<n}" by auto
    show "{..<n} \<subseteq> (\<Union>k\<in>{..<K}. {j. j < n \<and> host_idx (hs' ! j) = int k})"
    proof
      fix j assume "j \<in> {..<n}"
      then have j: "j < n" by simp
      then have "class_of os j < K" unfolding K_def using class_of_lt los by blast
      then show "j \<in> (\<Union>k\<in>{..<K}. {j. j < n \<and> host_idx (hs' ! j) = int k})"
        using j ix by auto
    qed
  qed
  have p3: "\<forall>j<n. \<forall>k<n. (host_idx (hs' ! j) = host_idx (hs' ! k))
                = (host_output (hosts w ! j) = host_output (hosts w ! k))"
  proof (intro allI impI)
    fix j k assume jk: "j < n" "k < n"
    have "(class_of os j = class_of os k) = (os ! j = os ! k)"
      using class_of_iff [of j os k] jk los by simp
    then show "(host_idx (hs' ! j) = host_idx (hs' ! k))
                = (host_output (hosts w ! j) = host_output (hosts w ! k))"
      using ix jk by (simp add: os_def n_def)
  qed
  have p4: "\<forall>j<n. 0 < host_idx (hs' ! j) \<longrightarrow> (\<exists>j'<j. host_idx (hs' ! j') = host_idx (hs' ! j) - 1)"
  proof (intro allI impI)
    fix j assume j: "j < n" and pos: "0 < host_idx (hs' ! j)"
    then have "0 < class_of os j" using ix by simp
    from class_of_first_seen [OF _ this] j los
    obtain j' where j': "j' < j" "class_of os j' = class_of os j - 1" by auto
    then have "host_idx (hs' ! j') = host_idx (hs' ! j) - 1"
      using ix j \<open>0 < class_of os j\<close> by (simp add: of_nat_diff)
    then show "\<exists>j'<j. host_idx (hs' ! j') = host_idx (hs' ! j) - 1" using j' by blast
  qed
  show ?thesis
    apply (rule exI [of _ ?w'])
    using jm fg p1 p2 p3 p4
    by (simp add: os_def [symmetric] n_def [symmetric] K_def [symmetric])
qed


theorem join_classes_partition_witness:
  "list_all (\<lambda>h. join_ready h \<and> host_idx h = -1) (hosts captured_world) \<and>
   (\<exists>w'. join_mode_finish join_cfg 3 captured_world = Inr w' \<and>
      (\<forall>j<length (hosts captured_world).
          host_idx (hosts w' ! j) = int (class_of (map host_output (hosts captured_world)) j))) \<and>
   map (class_of (map host_output (hosts captured_world))) [0, 1, 2] = [0, 1, 0]"
proof -
  have r: "\<forall>h\<in>set (hosts captured_world). join_ready h \<and> host_idx h = -1"
    by code_simp
  have n: "(3::int) = int (length (hosts captured_world))" by code_simp
  have ne: "hosts captured_world \<noteq> []" by code_simp
  have mo: "malloc_ok (env_of join_cfg)" by code_simp
  have c: "map (class_of (map host_output (hosts captured_world))) [0, 1, 2] = [0, 1, 0]"
    by code_simp
  have "\<exists>w'. join_mode_finish join_cfg 3 captured_world = Inr w' \<and>
      (\<forall>j<length (hosts captured_world).
          host_idx (hosts w' ! j) = int (class_of (map host_output (hosts captured_world)) j))"
    using join_classes_partition [OF r n ne mo]
    by (elim exE conjE) (rule exI, intro conjI, assumption+)
  moreover have "list_all (\<lambda>h. join_ready h \<and> host_idx h = -1) (hosts captured_world)"
    using r by (simp add: list_all_iff)
  ultimately show ?thesis using c by (intro conjI)
qed


theorem join_nul_counterexample:
  "map_sum id (map host_idx \<circ> hosts)
     (main_run join_cfg [host_create ''a'', host_create ''b'']
        [[(3, [Data [CHR ''x'', NUL, CHR ''y''], Data []]),
          (5, [Data [CHR ''x'', NUL, CHR ''z''], Data []])]]) = Inr [0, 0] \<and>
   map_sum id (map (output_buf \<circ> the \<circ> cp) \<circ> hosts)
     (main_run join_cfg [host_create ''a'', host_create ''b'']
        [[(3, [Data [CHR ''x'', NUL, CHR ''y''], Data []]),
          (5, [Data [CHR ''x'', NUL, CHR ''z''], Data []])]])
     = Inr [Some [CHR ''x'', NUL, CHR ''y'', NUL, CHR ''?''],
            Some [CHR ''x'', NUL, CHR ''z'', NUL, CHR ''?'']]"
  by code_simp

subsection \<open>The invariant of the main loop\<close>

lemma poke_same: "poke f i c = Inr f' \<Longrightarrow> same_stream f f'"
  by (auto simp: poke_def same_stream_def split: option.splits if_splits)

lemma same_stream_offset [simp]: "same_stream f (f'\<lparr>offset := v\<rparr>) = same_stream f f'"
  by (simp add: same_stream_def)

lemma same_stream_buffer [simp]: "same_stream f (f'\<lparr>buffer := v\<rparr>) = same_stream f f'"
  by (simp add: same_stream_def)

lemma line_by_line_step_same:
  "line_by_line_step opt col hs (f, ou) c = Inr (f', ou') \<Longrightarrow> same_stream f f'"
  by (auto simp: line_by_line_step_def bindE_Inr_iff assert_def same_stream_def
      split: if_splits dest!: poke_same)

lemma line_by_line_loop_same:
  "line_by_line_loop opt col hs (f, ou) cs = Inr (f', ou') \<Longrightarrow> same_stream f f'"
proof (induction cs arbitrary: f ou)
  case Nil
  then show ?case by simp
next
  case (Cons c cs)
  then obtain f1 ou1 where "line_by_line_step opt col hs (f, ou) c = Inr (f1, ou1)"
    "line_by_line_loop opt col hs (f1, ou1) cs = Inr (f', ou')"
    by (auto simp: bindE_Inr_iff)
  then show ?case using Cons.IH line_by_line_step_same same_stream_trans by blast
qed

lemma process_data_join_loop_same:
  "process_data_join_loop opt f cs = Inr f' \<Longrightarrow> same_stream f f'"
proof (induction cs arbitrary: f)
  case Nil
  then show ?case by simp
next
  case (Cons c cs)
  show ?case
  proof (cases "offset f < max_output_length opt \<or> offset f = max_line_length opt")
    case False
    then show ?thesis using Cons.prems by simp
  next
    case True
    then obtain f1 ch where p: "poke f (offset f) ch = Inr f1"
      and l: "process_data_join_loop opt (f1\<lparr>offset := offset f + 1\<rparr>) cs = Inr f'"
      using Cons.prems by (auto simp: bindE_Inr_iff split: if_splits)
    have "same_stream f f1" using poke_same [OF p] .
    moreover have "same_stream (f1\<lparr>offset := offset f + 1\<rparr>) f'" using Cons.IH [OF l] .
    ultimately show ?thesis by (simp add: same_stream_def)
  qed
qed

lemma handle_bytes_same:
  "handle_bytes opt col hs (f, ou) buf = Inr (f', ou') \<Longrightarrow> same_stream f f'"
  by (cases "mode opt")
     (auto simp: handle_bytes_def process_data_line_by_line_def process_data_group_def
        process_data_join_def bindE_Inr_iff Let_def
      dest: line_by_line_loop_same process_data_join_loop_same)

lemma read_eof_mode_frame:
  "read_eof_mode opt col hs (f, c, ou) = Inr (f', c', ou') \<Longrightarrow>
   same_stream f f' \<and> (\<exists>ob. c' = c\<lparr>output_buf := ob\<rparr>)"
proof (cases "mode opt")
  case MODE_LINE_BY_LINE
  assume "read_eof_mode opt col hs (f, c, ou) = Inr (f', c', ou')"
  then have "same_stream f f'" "c' = c"
    using MODE_LINE_BY_LINE
    by (auto simp: read_eof_mode_def bindE_Inr_iff same_stream_def split: if_splits
        dest!: poke_same)
  then show ?thesis by (auto intro: exI [of _ "output_buf c"])
next
  case MODE_GROUP
  assume "read_eof_mode opt col hs (f, c, ou) = Inr (f', c', ou')"
  then show ?thesis using MODE_GROUP
    by (auto simp: read_eof_mode_def intro: exI [of _ "output_buf c"])
next
  case MODE_JOIN
  assume "read_eof_mode opt col hs (f, c, ou) = Inr (f', c', ou')"
  then show ?thesis using MODE_JOIN
    by (auto simp: read_eof_mode_def bindE_Inr_iff same_stream_def split: if_splits
        dest!: poke_same)
qed

lemma read_eof_frame:
  assumes "read_eof opt col f w = Inr (f', w')" "host_cp (hosts w) (host f) = Inr c"
  shows "same_stream f f' \<and> ticks w' = ticks w \<and> waited w' = waited w \<and>
         watcher w' = filter (\<lambda>e. fst e \<noteq> get_fd (ptype f) c) (watcher w) \<and>
         (\<exists>ob. hosts w' = (hosts w)[host f := (hosts w ! host f)
                    \<lparr>cp := Some ((set_fd (ptype f) (- 2) c)\<lparr>output_buf := ob\<rparr>)\<rparr>])"
proof -
  have d: "deref (hosts w) (host f) = Inr (hosts w ! host f)"
    using assms(2) by (auto simp: host_cp_def deref_def split: if_splits)
  from assms obtain f1 c1 ou1 where
    m: "read_eof_mode opt col ((hosts w)[host f := (hosts w ! host f)
            \<lparr>cp := Some (set_fd (ptype f) (- 2) c)\<rparr>])
          (f, set_fd (ptype f) (- 2) c, outs w) = Inr (f1, c1, ou1)"
    and r: "f' = f1" "w' = w\<lparr>hosts := (hosts w)[host f := (hosts w ! host f)\<lparr>cp := Some c1\<rparr>],
                       watcher := filter (\<lambda>e. fst e \<noteq> get_fd (ptype f) c) (watcher w), outs := ou1\<rparr>"
    using d by (auto simp: read_eof_def bindE_Inr_iff Let_def)
  from read_eof_mode_frame [OF m] r show ?thesis by auto
qed

lemma read_loop_frame:
  assumes "read_loop opt col f w rs = Inr (closed, f', w')" "host_cp (hosts w) (host f) = Inr c"
  shows "same_stream f f' \<and> ticks w' = ticks w \<and> waited w' = waited w \<and>
         (if closed then
            watcher w' = filter (\<lambda>e. fst e \<noteq> get_fd (ptype f) c) (watcher w) \<and>
            (\<exists>ob. hosts w' = (hosts w)[host f := (hosts w ! host f)
                    \<lparr>cp := Some ((set_fd (ptype f) (- 2) c)\<lparr>output_buf := ob\<rparr>)\<rparr>])
          else watcher w' = watcher w \<and> hosts w' = hosts w)"
  using assms
proof (induction rs arbitrary: f w)
  case Nil
  then show ?case by auto
next
  case (Cons r rs)
  show ?case
  proof (cases r)
    case ReadFail
    then show ?thesis using Cons.prems by simp
  next
    case (Data buf)
    show ?thesis
    proof (cases "buf = []")
      case True
      then obtain w1 where "read_eof opt col f w = Inr (f', w1)" "closed" "w' = w1"
        using Cons.prems Data by (auto simp: bindE_Inr_iff)
      then show ?thesis using read_eof_frame [of opt col f w f' w' c] Cons.prems(2) by auto
    next
      case False
      show ?thesis
      proof (cases "silent opt")
        case True
        then have "read_loop opt col f w rs = Inr (closed, f', w')"
          using Cons.prems(1) False Data by simp
        from Cons.IH [OF this Cons.prems(2)] show ?thesis .
      next
        case ns: False
        then obtain f1 ou1 where hb: "handle_bytes opt col (hosts w) (f, outs w) buf = Inr (f1, ou1)"
          and rl: "read_loop opt col f1 (w\<lparr>outs := ou1\<rparr>) rs = Inr (closed, f', w')"
          using Cons.prems Data False by (auto simp: bindE_Inr_iff)
        have s1: "same_stream f f1" using handle_bytes_same [OF hb] .
        then have c1: "host_cp (hosts (w\<lparr>outs := ou1\<rparr>)) (host f1) = Inr c"
          using Cons.prems(2) by (simp add: same_stream_def)
        from Cons.IH [OF rl c1] s1 show ?thesis
          by (auto simp: same_stream_def)
      qed
    qed
  qed
qed


lemma running_update:
  "i < length hs \<Longrightarrow>
   int (running (hs[i := h'])) =
     int (running hs) - (if alive (hs ! i) then 1 else 0) + (if alive h' then 1 else 0)"
proof (induction hs arbitrary: i)
  case Nil
  then show ?case by simp
next
  case (Cons h hs)
  show ?case
  proof (cases i)
    case 0
    then show ?thesis by (simp add: running_def)
  next
    case (Suc j)
    then have "j < length hs" using Cons.prems by simp
    from Cons.IH [OF this] Suc show ?thesis
      by (auto simp: running_def split: if_splits)
  qed
qed

lemma stdio_done_closed:
  "pipes_ok m c \<Longrightarrow> child_process_stdio_done c = all_pipes_closed m c"
  by (auto simp: pipes_ok_def child_process_stdio_done_def all_pipes_closed_def split: if_splits)

lemma pipes_ok_close:
  "pipes_ok m c \<Longrightarrow> pipe_of_mode m t \<Longrightarrow> pipes_ok m ((set_fd t (- 2) c)\<lparr>output_buf := ob\<rparr>)"
  by (cases t) (auto simp: pipes_ok_def pipe_of_mode_def set_fd_def split: if_splits)

lemma open_not_closed:
  "pipes_ok m c \<Longrightarrow> pipe_of_mode m t \<Longrightarrow> 0 \<le> get_fd t c \<Longrightarrow> \<not> all_pipes_closed m c"
  by (cases t) (auto simp: pipe_of_mode_def get_fd_def all_pipes_closed_def split: if_splits)

lemma get_fd_set_fd_other:
  "t' \<noteq> t \<Longrightarrow> get_fd t' ((set_fd t v c)\<lparr>output_buf := ob\<rparr>) = get_fd t' c"
  by (cases t; cases t') (auto simp: get_fd_def set_fd_def)

lemma wait_for_child_effect:
  assumes "host_cp (hosts w) i = Inr c" and "wait_for_child cfg i w = Inr w'"
  shows "\<exists>e t. hosts w' = (hosts w)[i := (hosts w ! i)\<lparr>cp := Some
                        (c\<lparr>exit_code := e, pid := - 2, finished_time := t\<rparr>)\<rparr>] \<and>
           watcher w' = watcher w \<and> waited w' = waited w @ [i]"
proof -
  have d: "deref (hosts w) i = Inr (hosts w ! i)"
    using assms(1) by (auto simp: host_cp_def deref_def split: if_splits)
  show ?thesis
    by (rule exI [of _ "exit_status (env_of cfg) i"],
        rule exI [of _ "clock (env_of cfg) (ticks w)"])
       (use assms d in \<open>auto simp: wait_for_child_def Let_def bindE_Inr_iff
          monotonic_time_ms_def split: if_splits\<close>)
qed


lemma handle_event_cases:
  assumes he: "handle_event cfg n s ev = Inr s'"
    and mo: "map_of (watcher (world s)) (fst ev) = Some f"
    and hc: "host_cp (hosts (world s)) (host f) = Inr c"
  shows "cur_host s' = cur_host s \<and>
     ((\<exists>f'. same_stream f f' \<and> hosts (world s') = hosts (world s) \<and>
            watcher (world s') = map (\<lambda>e. if fst e = fst ev then (fst e, f') else e)
                                    (watcher (world s)) \<and>
            waited (world s') = waited (world s) \<and> outstanding s' = outstanding s) \<or>
      (\<exists>ob. watcher (world s') = filter (\<lambda>e. fst e \<noteq> get_fd (ptype f) c) (watcher (world s)) \<and>
         ((\<not> child_process_stdio_done ((set_fd (ptype f) (- 2) c)\<lparr>output_buf := ob\<rparr>) \<and>
           hosts (world s') = (hosts (world s))[host f := (hosts (world s) ! host f)
               \<lparr>cp := Some ((set_fd (ptype f) (- 2) c)\<lparr>output_buf := ob\<rparr>)\<rparr>] \<and>
           waited (world s') = waited (world s) \<and> outstanding s' = outstanding s) \<or>
          (child_process_stdio_done ((set_fd (ptype f) (- 2) c)\<lparr>output_buf := ob\<rparr>) \<and>
           (\<exists>e t. hosts (world s') = (hosts (world s))[host f := (hosts (world s) ! host f)
               \<lparr>cp := Some ((set_fd (ptype f) (- 2) c)
                              \<lparr>output_buf := ob, exit_code := e, pid := - 2,
                                 finished_time := t\<rparr>)\<rparr>]) \<and>
           waited (world s') = waited (world s) @ [host f] \<and>
           outstanding s' = outstanding s - 1))))"
proof -
  let ?w = "world s"
  have hl: "host f < length (hosts ?w)"
    using hc by (auto simp: host_cp_def deref_def split: if_splits)
  from he mo hc obtain closed f' w1 where
    rl: "read_loop (opts_of cfg) (colors_of cfg) f ?w (snd ev) = Inr (closed, f', w1)"
    and rest: "(if closed then
                 bindE (host_cp (hosts w1) (host f)) (\<lambda>c.
                   if child_process_stdio_done c then
                     bindE (wait_for_child cfg (host f) w1) (\<lambda>w2.
                       let dn = done_count s + 1;
                           w3 = (if mode (opts_of cfg) = MODE_JOIN then
                                   let o1 = print_progress_line (colors_of cfg) dn n (outs w2)
                                   in w2\<lparr>outs := (if dn = n then printf [NL] o1 else o1)\<rparr>
                                 else w2)
                       in Inr (s\<lparr>world := w3, outstanding := outstanding s - 1,
                                 done_count := dn\<rparr>))
                   else Inr (s\<lparr>world := w1\<rparr>))
               else
                 Inr (s\<lparr>world := w1\<lparr>watcher :=
                        map (\<lambda>e. if fst e = fst ev then (fst e, f') else e)
                          (watcher w1)\<rparr>\<rparr>)) = Inr s'"
    by (auto simp: handle_event_def read_active_fd_def bindE_Inr_iff)
  note fr = read_loop_frame [OF rl hc]
  show ?thesis
  proof (cases closed)
    case False
    then have "s' = s\<lparr>world := w1\<lparr>watcher :=
                        map (\<lambda>e. if fst e = fst ev then (fst e, f') else e) (watcher w1)\<rparr>\<rparr>"
      using rest by simp
    then show ?thesis using fr False by auto
  next
    case True
    from fr True obtain ob where
      wt1: "watcher w1 = filter (\<lambda>e. fst e \<noteq> get_fd (ptype f) c) (watcher ?w)"
      and hs1: "hosts w1 = (hosts ?w)[host f := (hosts ?w ! host f)
                    \<lparr>cp := Some ((set_fd (ptype f) (- 2) c)\<lparr>output_buf := ob\<rparr>)\<rparr>]"
      and wd1: "waited w1 = waited ?w"
      by auto
    let ?c1 = "(set_fd (ptype f) (- 2) c)\<lparr>output_buf := ob\<rparr>"
    have hc1: "host_cp (hosts w1) (host f) = Inr ?c1"
      using hl hs1 by (simp add: host_cp_def deref_def)
    show ?thesis
    proof (cases "child_process_stdio_done ?c1")
      case False
      then have "s' = s\<lparr>world := w1\<rparr>" using rest True hc1 by simp
      then show ?thesis using wt1 hs1 wd1 False by auto
    next
      case dn: True
      from rest True hc1 dn obtain w2 where
        w2a: "wait_for_child cfg (host f) w1 = Inr w2"
        by (auto simp: bindE_Inr_iff)
      from wait_for_child_effect [OF hc1 w2a] w2a obtain e t where
        w2: "wait_for_child cfg (host f) w1 = Inr w2"
        "hosts w2 = (hosts w1)[host f := (hosts w1 ! host f)\<lparr>cp := Some
                        (?c1\<lparr>exit_code := e, pid := - 2, finished_time := t\<rparr>)\<rparr>]"
        "watcher w2 = watcher w1" "waited w2 = waited w1 @ [host f]"
        by blast
      have hs2: "hosts w2 = (hosts ?w)[host f := (hosts ?w ! host f)
               \<lparr>cp := Some ((set_fd (ptype f) (- 2) c)
                              \<lparr>output_buf := ob, exit_code := e, pid := - 2,
                                 finished_time := t\<rparr>)\<rparr>]"
        using w2(2) hs1 hl by simp
      from rest True hc1 dn w2(1) obtain w3 where
        s': "s' = s\<lparr>world := w3, outstanding := outstanding s - 1,
                     done_count := done_count s + 1\<rparr>"
        and w3: "hosts w3 = hosts w2" "watcher w3 = watcher w2" "waited w3 = waited w2"
        by (auto simp: Let_def split: if_splits)
      show ?thesis
        using s' w3 w2(3,4) wt1 wd1 hs2 dn by auto
    qed
  qed
qed


lemma loop_inv_entry:
  assumes inv: "loop_inv cfg s" and e: "(k, f) \<in> set (watcher (world s))"
  shows "0 \<le> k \<and> fd f = k \<and> host f < cur_host s \<and> host f < length (hosts (world s)) \<and>
         pipe_of_mode (mode (opts_of cfg)) (ptype f) \<and>
         (\<exists>c. cp (hosts (world s) ! host f) = Some c \<and> get_fd (ptype f) c = k \<and>
              host_cp (hosts (world s)) (host f) = Inr c \<and>
              pipes_ok (mode (opts_of cfg)) c \<and> pid c \<noteq> - 2 \<and>
              \<not> all_pipes_closed (mode (opts_of cfg)) c)"
proof -
  let ?m = "mode (opts_of cfg)" and ?hs = "hosts (world s)"
  have eo: "entry_ok ?m (cur_host s) ?hs (k, f)" using inv e by (auto simp: loop_inv_def)
  then have b: "0 \<le> k" "fd f = k" "host f < cur_host s" "pipe_of_mode ?m (ptype f)"
    by (auto simp: entry_ok_def)
  have hl: "host f < length ?hs" using b(3) inv by (simp add: loop_inv_def)
  from eo obtain c where c: "cp (?hs ! host f) = Some c" "get_fd (ptype f) c = k"
    by (auto simp: entry_ok_def split: option.splits)
  have "host_ok ?m (host f < cur_host s) (?hs ! host f)" using inv hl by (simp add: loop_inv_def)
  then have "host_ok ?m True (?hs ! host f)" using b(3) by simp
  then have po: "pipes_ok ?m c" "(pid c = - 2) = all_pipes_closed ?m c"
    using c by (auto simp: host_ok_def)
  have nc: "\<not> all_pipes_closed ?m c" using open_not_closed [OF po(1) b(4)] c(2) b(1) by simp
  have "host_cp ?hs (host f) = Inr c" using hl c by (simp add: host_cp_def deref_def)
  then show ?thesis using b hl c po nc by auto
qed

lemma loop_inv_not_closed:
  assumes inv: "loop_inv cfg s" and e: "(k, f) \<in> set (watcher (world s))"
    and ss: "same_stream f f'"
    and s': "cur_host s' = cur_host s" "hosts (world s') = hosts (world s)"
      "watcher (world s') = map (\<lambda>e. if fst e = k then (fst e, f') else e) (watcher (world s))"
      "waited (world s') = waited (world s)" "outstanding s' = outstanding s"
  shows "loop_inv cfg s'"
proof -
  let ?m = "mode (opts_of cfg)" and ?hs = "hosts (world s)"
  have ek: "entry_ok ?m (cur_host s) ?hs (k, f)" using inv e by (auto simp: loop_inv_def)
  have "\<forall>e\<in>set (watcher (world s')). entry_ok ?m (cur_host s') (hosts (world s')) e"
  proof
    fix e' assume "e' \<in> set (watcher (world s'))"
    then have "e' \<in> (\<lambda>e. if fst e = k then (fst e, f') else e) ` set (watcher (world s))"
      using s'(3) by simp
    then obtain e where e: "e \<in> set (watcher (world s))"
      "e' = (if fst e = k then (fst e, f') else e)" by blast
    have eo: "entry_ok ?m (cur_host s) ?hs e" using inv e(1) by (auto simp: loop_inv_def)
    show "entry_ok ?m (cur_host s') (hosts (world s')) e'"
    proof (cases "fst e = k")
      case True
      then show ?thesis using e(2) ek ss s'(1,2)
        by (auto simp: entry_ok_def same_stream_def split: option.splits)
    next
      case False
      then show ?thesis using e(2) eo s'(1,2) by simp
    qed
  qed
  then have i3: "\<forall>e\<in>set (watcher (world s')). entry_ok ?m (cur_host s') (hosts (world s')) e" .
  have "map fst (map (\<lambda>e. if fst e = k then (fst e, f') else e) (watcher (world s)))
        = map fst (watcher (world s))"
    by (induction "watcher (world s)") auto
  then have mf: "map fst (watcher (world s')) = map fst (watcher (world s))"
    using s'(3) by simp
  have i4: "distinct (map fst (watcher (world s')))" using inv mf by (simp add: loop_inv_def)
  have rest: "cur_host s' \<le> length (hosts (world s'))"
    "\<forall>i<length (hosts (world s')). host_ok ?m (i < cur_host s') (hosts (world s') ! i)"
    "distinct (waited (world s'))"
    "set (waited (world s')) = {i. i < length (hosts (world s')) \<and> reaped (hosts (world s') ! i)}"
    "outstanding s' = int (running (hosts (world s')))"
    "outstanding s' \<le> max_jobs (opts_of cfg)"
    using inv s'(1,2,4,5) by (simp_all add: loop_inv_def)
  show ?thesis unfolding loop_inv_def using rest i3 i4 by (intro conjI)
qed

lemma loop_inv_closed:
  assumes inv: "loop_inv cfg s" and e: "(k, f) \<in> set (watcher (world s))"
    and c: "cp (hosts (world s) ! host f) = Some c"
    and c': "pipes_ok (mode (opts_of cfg)) c'"
      "(pid c' = - 2) = all_pipes_closed (mode (opts_of cfg)) c'"
      "\<forall>t. t \<noteq> ptype f \<longrightarrow> get_fd t c' = get_fd t c"
    and s': "cur_host s' = cur_host s"
      "hosts (world s') = (hosts (world s))[host f := (hosts (world s) ! host f)\<lparr>cp := Some c'\<rparr>]"
      "watcher (world s') = filter (\<lambda>e. fst e \<noteq> k) (watcher (world s))"
      "waited (world s') = (if pid c' = - 2 then waited (world s) @ [host f] else waited (world s))"
      "outstanding s' = (if pid c' = - 2 then outstanding s - 1 else outstanding s)"
  shows "loop_inv cfg s'"
proof -
  let ?m = "mode (opts_of cfg)" and ?hs = "hosts (world s)" and ?hs' = "hosts (world s')"
  from loop_inv_entry [OF inv e] c have k: "0 \<le> k" "fd f = k" "host f < cur_host s"
    "host f < length ?hs" "pipe_of_mode ?m (ptype f)" "get_fd (ptype f) c = k"
    "pid c \<noteq> - 2" by auto
  have len: "length ?hs' = length ?hs" using s'(2) by simp
  have nth: "\<And>i. i < length ?hs \<Longrightarrow>
      ?hs' ! i = (if i = host f then (?hs ! host f)\<lparr>cp := Some c'\<rparr> else ?hs ! i)"
    using s'(2) by (simp add: nth_list_update)
  have al: "alive (?hs ! host f)" "\<not> reaped (?hs ! host f)"
    using c k(7) by (simp_all add: alive_def reaped_def)
  have i1: "cur_host s' \<le> length ?hs'" using inv s'(1) len by (simp add: loop_inv_def)
  have i2: "\<forall>i<length ?hs'. host_ok ?m (i < cur_host s') (?hs' ! i)"
  proof (intro allI impI)
    fix i assume i: "i < length ?hs'"
    then have "host_ok ?m (i < cur_host s) (?hs ! i)" using inv len by (simp add: loop_inv_def)
    then show "host_ok ?m (i < cur_host s') (?hs' ! i)"
      using nth [of i] i len k(3) c' s'(1) by (auto simp: host_ok_def)
  qed
  have i3: "\<forall>e\<in>set (watcher (world s')). entry_ok ?m (cur_host s') ?hs' e"
  proof
    fix e assume "e \<in> set (watcher (world s'))"
    then have e: "e \<in> set (watcher (world s))" "fst e \<noteq> k" using s'(3) by auto
    have eo: "entry_ok ?m (cur_host s) ?hs e" using inv e(1) by (auto simp: loop_inv_def)
    then have hl: "host (snd e) < length ?hs" using inv by (auto simp: entry_ok_def loop_inv_def)
    show "entry_ok ?m (cur_host s') ?hs' e"
    proof (cases "host (snd e) = host f")
      case False
      then show ?thesis using eo nth [OF hl] s'(1)
        by (auto simp: entry_ok_def split: option.splits)
    next
      case True
      then have g: "get_fd (ptype (snd e)) c = fst e" using eo c by (simp add: entry_ok_def)
      then have "ptype (snd e) \<noteq> ptype f" using k(6) e(2) by auto
      then have "get_fd (ptype (snd e)) c' = fst e" using c'(3) g by simp
      then show ?thesis using eo nth [OF hl] True s'(1)
        by (auto simp: entry_ok_def split: option.splits)
    qed
  qed
  have i4: "distinct (map fst (watcher (world s')))"
    using inv s'(3) by (simp add: loop_inv_def distinct_map_filter)
  have ws: "set (waited (world s)) = {i. i < length ?hs \<and> reaped (?hs ! i)}"
    and wd: "distinct (waited (world s))"
    using inv by (simp_all add: loop_inv_def)
  have notin: "host f \<notin> set (waited (world s))" using ws al(2) by simp
  have rp: "\<And>i. i < length ?hs \<Longrightarrow>
      reaped (?hs' ! i) = (if i = host f then pid c' = - 2 else reaped (?hs ! i))"
    using nth by (simp add: reaped_def)
  have i5: "distinct (waited (world s'))" using wd notin s'(4) by simp
  have i6: "set (waited (world s')) = {i. i < length ?hs' \<and> reaped (?hs' ! i)}"
  proof (cases "pid c' = - 2")
    case True
    then show ?thesis using s'(4) ws len rp k(4) by (auto split: if_splits)
  next
    case False
    then show ?thesis using s'(4) ws len rp al(2) by (auto split: if_splits)
  qed
  have "int (running ?hs') = int (running ?hs) - 1 + (if pid c' \<noteq> - 2 then 1 else 0)"
    using running_update [OF k(4), of "(?hs ! host f)\<lparr>cp := Some c'\<rparr>"] al(1) s'(2)
    by (simp add: alive_def)
  then have i7: "outstanding s' = int (running ?hs')"
    using inv s'(5) by (simp add: loop_inv_def)
  have i8: "outstanding s' \<le> max_jobs (opts_of cfg)"
    using inv s'(5) by (simp add: loop_inv_def)
  show ?thesis unfolding loop_inv_def using i1 i2 i3 i4 i5 i6 i7 i8 by (intro conjI)
qed


lemma pipes_ok_reap [simp]:
  "pipes_ok m (c\<lparr>exit_code := e, pid := p, finished_time := t\<rparr>) = pipes_ok m c"
  by (simp add: pipes_ok_def)

lemma all_pipes_closed_reap [simp]:
  "all_pipes_closed m (c\<lparr>exit_code := e, pid := p, finished_time := t\<rparr>) = all_pipes_closed m c"
  by (simp add: all_pipes_closed_def)

lemma get_fd_reap [simp]:
  "get_fd t' (c\<lparr>exit_code := e, pid := p, finished_time := t\<rparr>) = get_fd t' c"
  by (cases t') (simp_all add: get_fd_def)

lemma pid_set_fd [simp]: "pid ((set_fd t v c)\<lparr>output_buf := ob\<rparr>) = pid c"
  by (cases t) (simp_all add: set_fd_def)

lemma handle_event_inv:
  assumes inv: "loop_inv cfg s" and he: "handle_event cfg n s ev = Inr s'"
  shows "loop_inv cfg s' \<and> length (hosts (world s')) = length (hosts (world s))"
proof -
  let ?m = "mode (opts_of cfg)"
  have "map_of (watcher (world s)) (fst ev) \<noteq> None"
  proof
    assume "map_of (watcher (world s)) (fst ev) = None"
    then have "handle_event cfg n s ev = Inl NotRegistered" by (simp add: handle_event_def)
    with he show False by simp
  qed
  then obtain f where mo: "map_of (watcher (world s)) (fst ev) = Some f" by blast
  then have e: "(fst ev, f) \<in> set (watcher (world s))" by (rule map_of_SomeD)
  from loop_inv_entry [OF inv e] obtain c where
    c: "cp (hosts (world s) ! host f) = Some c" "get_fd (ptype f) c = fst ev"
       "host_cp (hosts (world s)) (host f) = Inr c" "pipes_ok ?m c" "pid c \<noteq> - 2"
       "\<not> all_pipes_closed ?m c"
    and pm: "pipe_of_mode ?m (ptype f)"
    by auto
  note hec = handle_event_cases [OF he mo c(3)]
  have cur: "cur_host s' = cur_host s" using hec by (rule conjunct1)
  note cases = conjunct2 [OF hec]
  from cases show ?thesis
  proof (elim disjE exE conjE)
    fix f'
    assume a: "same_stream f f'" "hosts (world s') = hosts (world s)"
      "watcher (world s') = map (\<lambda>e. if fst e = fst ev then (fst e, f') else e) (watcher (world s))"
      "waited (world s') = waited (world s)" "outstanding s' = outstanding s"
    then have "loop_inv cfg s'" by (rule loop_inv_not_closed [OF inv e _ cur])
    then show ?thesis using a(2) by simp
  next
    fix ob
    let ?c1 = "(set_fd (ptype f) (- 2) c)\<lparr>output_buf := ob\<rparr>"
    assume a: "watcher (world s') = filter (\<lambda>e. fst e \<noteq> get_fd (ptype f) c) (watcher (world s))"
      "\<not> child_process_stdio_done ?c1"
      "hosts (world s') = (hosts (world s))[host f := (hosts (world s) ! host f)\<lparr>cp := Some ?c1\<rparr>]"
      "waited (world s') = waited (world s)" "outstanding s' = outstanding s"
    have p1: "pipes_ok ?m ?c1" using pipes_ok_close [OF c(4) pm] .
    have p2: "(pid ?c1 = - 2) = all_pipes_closed ?m ?c1"
      using a(2) c(5) stdio_done_closed [OF p1] by simp
    have p3: "\<forall>t. t \<noteq> ptype f \<longrightarrow> get_fd t ?c1 = get_fd t c"
      by (simp add: get_fd_set_fd_other)
    have np: "pid ?c1 \<noteq> - 2" using c(5) by simp
    have "loop_inv cfg s'"
    proof (rule loop_inv_closed [OF inv e c(1) p1 p2 p3 cur a(3)])
      show "watcher (world s') = filter (\<lambda>e. fst e \<noteq> fst ev) (watcher (world s))"
        using a(1) c(2) by simp
      show "waited (world s') = (if pid ?c1 = - 2 then waited (world s) @ [host f] else waited (world s))"
        using a(4) np by simp
      show "outstanding s' = (if pid ?c1 = - 2 then outstanding s - 1 else outstanding s)"
        using a(5) np by simp
    qed
    then show ?thesis using a(3) by simp
  next
    fix ob e' t
    let ?c1 = "(set_fd (ptype f) (- 2) c)\<lparr>output_buf := ob\<rparr>"
    let ?c2 = "(set_fd (ptype f) (- 2) c)\<lparr>output_buf := ob, exit_code := e', pid := - 2,
                                 finished_time := t\<rparr>"
    assume a: "watcher (world s') = filter (\<lambda>e. fst e \<noteq> get_fd (ptype f) c) (watcher (world s))"
      "child_process_stdio_done ?c1"
      "hosts (world s') = (hosts (world s))[host f := (hosts (world s) ! host f)\<lparr>cp := Some ?c2\<rparr>]"
      "waited (world s') = waited (world s) @ [host f]" "outstanding s' = outstanding s - 1"
    have p1: "pipes_ok ?m ?c1" using pipes_ok_close [OF c(4) pm] .
    have q1: "pipes_ok ?m ?c2" using p1 by simp
    have q2: "(pid ?c2 = - 2) = all_pipes_closed ?m ?c2"
      using a(2) stdio_done_closed [OF p1] by simp
    have q3: "\<forall>t'. t' \<noteq> ptype f \<longrightarrow> get_fd t' ?c2 = get_fd t' c"
      by (simp add: get_fd_set_fd_other)
    have yp: "pid ?c2 = - 2" by simp
    have "loop_inv cfg s'"
    proof (rule loop_inv_closed [OF inv e c(1) q1 q2 q3 cur a(3)])
      show "watcher (world s') = filter (\<lambda>e. fst e \<noteq> fst ev) (watcher (world s))"
        using a(1) c(2) by simp
      show "waited (world s') = (if pid ?c2 = - 2 then waited (world s) @ [host f] else waited (world s))"
        using a(4) yp by simp
      show "outstanding s' = (if pid ?c2 = - 2 then outstanding s - 1 else outstanding s)"
        using a(5) yp by simp
    qed
    then show ?thesis using a(3) by simp
  qed
qed


lemma fdev_create_fields:
  assumes "fdev_create opt env hs i t = Inr f"
  shows "\<exists>c. host_cp hs i = Inr c \<and> 0 \<le> get_fd t c \<and> host f = i \<and> fd f = get_fd t c \<and>
             ptype f = t"
proof -
  from assms obtain c b where c: "host_cp hs i = Inr c"
    and r: "bindE (assert (get_fd t c \<ge> 0))
              (\<lambda>_. Inr \<lparr>host = i, fd = get_fd t c, buffer = b, offset = 0, ptype = t\<rparr>) = Inr f"
    unfolding fdev_create_def bindE_Inr_iff by blast
  have g: "0 \<le> get_fd t c" using r by (cases "0 \<le> get_fd t c") simp_all
  then have "f = \<lparr>host = i, fd = get_fd t c, buffer = b, offset = 0, ptype = t\<rparr>"
    using r by simp
  then show ?thesis using c g by simp
qed

lemma register_child_process_fd_effect:
  assumes "register_child_process_fd cfg i t w = Inr w'"
  shows "\<exists>f c. host_cp (hosts w) i = Inr c \<and> 0 \<le> get_fd t c \<and>
           get_fd t c \<notin> fst ` set (watcher w) \<and> host f = i \<and> fd f = get_fd t c \<and>
           ptype f = t \<and> w' = w\<lparr>watcher := watcher w @ [(get_fd t c, f)]\<rparr>"
proof -
  from assms obtain f where f: "fdev_create (opts_of cfg) (env_of cfg) (hosts w) i t = Inr f"
    and r: "(if fd f \<in> fst ` set (watcher w) then Inl (Exit 3)
             else Inr (w\<lparr>watcher := watcher w @ [(fd f, f)]\<rparr>)) = Inr w'"
    unfolding register_child_process_fd_def bindE_Inr_iff by blast
  from fdev_create_fields [OF f] obtain c where c: "host_cp (hosts w) i = Inr c"
    "0 \<le> get_fd t c" "host f = i" "fd f = get_fd t c" "ptype f = t" by blast
  have n: "fd f \<notin> fst ` set (watcher w)" using r by (cases "fd f \<in> fst ` set (watcher w)") simp_all
  then have "w' = w\<lparr>watcher := watcher w @ [(fd f, f)]\<rparr>" using r by simp
  then show ?thesis using c n by auto
qed

lemma register_child_process_fds_effect:
  assumes "register_child_process_fds cfg i w = Inr w'"
  shows "\<exists>c es. host_cp (hosts w) i = Inr c \<and> w' = w\<lparr>watcher := watcher w @ es\<rparr> \<and>
           distinct (map fst es) \<and> fst ` set es \<inter> fst ` set (watcher w) = {} \<and>
           (\<forall>e\<in>set es. 0 \<le> fst e \<and> fd (snd e) = fst e \<and> host (snd e) = i \<and>
                pipe_of_mode (mode (opts_of cfg)) (ptype (snd e)) \<and>
                get_fd (ptype (snd e)) c = fst e)"
proof (cases "mode (opts_of cfg) = MODE_JOIN")
  case True
  then have "register_child_process_fd cfg i PIPE_STDIO w = Inr w'"
    using assms by (simp add: register_child_process_fds_def)
  from register_child_process_fd_effect [OF this] obtain f c where
    c: "host_cp (hosts w) i = Inr c" "0 \<le> get_fd PIPE_STDIO c"
       "get_fd PIPE_STDIO c \<notin> fst ` set (watcher w)" "host f = i" "fd f = get_fd PIPE_STDIO c"
       "ptype f = PIPE_STDIO" "w' = w\<lparr>watcher := watcher w @ [(get_fd PIPE_STDIO c, f)]\<rparr>"
    by blast
  show ?thesis
    by (rule exI [of _ c], rule exI [of _ "[(get_fd PIPE_STDIO c, f)]"])
       (use c True in \<open>simp add: pipe_of_mode_def\<close>)
next
  case False
  then have "bindE (register_child_process_fd cfg i PIPE_STDOUT w)
               (\<lambda>w'. register_child_process_fd cfg i PIPE_STDERR w') = Inr w'"
    using assms by (cases "mode (opts_of cfg)") (simp_all add: register_child_process_fds_def)
  then obtain w1 where r1: "register_child_process_fd cfg i PIPE_STDOUT w = Inr w1"
    and r2: "register_child_process_fd cfg i PIPE_STDERR w1 = Inr w'"
    unfolding bindE_Inr_iff by blast
  from register_child_process_fd_effect [OF r1] obtain f c where
    c: "host_cp (hosts w) i = Inr c" "0 \<le> get_fd PIPE_STDOUT c"
       "get_fd PIPE_STDOUT c \<notin> fst ` set (watcher w)" "host f = i" "fd f = get_fd PIPE_STDOUT c"
       "ptype f = PIPE_STDOUT" "w1 = w\<lparr>watcher := watcher w @ [(get_fd PIPE_STDOUT c, f)]\<rparr>"
    by blast
  from register_child_process_fd_effect [OF r2] obtain f2 c2 where
    c2: "host_cp (hosts w1) i = Inr c2" "0 \<le> get_fd PIPE_STDERR c2"
       "get_fd PIPE_STDERR c2 \<notin> fst ` set (watcher w1)" "host f2 = i"
       "fd f2 = get_fd PIPE_STDERR c2"
       "ptype f2 = PIPE_STDERR" "w' = w1\<lparr>watcher := watcher w1 @ [(get_fd PIPE_STDERR c2, f2)]\<rparr>"
    by blast
  have same: "c2 = c" using c(1) c2(1) c(7) by simp
  show ?thesis
    by (rule exI [of _ c],
        rule exI [of _ "[(get_fd PIPE_STDOUT c, f), (get_fd PIPE_STDERR c, f2)]"])
       (use c c2 same False in \<open>auto simp: pipe_of_mode_def\<close>)
qed

lemma spawn_child_process_effect:
  assumes "spawn_child_process cfg i w = Inr w'"
  shows "i < length (hosts w) \<and> watcher w' = watcher w \<and> waited w' = waited w \<and>
         (\<exists>c. hosts w' = (hosts w)[i := (hosts w ! i)\<lparr>cp := Some c\<rparr>] \<and>
              pipes_ok (mode (opts_of cfg)) c \<and> \<not> all_pipes_closed (mode (opts_of cfg)) c \<and>
              pid c = fork_pid (env_of cfg) i)"
proof -
  let ?m = "mode (opts_of cfg)" and ?env = "env_of cfg"
  from assms obtain h c t where h: "deref (hosts w) i = Inr h"
    and mk: "(case ?m of
              MODE_JOIN \<Rightarrow>
                bindE (make_pipe ?env i PIPE_STDIO) (\<lambda>io.
                  Inr (child_process_create\<lparr>stdio_fd := io\<rparr>))
            | _ \<Rightarrow>
                bindE (make_pipe ?env i PIPE_STDOUT) (\<lambda>out.
                bindE (make_pipe ?env i PIPE_STDERR) (\<lambda>err.
                  Inr (child_process_create\<lparr>stdout_fd := out, stderr_fd := err\<rparr>)))) = Inr c"
    and w': "w' = w\<lparr>hosts := (hosts w)[i := h\<lparr>cp := Some
                       (c\<lparr>pid := fork_pid ?env i, started_time := t\<rparr>)\<rparr>],
                    ticks := Suc (ticks w)\<rparr>"
    unfolding spawn_child_process_def bindE_Inr_iff by blast
  have il: "i < length (hosts w)" and hh: "h = hosts w ! i"
    using h by (auto simp: deref_def split: if_splits)
  have po: "pipes_ok ?m c \<and> \<not> all_pipes_closed ?m c"
    using mk by (cases ?m)
      (auto simp: pipes_ok_def all_pipes_closed_def child_process_create_def make_pipe_def
          bindE_Inr_iff split: if_splits)
  let ?c = "c\<lparr>pid := fork_pid ?env i, started_time := t\<rparr>"
  have "hosts w' = (hosts w)[i := (hosts w ! i)\<lparr>cp := Some ?c\<rparr>] \<and>
        pipes_ok ?m ?c \<and> \<not> all_pipes_closed ?m ?c \<and> pid ?c = fork_pid ?env i"
    using w' hh po by (auto simp: pipes_ok_def all_pipes_closed_def split: if_splits)
  then show ?thesis using il w' by (intro conjI exI [of _ ?c]) simp_all
qed


lemma loop_inv_admit:
  assumes inv: "loop_inv cfg s"
    and guard: "cur_host s < length (hosts (world s))" "outstanding s < max_jobs (opts_of cfg)"
    and c: "cp h' = Some c" "pipes_ok (mode (opts_of cfg)) c"
      "\<not> all_pipes_closed (mode (opts_of cfg)) c" "pid c \<noteq> - 2"
    and s': "cur_host s' = Suc (cur_host s)"
      "hosts (world s') = (hosts (world s))[cur_host s := h']"
      "watcher (world s') = watcher (world s) @ es"
      "waited (world s') = waited (world s)" "outstanding s' = outstanding s + 1"
    and es: "distinct (map fst es)" "fst ` set es \<inter> fst ` set (watcher (world s)) = {}"
      "\<forall>e\<in>set es. 0 \<le> fst e \<and> fd (snd e) = fst e \<and> host (snd e) = cur_host s \<and>
                pipe_of_mode (mode (opts_of cfg)) (ptype (snd e)) \<and>
                get_fd (ptype (snd e)) c = fst e"
  shows "loop_inv cfg s'"
proof -
  let ?m = "mode (opts_of cfg)" and ?hs = "hosts (world s)" and ?hs' = "hosts (world s')"
  let ?k = "cur_host s"
  have len: "length ?hs' = length ?hs" using s'(2) by simp
  have nth: "\<And>i. i < length ?hs \<Longrightarrow> ?hs' ! i = (if i = ?k then h' else ?hs ! i)"
    using s'(2) by (simp add: nth_list_update)
  have old: "cp (?hs ! ?k) = None"
  proof -
    have "\<forall>i<length ?hs. host_ok ?m (i < ?k) (?hs ! i)" using inv by (simp add: loop_inv_def)
    then have "host_ok ?m (?k < ?k) (?hs ! ?k)" using guard(1) by blast
    then show ?thesis by (simp add: host_ok_def)
  qed
  have i1: "cur_host s' \<le> length ?hs'" using guard(1) s'(1) len by simp
  have i2: "\<forall>i<length ?hs'. host_ok ?m (i < cur_host s') (?hs' ! i)"
  proof (intro allI impI)
    fix i assume i: "i < length ?hs'"
    then have "host_ok ?m (i < ?k) (?hs ! i)" using inv len by (simp add: loop_inv_def)
    then show "host_ok ?m (i < cur_host s') (?hs' ! i)"
      using nth [of i] i len c s'(1) by (auto simp: host_ok_def)
  qed
  have i3: "\<forall>e\<in>set (watcher (world s')). entry_ok ?m (cur_host s') ?hs' e"
  proof
    fix e assume "e \<in> set (watcher (world s'))"
    then consider "e \<in> set (watcher (world s))" | "e \<in> set es" using s'(3) by auto
    then show "entry_ok ?m (cur_host s') ?hs' e"
    proof cases
      case 1
      then have eo: "entry_ok ?m ?k ?hs e" using inv by (auto simp: loop_inv_def)
      then have hl: "host (snd e) < ?k" by (simp add: entry_ok_def)
      then have "host (snd e) < length ?hs" using guard(1) by simp
      from nth [OF this] hl eo show ?thesis using s'(1)
        by (auto simp: entry_ok_def split: option.splits)
    next
      case 2
      then have "0 \<le> fst e \<and> fd (snd e) = fst e \<and> host (snd e) = ?k \<and>
                pipe_of_mode ?m (ptype (snd e)) \<and> get_fd (ptype (snd e)) c = fst e"
        using es(3) by blast
      then show ?thesis using nth [OF guard(1)] c(1) s'(1) by (simp add: entry_ok_def)
    qed
  qed
  have i4: "distinct (map fst (watcher (world s')))"
    using inv s'(3) es(1,2) by (auto simp: loop_inv_def)
  have ws: "set (waited (world s)) = {i. i < length ?hs \<and> reaped (?hs ! i)}"
    and wd: "distinct (waited (world s))"
    using inv by (simp_all add: loop_inv_def)
  have i5: "distinct (waited (world s'))" using wd s'(4) by simp
  have rp: "\<And>i. i < length ?hs \<Longrightarrow> reaped (?hs' ! i) = reaped (?hs ! i)"
    using nth old c(1,4) by (simp add: reaped_def)
  have i6: "set (waited (world s')) = {i. i < length ?hs' \<and> reaped (?hs' ! i)}"
    using s'(4) ws len rp by auto
  have "int (running ?hs') = int (running ?hs) + 1"
    using running_update [OF guard(1), of h'] old c(1,4) s'(2) by (simp add: alive_def)
  then have i7: "outstanding s' = int (running ?hs')"
    using inv s'(5) by (simp add: loop_inv_def)
  have i8: "outstanding s' \<le> max_jobs (opts_of cfg)" using guard(2) s'(5) by simp
  show ?thesis unfolding loop_inv_def using i1 i2 i3 i4 i5 i6 i7 i8 by (intro conjI)
qed


lemma admit_host_inv:
  assumes inv: "loop_inv cfg s"
    and guard: "cur_host s < length (hosts (world s))" "outstanding s < max_jobs (opts_of cfg)"
    and fork: "- 1 \<le> fork_pid (env_of cfg) (cur_host s)"
    and ah: "admit_host cfg s = Inr s'"
  shows "loop_inv cfg s'"
proof -
  let ?k = "cur_host s" and ?hs = "hosts (world s)" and ?m = "mode (opts_of cfg)"
  from ah obtain w1 h w3 where sp: "spawn_child_process cfg ?k (world s) = Inr w1"
    and d: "deref (hosts w1) ?k = Inr h"
    and reg: "register_child_process_fds cfg ?k
                (if trim (opts_of cfg)
                 then w1\<lparr>hosts := (hosts w1)[?k :=
                              h\<lparr>name := snd (lsplit_str (name h) (CHR ''.''))\<rparr>]\<rparr>
                 else w1) = Inr w3"
    and s': "s' = s\<lparr>world := w3, outstanding := outstanding s + 1, cur_host := Suc ?k\<rparr>"
    unfolding admit_host_def bindE_Inr_iff Let_def by auto
  from spawn_child_process_effect [OF sp] obtain c where
    w1: "watcher w1 = watcher (world s)" "waited w1 = waited (world s)"
        "hosts w1 = ?hs[?k := (?hs ! ?k)\<lparr>cp := Some c\<rparr>]"
    and c: "pipes_ok ?m c" "\<not> all_pipes_closed ?m c" "pid c = fork_pid (env_of cfg) ?k"
    by blast
  have h: "h = (?hs ! ?k)\<lparr>cp := Some c\<rparr>"
    using d w1(3) guard(1) by (simp add: deref_def)
  define h' where "h' = (if trim (opts_of cfg)
                         then h\<lparr>name := snd (lsplit_str (name h) (CHR ''.''))\<rparr> else h)"
  define w2 where "w2 = (if trim (opts_of cfg)
                 then w1\<lparr>hosts := (hosts w1)[?k :=
                              h\<lparr>name := snd (lsplit_str (name h) (CHR ''.''))\<rparr>]\<rparr>
                 else w1)"
  have cp: "cp h' = Some c" using h by (simp add: h'_def)
  have w2: "hosts w2 = ?hs[?k := h']" "watcher w2 = watcher (world s)"
    "waited w2 = waited (world s)"
    using w1 h by (simp_all add: w2_def h'_def)
  have "register_child_process_fds cfg ?k w2 = Inr w3" using reg by (simp add: w2_def)
  from register_child_process_fds_effect [OF this] obtain c2 es where
    c2: "host_cp (hosts w2) ?k = Inr c2" and w3: "w3 = w2\<lparr>watcher := watcher w2 @ es\<rparr>"
    and es: "distinct (map fst es)" "fst ` set es \<inter> fst ` set (watcher w2) = {}"
      "\<forall>e\<in>set es. 0 \<le> fst e \<and> fd (snd e) = fst e \<and> host (snd e) = ?k \<and>
                pipe_of_mode ?m (ptype (snd e)) \<and> get_fd (ptype (snd e)) c2 = fst e"
    by blast
  have same: "c2 = c" using c2 w2(1) cp guard(1) by (simp add: host_cp_def deref_def)
  have pid: "pid c \<noteq> - 2" using c(3) fork by simp
  show ?thesis
  proof (rule loop_inv_admit [OF inv guard cp c(1,2) pid])
    show "cur_host s' = Suc ?k" by (simp add: s')
    show "hosts (world s') = ?hs[?k := h']" by (simp add: s' w3 w2)
    show "watcher (world s') = watcher (world s) @ es" by (simp add: s' w3 w2)
    show "waited (world s') = waited (world s)" by (simp add: s' w3 w2)
    show "outstanding s' = outstanding s + 1" by (simp add: s')
    show "distinct (map fst es)" by (rule es(1))
    show "fst ` set es \<inter> fst ` set (watcher (world s)) = {}" using es(2) w2(2) by simp
    show "\<forall>e\<in>set es. 0 \<le> fst e \<and> fd (snd e) = fst e \<and> host (snd e) = ?k \<and>
                pipe_of_mode ?m (ptype (snd e)) \<and> get_fd (ptype (snd e)) c = fst e"
      using es(3) same by simp
  qed
qed

lemma admit_host_shape:
  assumes ah: "admit_host cfg s = Inr s'"
  shows "length (hosts (world s')) = length (hosts (world s)) \<and>
         cur_host s' = Suc (cur_host s)"
proof -
  let ?k = "cur_host s"
  from ah obtain w1 h w3 where sp: "spawn_child_process cfg ?k (world s) = Inr w1"
    and reg: "register_child_process_fds cfg ?k
                (if trim (opts_of cfg)
                 then w1\<lparr>hosts := (hosts w1)[?k :=
                              h\<lparr>name := snd (lsplit_str (name h) (CHR ''.''))\<rparr>]\<rparr>
                 else w1) = Inr w3"
    and s': "s' = s\<lparr>world := w3, outstanding := outstanding s + 1, cur_host := Suc ?k\<rparr>"
    unfolding admit_host_def bindE_Inr_iff Let_def by auto
  from spawn_child_process_effect [OF sp]
  have l1: "length (hosts w1) = length (hosts (world s))" by auto
  from register_child_process_fds_effect [OF reg] obtain es where
    "w3 = (if trim (opts_of cfg)
           then w1\<lparr>hosts := (hosts w1)[?k :=
                        h\<lparr>name := snd (lsplit_str (name h) (CHR ''.''))\<rparr>]\<rparr>
           else w1)\<lparr>watcher := watcher (if trim (opts_of cfg)
                 then w1\<lparr>hosts := (hosts w1)[?k :=
                              h\<lparr>name := snd (lsplit_str (name h) (CHR ''.''))\<rparr>]\<rparr>
                 else w1) @ es\<rparr>"
    by blast
  then have "length (hosts w3) = length (hosts w1)" by (simp split: if_splits)
  then show ?thesis using l1 s' by simp
qed

lemma admit_inv:
  assumes "loop_inv cfg s" "admit cfg k s = Inr (s', tr)"
    and "\<forall>i<length (hosts (world s)). - 1 \<le> fork_pid (env_of cfg) i"
  shows "loop_inv cfg s' \<and>
         (\<forall>t\<in>set tr. loop_inv cfg t \<and>
                     length (hosts (world t)) = length (hosts (world s))) \<and>
         length (hosts (world s')) = length (hosts (world s)) \<and>
         (length (hosts (world s)) - cur_host s \<le> k \<longrightarrow>
            \<not> (cur_host s' < length (hosts (world s')) \<and>
               outstanding s' < max_jobs (opts_of cfg)))"
  using assms
proof (induction k arbitrary: s s' tr)
  case 0
  then show ?case by (auto simp: loop_inv_def)
next
  case (Suc k)
  show ?case
  proof (cases "cur_host s < length (hosts (world s)) \<and> outstanding s < max_jobs (opts_of cfg)")
    case False
    then show ?thesis using Suc.prems by auto
  next
    case True
    then obtain s1 s2 tr2 where a: "admit_host cfg s = Inr s1"
      and b: "admit cfg k s1 = Inr (s2, tr2)" and r: "s' = s2" "tr = s1 # tr2"
      using Suc.prems(2) by (auto simp: bindE_Inr_iff)
    have f: "- 1 \<le> fork_pid (env_of cfg) (cur_host s)" using Suc.prems(3) True by blast
    have i1: "loop_inv cfg s1" using admit_host_inv [OF Suc.prems(1) _ _ f a] True by blast
    have l1: "length (hosts (world s1)) = length (hosts (world s))"
      and c1: "cur_host s1 = Suc (cur_host s)"
      using admit_host_shape [OF a] by simp_all
    have "\<forall>i<length (hosts (world s1)). - 1 \<le> fork_pid (env_of cfg) i"
      using Suc.prems(3) l1 by simp
    from Suc.IH [OF i1 b this] r l1 c1 i1 show ?thesis by auto
  qed
qed


lemma handle_events_inv:
  assumes "loop_inv cfg s" "handle_events cfg n s evs = Inr (s', tr)"
  shows "loop_inv cfg s' \<and> length (hosts (world s')) = length (hosts (world s)) \<and>
         (\<forall>t\<in>set tr. loop_inv cfg t \<and>
                     length (hosts (world t)) = length (hosts (world s)))"
  using assms
proof (induction evs arbitrary: s s' tr)
  case Nil
  then show ?case by simp
next
  case (Cons ev evs)
  from Cons.prems(2) obtain s1 s2 tr2 where a: "handle_event cfg n s ev = Inr s1"
    and b: "handle_events cfg n s1 evs = Inr (s2, tr2)" and r: "s' = s2" "tr = s1 # tr2"
    by (auto simp: bindE_Inr_iff)
  have i1: "loop_inv cfg s1" "length (hosts (world s1)) = length (hosts (world s))"
    using handle_event_inv [OF Cons.prems(1) a] by simp_all
  from Cons.IH [OF i1(1) b] r i1 show ?case by simp
qed

lemma main_loop_while_inv:
  assumes "loop_inv cfg s" "main_loop_while cfg n s script = Inr (fin, s', tr)"
    and fork: "\<forall>i. - 1 \<le> fork_pid (env_of cfg) i"
  shows "loop_inv cfg s' \<and> length (hosts (world s')) = length (hosts (world s)) \<and>
         (\<forall>t\<in>set tr. loop_inv cfg t \<and>
                     length (hosts (world t)) = length (hosts (world s))) \<and>
         (fin \<longrightarrow> \<not> (cur_host s' < length (hosts (world s')) \<or> outstanding s' > 0))"
  using assms(1,2)
proof (induction script arbitrary: s s' tr fin)
  case Nil
  show ?case
  proof (cases "cur_host s < length (hosts (world s)) \<or> outstanding s > 0")
    case False
    then have "main_loop_while cfg n s [] = Inr (True, s, [])"
      by (subst main_loop_while.simps) simp
    then show ?thesis using Nil False by simp
  next
    case True
    then have "main_loop_while cfg n s [] =
        bindE (assert (outstanding s \<le> max_jobs (opts_of cfg))) (\<lambda>_.
        bindE (admit cfg (length (hosts (world s)) - cur_host s) s) (\<lambda>(s1, tr1).
          Inr (False, s1, tr1)))"
      by (subst main_loop_while.simps) simp
    then obtain s1 tr1 where a: "admit cfg (length (hosts (world s)) - cur_host s) s = Inr (s1, tr1)"
      and r: "fin = False" "s' = s1" "tr = tr1"
      using Nil.prems(2) by (auto simp: bindE_Inr_iff)
    have "\<forall>i<length (hosts (world s)). - 1 \<le> fork_pid (env_of cfg) i" using fork by simp
    from admit_inv [OF Nil.prems(1) a this] r show ?thesis by simp
  qed
next
  case (Cons events rest)
  show ?case
  proof (cases "cur_host s < length (hosts (world s)) \<or> outstanding s > 0")
    case False
    then have "main_loop_while cfg n s (events # rest) = Inr (True, s, [])"
      by (subst main_loop_while.simps) simp
    then show ?thesis using Cons.prems False by simp
  next
    case True
    then have "main_loop_while cfg n s (events # rest) =
        bindE (assert (outstanding s \<le> max_jobs (opts_of cfg))) (\<lambda>_.
        bindE (admit cfg (length (hosts (world s)) - cur_host s) s) (\<lambda>(s1, tr1).
          bindE (epoll_wait cfg s1) (\<lambda>s1'.
          bindE (handle_events cfg n s1' events) (\<lambda>(s2, tr2).
          bindE (main_loop_while cfg n s2 rest) (\<lambda>(fin, s3, tr3).
            Inr (fin, s3, tr1 @ tr2 @ tr3))))))"
      by (subst main_loop_while.simps) simp
    then have "bindE (assert (outstanding s \<le> max_jobs (opts_of cfg))) (\<lambda>_.
        bindE (admit cfg (length (hosts (world s)) - cur_host s) s) (\<lambda>(s1, tr1).
          bindE (epoll_wait cfg s1) (\<lambda>s1'.
          bindE (handle_events cfg n s1' events) (\<lambda>(s2, tr2).
          bindE (main_loop_while cfg n s2 rest) (\<lambda>(fin, s3, tr3).
            Inr (fin, s3, tr1 @ tr2 @ tr3)))))) = Inr (fin, s', tr)"
      using Cons.prems(2) by (simp only:)
    then obtain s0 tr1 s1 s2 tr2 tr3 where
      a: "admit cfg (length (hosts (world s)) - cur_host s) s = Inr (s0, tr1)"
      and ew: "epoll_wait cfg s0 = Inr s1"
      and b: "handle_events cfg n s1 events = Inr (s2, tr2)"
      and c: "main_loop_while cfg n s2 rest = Inr (fin, s', tr3)"
      and r: "tr = tr1 @ tr2 @ tr3"
      by (auto simp del: main_loop_while.simps simp: bindE_Inr_iff)
    have s1: "s1 = s0\<lparr>world := (world s0)\<lparr>polls := Suc (polls (world s0))\<rparr>\<rparr>"
      using ew by (simp add: epoll_wait_def split: if_splits)
    have "\<forall>i<length (hosts (world s)). - 1 \<le> fork_pid (env_of cfg) i" using fork by simp
    from admit_inv [OF Cons.prems(1) a this]
    have i0: "loop_inv cfg s0" "length (hosts (world s0)) = length (hosts (world s))"
      "\<forall>t\<in>set tr1. loop_inv cfg t \<and> length (hosts (world t)) = length (hosts (world s))"
      by simp_all
    have "loop_inv cfg s1" using i0(1) by (simp add: s1 loop_inv_def)
    moreover have "length (hosts (world s1)) = length (hosts (world s))"
      using i0(2) by (simp add: s1)
    ultimately have i1: "loop_inv cfg s1" "length (hosts (world s1)) = length (hosts (world s))"
      "\<forall>t\<in>set tr1. loop_inv cfg t \<and> length (hosts (world t)) = length (hosts (world s))"
      using i0(3) by blast+
    from handle_events_inv [OF i1(1) b]
    have i2: "loop_inv cfg s2" "length (hosts (world s2)) = length (hosts (world s1))"
      "\<forall>t\<in>set tr2. loop_inv cfg t \<and> length (hosts (world t)) = length (hosts (world s1))"
      by simp_all
    note ih = Cons.IH [OF i2(1) c]
    note i3 = ih [THEN conjunct1] ih [THEN conjunct2, THEN conjunct1]
      ih [THEN conjunct2, THEN conjunct2, THEN conjunct1]
      ih [THEN conjunct2, THEN conjunct2, THEN conjunct2]
    have l2: "length (hosts (world s2)) = length (hosts (world s))" using i1(2) i2(2) by simp
    have "\<forall>t\<in>set tr. loop_inv cfg t \<and> length (hosts (world t)) = length (hosts (world s))"
    proof
      fix t assume "t \<in> set tr"
      then consider "t \<in> set tr1" | "t \<in> set tr2" | "t \<in> set tr3" using r by auto
      then show "loop_inv cfg t \<and> length (hosts (world t)) = length (hosts (world s))"
      proof cases
        case 1 then show ?thesis using i1(3) by blast
      next
        case 2 then show ?thesis using i2(3) i1(2) by simp
      next
        case 3 then show ?thesis using i3(3) l2 by simp
      qed
    qed
    moreover have "length (hosts (world s')) = length (hosts (world s))" using i3(2) l2 by simp
    ultimately show ?thesis using i3(1,4) by blast
  qed
qed

lemma loop_inv_initial:
  assumes "\<forall>h\<in>set (hosts w). cp h = None" "watcher w = []" "waited w = []"
    "0 \<le> max_jobs (opts_of cfg)"
  shows "loop_inv cfg \<lparr>world = w, cur_host = 0, outstanding = 0, done_count = 0\<rparr>"
proof -
  have "filter alive (hosts w) = []" using assms(1) by (auto simp: filter_empty_conv alive_def)
  then have "running (hosts w) = 0" by (simp add: running_def)
  moreover have "\<forall>i<length (hosts w). \<not> reaped (hosts w ! i)"
    using assms(1) by (simp add: reaped_def)
  moreover have "\<forall>i<length (hosts w). host_ok (mode (opts_of cfg)) False (hosts w ! i)"
    using assms(1) by (simp add: host_ok_def)
  ultimately show ?thesis using assms(2-) by (simp add: loop_inv_def)
qed

lemma main_loop_inv:
  assumes ml: "main_loop cfg n (initial_world hs) script = Inr (fin, s, tr)"
    and fresh: "\<forall>h\<in>set hs. cp h = None"
    and jobs: "0 \<le> max_jobs (opts_of cfg)"
    and fork: "\<forall>i. - 1 \<le> fork_pid (env_of cfg) i"
  shows "\<forall>t\<in>set (s # tr). loop_inv cfg t \<and> length (hosts (world t)) = length hs"
    and "fin \<longrightarrow> cur_host s = length hs \<and> outstanding s = 0"
proof -
  define w0 where "w0 = (if mode (opts_of cfg) = MODE_JOIN \<and> stdout_isatty cfg
                then (initial_world hs)\<lparr>outs := print_progress_line (colors_of cfg) 0 n
                                                (outs (initial_world hs))\<rparr>
                else initial_world hs)"
  define s0 where "s0 = \<lparr>world = w0, cur_host = 0, outstanding = 0, done_count = 0\<rparr>"
  have w0: "hosts w0 = hs" "watcher w0 = []" "waited w0 = []"
    by (simp_all add: w0_def initial_world_def)
  have i0: "loop_inv cfg s0" unfolding s0_def
    by (rule loop_inv_initial) (use w0 fresh jobs in simp_all)
  from ml obtain tr' where mw: "main_loop_while cfg n s0 script = Inr (fin, s, tr')"
    and r: "tr = s0 # tr'"
    unfolding main_loop_def Let_def w0_def [symmetric] s0_def [symmetric]
    by (auto simp del: main_loop_while.simps simp: bindE_Inr_iff)
  have l0: "length (hosts (world s0)) = length hs" by (simp add: s0_def w0)
  note mi = main_loop_while_inv [OF i0 mw fork]
  show "\<forall>t\<in>set (s # tr). loop_inv cfg t \<and> length (hosts (world t)) = length hs"
    using mi i0 r l0 by simp
  have "loop_inv cfg s" using mi by simp
  then have "cur_host s \<le> length (hosts (world s))" "0 \<le> outstanding s"
    by (simp_all add: loop_inv_def)
  then show "fin \<longrightarrow> cur_host s = length hs \<and> outstanding s = 0"
    using mi l0 by auto
qed





subsection \<open>The concurrency cap\<close>

text \<open>
  Claim C5. Take a run of \<open>main_loop\<close> on a roster whose hosts have no child yet, with a
  cap that is not negative and a \<open>fork\<close> that returns \<open>-1\<close> or a process id. In the
  state before the loop, after every admission, after every event and at the end,
  \<open>outstanding\<close> is the number of hosts whose child was admitted and is not reaped, and
  it is at most \<open>max_jobs\<close>. The cap does not bound the number of children launched: when
  the loop is left, the cursor has passed the whole roster, whatever its length.
\<close>
theorem outstanding_bounded_by_max_jobs:
  assumes "main_loop cfg n (initial_world hs) script = Inr (fin, s, tr)"
    and "\<forall>h\<in>set hs. cp h = None"
    and "0 \<le> max_jobs (opts_of cfg)"
    and "\<forall>i. - 1 \<le> fork_pid (env_of cfg) i"
  shows "(\<forall>t\<in>set (s # tr). outstanding t = int (running (hosts (world t))) \<and>
                             outstanding t \<le> max_jobs (opts_of cfg)) \<and>
         (fin \<longrightarrow> cur_host s = length hs \<and> outstanding s = 0)"
proof -
  note mi = main_loop_inv [OF assms]
  have "\<forall>t\<in>set (s # tr). outstanding t = int (running (hosts (world t))) \<and>
                             outstanding t \<le> max_jobs (opts_of cfg)"
  proof
    fix t assume "t \<in> set (s # tr)"
    then have "loop_inv cfg t" using mi(1) by blast
    then show "outstanding t = int (running (hosts (world t))) \<and>
               outstanding t \<le> max_jobs (opts_of cfg)"
      by (simp add: loop_inv_def)
  qed
  then show ?thesis using mi(2) by blast
qed

theorem outstanding_bounded_by_max_jobs_witness:
  "list_all (\<lambda>h. cp h = None) three_hosts \<and>
   0 \<le> max_jobs (opts_of join_cfg) \<and>
   (\<forall>i. - 1 \<le> fork_pid (env_of join_cfg) i) \<and>
   map_sum id (\<lambda>(fin, s, tr). (fin, cur_host s, map outstanding (s # tr)))
     (main_loop join_cfg 3 (initial_world three_hosts) three_script)
     = Inr (True, 3, [0, 0, 1, 2, 1, 2, 2, 1, 0]) \<and>
   (\<exists>fin s tr. main_loop join_cfg 3 (initial_world three_hosts) three_script
                  = Inr (fin, s, tr) \<and>
      (\<forall>t\<in>set (s # tr). outstanding t = int (running (hosts (world t))) \<and>
                          outstanding t \<le> max_jobs (opts_of join_cfg)) \<and>
      (fin \<longrightarrow> cur_host s = length three_hosts \<and> outstanding s = 0))"
proof -
  have h1: "\<forall>h\<in>set three_hosts. cp h = None" by code_simp
  have h2: "0 \<le> max_jobs (opts_of join_cfg)" by code_simp
  have h3: "\<forall>i. - 1 \<le> fork_pid (env_of join_cfg) i" by (simp add: join_cfg_def demo_env_def)
  have e: "map_sum id (\<lambda>(fin, s, tr). (fin, cur_host s, map outstanding (s # tr)))
     (main_loop join_cfg 3 (initial_world three_hosts) three_script)
     = Inr (True, 3, [0, 0, 1, 2, 1, 2, 2, 1, 0])"
    by code_simp
  then obtain fin s tr where
    ml: "main_loop join_cfg 3 (initial_world three_hosts) three_script = Inr (fin, s, tr)"
    by (cases "main_loop join_cfg 3 (initial_world three_hosts) three_script") auto
  have l: "list_all (\<lambda>h. cp h = None) three_hosts" using h1 by (simp only: list_all_iff)
  from outstanding_bounded_by_max_jobs [OF ml h1 h2 h3] ml
  have "\<exists>fin s tr. main_loop join_cfg 3 (initial_world three_hosts) three_script
                  = Inr (fin, s, tr) \<and>
      (\<forall>t\<in>set (s # tr). outstanding t = int (running (hosts (world t))) \<and>
                          outstanding t \<le> max_jobs (opts_of join_cfg)) \<and>
      (fin \<longrightarrow> cur_host s = length three_hosts \<and> outstanding s = 0)"
    by blast
  then show ?thesis using l h2 h3 e by (intro conjI)
qed

subsection \<open>Reaping\<close>



end
